(* ===== verification/Prelude.thy ===== *)
theory Prelude
  imports Main "HOL-Library.Word" "HOL-Library.Sublist" "HOL-Library.Multiset"
begin

unbundle bit_operations_syntax

text \<open>
  What every component shares: the exceptions the C++ code can raise, the effect type of a
  handler (a state transformer that may throw), calls to external services with injected
  faults, the standard-library number conversions the code uses (\<open>std::to_string\<close>,
  \<open>std::stoi\<close>, \<open>std::stoll\<close>) and fixed-width integer arithmetic, with the lemma
  collections the component proofs rely on.
\<close>

section \<open>Lemma collections\<close>

named_theorems eff_simps \<open>unfolding of effectful programs\<close>
named_theorems pres_intros \<open>rules that a program keeps a state predicate\<close>

section \<open>Exceptions and HTTP statuses\<close>

text \<open>
  One constructor per kind of exception the code meets. \<open>RuntimeError\<close> is
  \<open>std::runtime_error\<close> (what \<open>boost::uuids::string_generator\<close> throws),
  \<open>Undefined_Behaviour\<close> marks a computation to which the C++ standard gives no meaning
  (signed overflow, an iterator range whose end precedes its begin).
\<close>

datatype exn =
    RuntimeError
  | InvalidArgument
  | OutOfRange
  | JsonParseError
  | JsonTypeMismatch
  | JsonMemberMissing
  | ConstraintViolation
  | NonSingleRow
  | ServiceError string
  | RpcError string
  | Undefined_Behaviour

text \<open>\<open>std::runtime_error\<close> and \<open>std::exception\<close> as the catch clauses see them.\<close>

definition is_runtime_error :: "exn \<Rightarrow> bool" where
  "is_runtime_error e \<longleftrightarrow> e = RuntimeError"

datatype http_status =
    kOk | kBadRequest | kUnauthorized | kForbidden | kNotFound | kInternalServerError

section \<open>Pure computations that may throw\<close>

definition sum_bind :: "exn + 'a \<Rightarrow> ('a \<Rightarrow> exn + 'b) \<Rightarrow> exn + 'b" where
  "sum_bind m k = (case m of Inl e \<Rightarrow> Inl e | Inr a \<Rightarrow> k a)"

lemma sum_bind_simps [simp]:
  "sum_bind (Inl e) k = Inl e"
  "sum_bind (Inr a) k = k a"
  by (simp_all add: sum_bind_def)

lemma sum_bind_eq_Inr:
  "sum_bind m k = Inr b \<longleftrightarrow> (\<exists>a. m = Inr a \<and> k a = Inr b)"
  by (cases m) auto

lemma sum_bind_eq_Inl:
  "sum_bind m k = Inl e \<longleftrightarrow> m = Inl e \<or> (\<exists>a. m = Inr a \<and> k a = Inl e)"
  by (cases m) auto

fun sum_list_map :: "('a \<Rightarrow> exn + 'b) \<Rightarrow> 'a list \<Rightarrow> exn + 'b list" where
  "sum_list_map f [] = Inr []"
| "sum_list_map f (x # xs) = sum_bind (f x) (\<lambda>y. sum_bind (sum_list_map f xs) (\<lambda>ys. Inr (y # ys)))"

lemma sum_list_map_all:
  "(\<And>x. x \<in> set xs \<Longrightarrow> f (g x) = Inr (h x)) \<Longrightarrow> sum_list_map f (map g xs) = Inr (map h xs)"
  by (induction xs) auto

lemma subseq_set: "subseq xs ys \<Longrightarrow> set xs \<subseteq> set ys"
  by (induction rule: list_emb.induct) auto

lemma subseq_distinct: "subseq xs ys \<Longrightarrow> distinct ys \<Longrightarrow> distinct xs"
  using subseqs_distinctD [of xs ys] by (simp add: in_set_subseqs)

section \<open>Effects\<close>

text \<open>
  A handler takes the state of its process and returns an exception or a value, with the
  state it leaves behind: an exception does not undo what was done before it.
\<close>

type_synonym ('s, 'a) eff = "'s \<Rightarrow> (exn + 'a) \<times> 's"

definition ret :: "'a \<Rightarrow> ('s, 'a) eff" where
  "ret a = (\<lambda>s. (Inr a, s))"

definition throw :: "exn \<Rightarrow> ('s, 'a) eff" where
  "throw e = (\<lambda>s. (Inl e, s))"

definition lift_sum :: "exn + 'a \<Rightarrow> ('s, 'a) eff" where
  "lift_sum r = (\<lambda>s. (r, s))"

definition bind :: "('s, 'a) eff \<Rightarrow> ('a \<Rightarrow> ('s, 'b) eff) \<Rightarrow> ('s, 'b) eff" where
  "bind m k = (\<lambda>s. case m s of (Inl e, t) \<Rightarrow> (Inl e, t) | (Inr a, t) \<Rightarrow> k a t)"

text \<open>\<open>try \<dots> catch\<close>: the handler runs in the state the failed body left.\<close>

definition try_catch :: "('s, 'a) eff \<Rightarrow> (exn \<Rightarrow> bool) \<Rightarrow> ('s, 'a) eff \<Rightarrow> ('s, 'a) eff" where
  "try_catch m caught h =
     (\<lambda>s. case m s of (Inl e, t) \<Rightarrow> (if caught e then h t else (Inl e, t)) | r \<Rightarrow> r)"

fun for_each :: "'a list \<Rightarrow> ('a \<Rightarrow> ('s, unit) eff) \<Rightarrow> ('s, unit) eff" where
  "for_each [] f = ret ()"
| "for_each (x # xs) f = bind (f x) (\<lambda>_. for_each xs f)"

lemma ret_run [simp, eff_simps]: "ret a s = (Inr a, s)"
  by (simp add: ret_def)

lemma throw_run [simp, eff_simps]: "throw e s = (Inl e, s)"
  by (simp add: throw_def)

lemma lift_sum_run [simp, eff_simps]: "lift_sum r s = (r, s)"
  by (simp add: lift_sum_def)

lemma bind_Inr [simp]: "m s = (Inr a, t) \<Longrightarrow> bind m k s = k a t"
  by (simp add: bind_def)

lemma bind_Inl [simp]: "m s = (Inl e, t) \<Longrightarrow> bind m k s = (Inl e, t)"
  by (simp add: bind_def)

lemma bind_run [eff_simps]:
  "bind m k s = (case m s of (Inl e, t) \<Rightarrow> (Inl e, t) | (Inr a, t) \<Rightarrow> k a t)"
  by (simp add: bind_def)

lemma try_catch_Inr [simp]: "m s = (Inr a, t) \<Longrightarrow> try_catch m c h s = (Inr a, t)"
  by (simp add: try_catch_def)

lemma try_catch_Inl [simp]:
  "m s = (Inl e, t) \<Longrightarrow> try_catch m c h s = (if c e then h t else (Inl e, t))"
  by (simp add: try_catch_def)

lemma bind_lift_Inr: "bind (lift_sum (Inr x)) k = k x"
  by (simp add: bind_def fun_eq_iff)

lemma bind_assoc: "bind (bind m k) l = bind m (\<lambda>a. bind (k a) l)"
  by (auto simp: bind_def fun_eq_iff split: prod.splits sum.splits)

subsection \<open>Programs that keep a predicate of the state, whether they return or throw\<close>

definition preserves :: "('s \<Rightarrow> bool) \<Rightarrow> ('s, 'a) eff \<Rightarrow> bool" where
  "preserves P m \<longleftrightarrow> (\<forall>s. P s \<longrightarrow> P (snd (m s)))"

lemma preservesI: "(\<And>s. P s \<Longrightarrow> P (snd (m s))) \<Longrightarrow> preserves P m"
  by (simp add: preserves_def)

lemma preservesD: "preserves P m \<Longrightarrow> P s \<Longrightarrow> P (snd (m s))"
  by (simp add: preserves_def)

lemma preserves_ret [pres_intros]: "preserves P (ret a)"
  by (simp add: preserves_def)

lemma preserves_throw [pres_intros]: "preserves P (throw e)"
  by (simp add: preserves_def)

lemma preserves_lift_sum [pres_intros]: "preserves P (lift_sum r)"
  by (simp add: preserves_def)

lemma preserves_bind [pres_intros]:
  assumes "preserves P m" and "\<And>a. preserves P (k a)"
  shows "preserves P (bind m k)"
proof (rule preservesI)
  fix s assume "P s"
  with assms(1) have "P (snd (m s))" by (rule preservesD)
  with assms(2) show "P (snd (bind m k s))"
    by (cases "m s") (auto simp: bind_def preserves_def split: sum.splits)
qed

lemma preserves_try_catch [pres_intros]:
  assumes "preserves P m" and "preserves P h"
  shows "preserves P (try_catch m c h)"
proof (rule preservesI)
  fix s assume "P s"
  with assms(1) have "P (snd (m s))" by (rule preservesD)
  with assms(2) show "P (snd (try_catch m c h s))"
    by (cases "m s") (auto simp: try_catch_def preserves_def split: sum.splits)
qed

lemma preserves_if [pres_intros]:
  "(b \<Longrightarrow> preserves P m) \<Longrightarrow> (\<not> b \<Longrightarrow> preserves P n) \<Longrightarrow> preserves P (if b then m else n)"
  by simp

lemma preserves_for_each [pres_intros]:
  "(\<And>x. x \<in> set xs \<Longrightarrow> preserves P (f x)) \<Longrightarrow> preserves P (for_each xs f)"
proof (induction xs)
  case Nil
  show ?case unfolding for_each.simps by (rule preserves_ret)
next
  case (Cons x xs)
  then show ?case by (auto intro!: preserves_bind)
qed

section \<open>Calls that leave the process\<close>

text \<open>
  Every call to PostgreSQL, Redis, RabbitMQ or another service may fail: the call may be lost
  before it takes effect or its answer may be lost after it took effect (a timeout). The
  faults of a run are a list in the state, one entry per external call; the empty list means
  that no further call fails.
\<close>

datatype fault = No_Fault | Fail_Before | Fail_After

record svc =
  faults :: "fault list"

definition ext :: "exn \<Rightarrow> ('z svc_scheme, 'a) eff \<Rightarrow> ('z svc_scheme, 'a) eff" where
  "ext e m s =
     (case faults s of
        [] \<Rightarrow> m s
      | f # fs \<Rightarrow>
          (let t = s\<lparr>faults := fs\<rparr> in
           case f of
             No_Fault \<Rightarrow> m t
           | Fail_Before \<Rightarrow> (Inl e, t)
           | Fail_After \<Rightarrow> (Inl e, snd (m t))))"

lemma ext_ok [simp, eff_simps]: "faults s = [] \<Longrightarrow> ext e m s = m s"
  by (simp add: ext_def)

lemma preserves_ext [pres_intros]:
  assumes "preserves P m" and "\<And>s fs. P s \<Longrightarrow> P (s\<lparr>faults := fs\<rparr>)"
  shows "preserves P (ext e m)"
  using assms
  by (auto simp: preserves_def ext_def Let_def split: list.splits fault.splits)

text \<open>Steps on the state itself, as bodies of external calls.\<close>

definition query :: "('s \<Rightarrow> 'a) \<Rightarrow> ('s, 'a) eff" where
  "query f = (\<lambda>s. (Inr (f s), s))"

definition modify :: "('s \<Rightarrow> 's) \<Rightarrow> ('s, unit) eff" where
  "modify f = (\<lambda>s. (Inr (), f s))"

lemma query_run [simp, eff_simps]: "query f s = (Inr (f s), s)"
  by (simp add: query_def)

lemma modify_run [simp, eff_simps]: "modify f s = (Inr (), f s)"
  by (simp add: modify_def)

lemma preserves_query [pres_intros]: "preserves P (query f)"
  by (simp add: preserves_def)

lemma preserves_modify: "(\<And>s. P s \<Longrightarrow> P (f s)) \<Longrightarrow> preserves P (modify f)"
  by (simp add: preserves_def)

section \<open>Fixed-width integers\<close>

text \<open>\<open>int\<close> is 32 bits wide and \<open>long long\<close> 64; overflow of signed arithmetic has no meaning.\<close>

definition in_int32 :: "int \<Rightarrow> bool" where
  "in_int32 i \<longleftrightarrow> - (2 ^ 31) \<le> i \<and> i < 2 ^ 31"

definition in_int64 :: "int \<Rightarrow> bool" where
  "in_int64 i \<longleftrightarrow> - (2 ^ 63) \<le> i \<and> i < 2 ^ 63"

definition int32_result :: "int \<Rightarrow> exn + int" where
  "int32_result i = (if in_int32 i then Inr i else Inl Undefined_Behaviour)"

type_synonym size_t = "64 word"

lemma unat_bound: "unat (w :: 'a::len word) < 2 ^ LENGTH('a)"
  by (rule unsigned_less)

lemma xor_right_cancel: "h XOR u = g XOR u \<longleftrightarrow> h = (g :: 'a::len word)"
  by (metis xor.assoc xor.right_neutral xor_self_eq)

lemma xor_left_cancel: "u XOR h = u XOR g \<longleftrightarrow> h = (g :: 'a::len word)"
  by (metis xor.assoc xor.left_neutral xor_self_eq)

section \<open>Decimal numerals of the standard library\<close>

definition digit_char :: "nat \<Rightarrow> char" where
  "digit_char d = char_of (48 + d)"

definition is_digit :: "char \<Rightarrow> bool" where
  "is_digit c \<longleftrightarrow> 48 \<le> (of_char c :: nat) \<and> (of_char c :: nat) \<le> 57"

definition digit_value :: "char \<Rightarrow> nat" where
  "digit_value c = of_char c - 48"

definition is_space :: "char \<Rightarrow> bool" where
  "is_space c \<longleftrightarrow> (of_char c :: nat) = 32 \<or> (9 \<le> (of_char c :: nat) \<and> (of_char c :: nat) \<le> 13)"

fun show_nat :: "nat \<Rightarrow> string" where
  "show_nat n = (if n < 10 then [digit_char n] else show_nat (n div 10) @ [digit_char (n mod 10)])"

declare show_nat.simps [simp del]

text \<open>\<open>std::to_string\<close>, and what Redis stores for an integer.\<close>

definition show_int :: "int \<Rightarrow> string" where
  "show_int i = (if i < 0 then CHR ''-'' # show_nat (nat (- i)) else show_nat (nat i))"

definition digits_value :: "string \<Rightarrow> nat" where
  "digits_value ds = foldl (\<lambda>a c. 10 * a + digit_value c) 0 ds"

text \<open>
  The conversion behind \<open>std::stoi\<close> and \<open>std::stoll\<close> (\<open>strtol\<close> in base 10): leading
  white space and a sign are skipped, digits are read up to the first other character, and
  what follows is ignored; no digit means no conversion.
\<close>

definition strtol10 :: "string \<Rightarrow> int option" where
  "strtol10 s =
     (let t = dropWhile is_space s;
          (neg, u) = (case t of
                        [] \<Rightarrow> (False, [])
                      | c # r \<Rightarrow> if c = CHR ''-'' then (True, r)
                                else if c = CHR ''+'' then (False, r) else (False, t));
          ds = takeWhile is_digit u
      in if ds = [] then None
         else Some (if neg then - int (digits_value ds) else int (digits_value ds)))"

definition stoi :: "string \<Rightarrow> exn + int" where
  "stoi s = (case strtol10 s of
               None \<Rightarrow> Inl InvalidArgument
             | Some v \<Rightarrow> if in_int32 v then Inr v else Inl OutOfRange)"

definition stoll :: "string \<Rightarrow> exn + int" where
  "stoll s = (case strtol10 s of
                None \<Rightarrow> Inl InvalidArgument
              | Some v \<Rightarrow> if in_int64 v then Inr v else Inl OutOfRange)"

lemma of_char_less_256: "(of_char c :: nat) < 256"
proof -
  have "(of_char c :: nat) mod 256 < 256" by (rule mod_less_divisor) simp
  then show ?thesis by (simp only: of_char_mod_256)
qed

lemma of_char_digit [simp]: "d < 10 \<Longrightarrow> (of_char (digit_char d) :: nat) = 48 + d"
  by (simp add: digit_char_def)

lemma is_digit_digit [simp]: "d < 10 \<Longrightarrow> is_digit (digit_char d)"
  by (simp add: is_digit_def)

lemma digit_value_digit [simp]: "d < 10 \<Longrightarrow> digit_value (digit_char d) = d"
  by (simp add: digit_value_def)

lemma show_nat_nonempty [simp]: "show_nat n \<noteq> []"
  by (subst show_nat.simps) simp

lemma show_nat_digits: "c \<in> set (show_nat n) \<Longrightarrow> is_digit c"
proof (induction n rule: show_nat.induct)
  case (1 n)
  show ?case
  proof (cases "n < 10")
    case True
    with "1.prems" show ?thesis by (simp add: show_nat.simps [of n])
  next
    case False
    with 1 show ?thesis by (auto simp: show_nat.simps [of n])
  qed
qed

lemma digits_value_snoc [simp]: "digits_value (ds @ [c]) = 10 * digits_value ds + digit_value c"
  by (simp add: digits_value_def)

lemma digits_value_show_nat [simp]: "digits_value (show_nat n) = n"
proof (induction n rule: show_nat.induct)
  case (1 n)
  show ?case
  proof (cases "n < 10")
    case True
    then show ?thesis by (simp add: show_nat.simps [of n] digits_value_def)
  next
    case False
    with 1 show ?thesis by (simp add: show_nat.simps [of n])
  qed
qed

lemma takeWhile_show_nat [simp]: "takeWhile is_digit (show_nat n) = show_nat n"
  by (simp add: takeWhile_eq_all_conv show_nat_digits)

lemma digit_no_space: "is_digit c \<Longrightarrow> \<not> is_space c"
  by (auto simp: is_digit_def is_space_def)

lemma digit_no_sign: "is_digit c \<Longrightarrow> c \<noteq> CHR ''-'' \<and> c \<noteq> CHR ''+''"
  by (auto simp: is_digit_def)

lemma show_nat_Cons: obtains c r where "show_nat n = c # r" and "is_digit c"
proof -
  obtain c r where "show_nat n = c # r"
    using show_nat_nonempty [of n] by (cases "show_nat n") auto
  moreover from this have "is_digit c"
    by (intro show_nat_digits [of c n]) simp
  ultimately show ?thesis by (rule that)
qed

lemma strtol10_show_int [simp]: "strtol10 (show_int i) = Some i"
proof (cases "i < 0")
  case True
  have "\<not> is_space (CHR ''-'')" by (simp add: is_space_def)
  with True show ?thesis by (simp add: show_int_def strtol10_def)
next
  case False
  obtain c r where cr: "show_nat (nat i) = c # r" "is_digit c"
    by (rule show_nat_Cons)
  have "strtol10 (show_nat (nat i)) = Some (int (digits_value (takeWhile is_digit (show_nat (nat i)))))"
    using cr digit_no_space [OF cr(2)] digit_no_sign [OF cr(2)]
    by (simp add: strtol10_def Let_def del: takeWhile_show_nat)
  with False show ?thesis by (simp add: show_int_def)
qed

lemma stoll_show_int [simp]: "in_int64 i \<Longrightarrow> stoll (show_int i) = Inr i"
  by (simp add: stoll_def)

lemma stoi_show_int [simp]: "in_int32 i \<Longrightarrow> stoi (show_int i) = Inr i"
  by (simp add: stoi_def)

lemma stoi_in_int32: "stoi s = Inr v \<Longrightarrow> in_int32 v"
  by (auto simp: stoi_def split: option.splits if_splits)

lemma show_int_inject [simp]: "show_int i = show_int j \<longleftrightarrow> i = j"
  by (metis option.inject strtol10_show_int)

text \<open>The decimal numeral of a number below \<open>10 ^ k\<close> has at most \<open>k\<close> digits.\<close>

lemma length_show_nat: "n < 10 ^ k \<Longrightarrow> 0 < k \<Longrightarrow> length (show_nat n) \<le> k"
proof (induction k arbitrary: n)
  case 0
  then show ?case by simp
next
  case (Suc k)
  show ?case
  proof (cases "n < 10")
    case True
    then show ?thesis by (simp add: show_nat.simps [of n])
  next
    case False
    with Suc.prems have "0 < k" by (cases k) auto
    moreover from Suc.prems have "n div 10 < 10 ^ k" by (simp add: less_mult_imp_div_less mult.commute)
    ultimately have "length (show_nat (n div 10)) \<le> k" using Suc.IH by blast
    with False show ?thesis by (simp add: show_nat.simps [of n])
  qed
qed

section \<open>Hexadecimal digits\<close>

definition hex_char :: "nat \<Rightarrow> char" where
  "hex_char d = (if d < 10 then char_of (48 + d) else char_of (87 + d))"

definition hex_value :: "char \<Rightarrow> nat" where
  "hex_value c = (if is_digit c then of_char c - 48 else of_char c - 87)"

lemma of_char_hex_char [simp]:
  "d < 16 \<Longrightarrow> (of_char (hex_char d) :: nat) = (if d < 10 then 48 + d else 87 + d)"
  by (simp add: hex_char_def)

lemma hex_value_hex_char [simp]: "d < 16 \<Longrightarrow> hex_value (hex_char d) = d"
  by (auto simp: hex_value_def is_digit_def)

section \<open>Rows with a key\<close>

text \<open>A key selects at most one row.\<close>

lemma filter_key_find:
  assumes "distinct (map k xs)"
  shows "filter (\<lambda>x. k x = i) xs = (case find (\<lambda>x. k x = i) xs of None \<Rightarrow> [] | Some x \<Rightarrow> [x])"
  using assms
proof (induction xs)
  case Nil
  then show ?case by simp
next
  case (Cons y ys)
  show ?case
  proof (cases "k y = i")
    case True
    with Cons.prems have "filter (\<lambda>x. k x = i) ys = []"
      by (force simp: filter_empty_conv image_iff)
    with True show ?thesis by simp
  next
    case False
    with Cons show ?thesis by auto
  qed
qed

lemma find_key_Some: "find (\<lambda>x. k x = i) xs = Some x \<Longrightarrow> x \<in> set xs \<and> k x = i"
  by (auto simp: find_Some_iff)

lemma find_key_None: "find (\<lambda>x. k x = i) xs = None \<longleftrightarrow> i \<notin> k ` set xs"
  by (auto simp: find_None_iff)

end
