(* ===== verification/Services.thy ===== *)
theory Services
  imports Prelude
begin

text \<open>
  The interfaces to code outside the repository. The code calls boost (UUID text
  conversion), userver's JSON library, cjson inside Redis functions, and the Redis server; each
  is a record of functions passed to the definitions that use it, and a locale states the
  documented behaviour the code relies on. \<open>Reference_Services\<close> gives a concrete instance
  of each.
\<close>

section \<open>UUIDs\<close>

text \<open>
  \<open>boost::uuids::uuid\<close> is sixteen bytes; read as one big-endian number they are a 128-bit
  word, and the library's lexicographic \<open><\<close> on the bytes is the order of that number
  (\<open>uuid_less_bytes\<close> in the theory of the dialog utilities).
\<close>

datatype uuid = Uuid (uuid_bits: "128 word")

instantiation uuid :: linorder
begin

definition less_eq_uuid :: "uuid \<Rightarrow> uuid \<Rightarrow> bool" where
  "less_eq_uuid u v \<longleftrightarrow> uuid_bits u \<le> uuid_bits v"

definition less_uuid :: "uuid \<Rightarrow> uuid \<Rightarrow> bool" where
  "less_uuid u v \<longleftrightarrow> uuid_bits u < uuid_bits v"

instance
  by standard (auto simp: less_eq_uuid_def less_uuid_def uuid.expand)

end

section \<open>JSON values\<close>

text \<open>A JSON value as the code sees it through \<open>formats::json::Value\<close>.\<close>

datatype json =
    JNull
  | JBool bool
  | JInt int
  | JString string
  | JArray "json list"
  | JObject "(string \<times> json) list"

text \<open>\<open>json[name]\<close> followed by \<open>As<std::string>()\<close>: a missing member and a value of another type throw.\<close>

definition field_string :: "json \<Rightarrow> string \<Rightarrow> exn + string" where
  "field_string j name =
     (case j of
        JObject fs \<Rightarrow>
          (case map_of fs name of
             None \<Rightarrow> Inl JsonMemberMissing
           | Some (JString s) \<Rightarrow> Inr s
           | Some _ \<Rightarrow> Inl JsonTypeMismatch)
      | _ \<Rightarrow> Inl JsonTypeMismatch)"

text \<open>
  The body of a JSON request is the object's members; \<open>HasMember\<close> asks whether a member
  is present.
\<close>

type_synonym json_body = "(string \<times> json) list"

definition has_member :: "json_body \<Rightarrow> string \<Rightarrow> bool" where
  "has_member b name \<longleftrightarrow> map_of b name \<noteq> None"

definition flat_object :: "(string \<times> json) list \<Rightarrow> bool" where
  "flat_object fs \<longleftrightarrow>
     distinct (map fst fs) \<and> list_all (\<lambda>(k, v). case v of JString _ \<Rightarrow> True | JBool _ \<Rightarrow> True | _ \<Rightarrow> False) fs"

section \<open>The libraries\<close>

record lib =
  to_str :: "uuid \<Rightarrow> string"          \<comment> \<open>\<open>boost::uuids::to_string\<close>\<close>
  gen :: "string \<Rightarrow> uuid option"      \<comment> \<open>\<open>boost::uuids::string_generator\<close>, \<open>None\<close> when it throws\<close>
  json_dump :: "json \<Rightarrow> string"       \<comment> \<open>\<open>formats::json::ToString\<close>\<close>
  json_load :: "string \<Rightarrow> json option"  \<comment> \<open>\<open>formats::json::FromString\<close>, \<open>None\<close> when it throws\<close>
  cjson_encode :: "json \<Rightarrow> string"    \<comment> \<open>\<open>cjson.encode\<close>\<close>

definition is_uuid_char :: "char \<Rightarrow> bool" where
  "is_uuid_char c \<longleftrightarrow> is_digit c \<or> (97 \<le> (of_char c :: nat) \<and> (of_char c :: nat) \<le> 102) \<or> c = CHR ''-''"

text \<open>
  The documented behaviour the code relies on: the text of a UUID is 36 lower-case hexadecimal
  digits and dashes and reads back; a printed flat object parses to an object with the same
  members, in any order.
\<close>

locale library =
  fixes L :: lib
  assumes gen_to_str: "gen L (to_str L u) = Some u"
    and to_str_length: "length (to_str L u) = 36"
    and to_str_chars: "c \<in> set (to_str L u) \<Longrightarrow> is_uuid_char c"
    and json_round: "flat_object fs \<Longrightarrow>
      \<exists>gs. json_load L (json_dump L (JObject fs)) = Some (JObject gs) \<and> map_of gs = map_of fs"
    and cjson_round: "flat_object fs \<Longrightarrow>
      \<exists>gs. json_load L (cjson_encode L (JObject fs)) = Some (JObject gs) \<and> map_of gs = map_of fs"
begin

lemma to_str_inject: "to_str L u = to_str L v \<longleftrightarrow> u = v"
  by (metis gen_to_str option.inject)

lemma to_str_no_colon: "CHR '':'' \<notin> set (to_str L u)"
  using to_str_chars [of "CHR '':''" u] by (auto simp: is_uuid_char_def is_digit_def)

end

text \<open>
  \<open>string_generator()(s)\<close>: the parsed UUID or \<open>std::runtime_error\<close>.
\<close>

definition string_generator :: "lib \<Rightarrow> string \<Rightarrow> exn + uuid" where
  "string_generator L s = (case gen L s of None \<Rightarrow> Inl RuntimeError | Some u \<Rightarrow> Inr u)"

definition json_from_string :: "lib \<Rightarrow> string \<Rightarrow> exn + json" where
  "json_from_string L s = (case json_load L s of None \<Rightarrow> Inl JsonParseError | Some j \<Rightarrow> Inr j)"

lemma field_string_cong:
  "map_of gs = map_of fs \<Longrightarrow> field_string (JObject gs) n = field_string (JObject fs) n"
  by (simp add: field_string_def)

section \<open>Redis\<close>

text \<open>
  The commands the code issues. \<open>r_lrange\<close> to \<open>r_scan\<close> carry the names of the
  commands; a command returns its reply or the new server state.
\<close>

datatype rtype = TNone | TList | THash

record 'r redis =
  r_type :: "'r \<Rightarrow> string \<Rightarrow> rtype"
  r_exists :: "'r \<Rightarrow> string \<Rightarrow> int"
  r_lrange :: "'r \<Rightarrow> string \<Rightarrow> int \<Rightarrow> int \<Rightarrow> string list"
  r_rpush :: "'r \<Rightarrow> string \<Rightarrow> string list \<Rightarrow> 'r"
  r_lpush :: "'r \<Rightarrow> string \<Rightarrow> string \<Rightarrow> 'r"
  r_ltrim :: "'r \<Rightarrow> string \<Rightarrow> int \<Rightarrow> int \<Rightarrow> 'r"
  r_del :: "'r \<Rightarrow> string list \<Rightarrow> 'r"
  r_hset :: "'r \<Rightarrow> string \<Rightarrow> (string \<times> string) list \<Rightarrow> 'r"
  r_hget :: "'r \<Rightarrow> string \<Rightarrow> string \<Rightarrow> string option"
  r_hgetall :: "'r \<Rightarrow> string \<Rightarrow> string list"
  r_hincrby :: "'r \<Rightarrow> string \<Rightarrow> string \<Rightarrow> int \<Rightarrow> (exn + int) \<times> 'r"

text \<open>
  Index ranges as LRANGE and LTRIM document them: both ends inclusive, negative indices count
  from the end, ranges are clipped to the list.
\<close>

definition redis_slice :: "'a list \<Rightarrow> int \<Rightarrow> int \<Rightarrow> 'a list" where
  "redis_slice xs a b =
     (let n = int (length xs);
          i = max 0 (if a < 0 then n + a else a);
          j = min (n - 1) (if b < 0 then n + b else b)
      in if i > j then [] else take (nat (j - i + 1)) (drop (nat i) xs))"

lemma redis_slice_full [simp]: "redis_slice xs 0 (- 1) = xs"
  by (auto simp: redis_slice_def Let_def)

lemma redis_slice_nonneg:
  assumes "0 \<le> a" and "0 \<le> b"
  shows "redis_slice xs a b = take (nat (b - a + 1)) (drop (nat a) xs)"
proof (cases "a \<le> b \<and> a < int (length xs)")
  case True
  then have le: "a \<le> min (int (length xs) - 1) b" by simp
  have "take (nat (min (int (length xs) - 1) b - a + 1)) (drop (nat a) xs)
      = take (nat (b - a + 1)) (drop (nat a) xs)"
  proof (cases "b \<le> int (length xs) - 1")
    case True
    then show ?thesis by (simp add: min_def)
  next
    case False
    with \<open>0 \<le> a\<close> have "length (drop (nat a) xs) \<le> nat (b - a + 1)"
      and "length (drop (nat a) xs) \<le> nat (min (int (length xs) - 1) b - a + 1)"
      by auto
    then show ?thesis by simp
  qed
  moreover from le have "\<not> min (int (length xs) - 1) b < a" by linarith
  ultimately show ?thesis using assms by (simp add: redis_slice_def)
next
  case False
  with assms show ?thesis by (auto simp: redis_slice_def Let_def)
qed

lemma redis_slice_prefix: "redis_slice xs 0 (int n - 1) = take n xs" if "0 < n"
  using that by (simp add: redis_slice_nonneg)

lemma set_redis_slice: "x \<in> set (redis_slice xs a b) \<Longrightarrow> x \<in> set xs"
  by (auto simp: redis_slice_def Let_def split: if_splits dest: in_set_takeD in_set_dropD)

lemma redis_slice_map: "redis_slice (map f xs) a b = map f (redis_slice xs a b)"
  by (simp add: redis_slice_def Let_def take_map drop_map)

text \<open>What a key holds: its list (all of it) and, for a hash, its fields.\<close>

definition r_list :: "'r redis \<Rightarrow> 'r \<Rightarrow> string \<Rightarrow> string list" where
  "r_list R s k = r_lrange R s k 0 (- 1)"

definition key_same :: "'r redis \<Rightarrow> 'r \<Rightarrow> 'r \<Rightarrow> string \<Rightarrow> bool" where
  "key_same R s t k \<longleftrightarrow>
     r_type R t k = r_type R s k \<and> r_list R t k = r_list R s k \<and> r_hget R t k = r_hget R s k"

lemma key_sameD:
  assumes "key_same R s t k"
  shows "r_type R t k = r_type R s k" and "r_list R t k = r_list R s k"
    and "r_hget R t k = r_hget R s k"
  using assms by (simp_all add: key_same_def)

text \<open>Flattening of a hash as HGETALL returns it: field, value, field, value.\<close>

definition flat_pairs :: "('a \<times> 'a) list \<Rightarrow> 'a list" where
  "flat_pairs ps = concat (map (\<lambda>(f, v). [f, v]) ps)"

lemma flat_pairs_simps [simp]:
  "flat_pairs [] = []"
  "flat_pairs ((f, v) # ps) = f # v # flat_pairs ps"
  by (simp_all add: flat_pairs_def)

text \<open>The commands of a key that holds a list.\<close>

locale redis_lists =
  fixes R :: "'r redis"
  assumes exists_type: "r_exists R s k = (if r_type R s k = TNone then 0 else 1)"
    and none_list: "r_type R s k = TNone \<Longrightarrow> r_list R s k = []"
    and list_nonempty: "r_type R s k = TList \<Longrightarrow> r_list R s k \<noteq> []"
    and lrange: "r_type R s k \<noteq> THash \<Longrightarrow> r_lrange R s k a b = redis_slice (r_list R s k) a b"
    and rpush: "r_type R s k \<noteq> THash \<Longrightarrow> vs \<noteq> [] \<Longrightarrow>
      r_type R (r_rpush R s k vs) k = TList \<and> r_list R (r_rpush R s k vs) k = r_list R s k @ vs"
    and rpush_frame: "k' \<noteq> k \<Longrightarrow> key_same R s (r_rpush R s k vs) k'"
    and lpush: "r_type R s k \<noteq> THash \<Longrightarrow>
      r_type R (r_lpush R s k v) k = TList \<and> r_list R (r_lpush R s k v) k = v # r_list R s k"
    and lpush_frame: "k' \<noteq> k \<Longrightarrow> key_same R s (r_lpush R s k v) k'"
    and ltrim: "r_type R s k \<noteq> THash \<Longrightarrow>
      r_list R (r_ltrim R s k a b) k = redis_slice (r_list R s k) a b \<and>
      r_type R (r_ltrim R s k a b) k = (if redis_slice (r_list R s k) a b = [] then TNone else TList)"
    and ltrim_frame: "k' \<noteq> k \<Longrightarrow> key_same R s (r_ltrim R s k a b) k'"
    and del: "k \<in> set ks \<Longrightarrow> r_type R (r_del R s ks) k = TNone"
    and del_frame: "k \<notin> set ks \<Longrightarrow> key_same R s (r_del R s ks) k"
begin

lemma exists_pos: "0 < r_exists R s k \<longleftrightarrow> r_type R s k \<noteq> TNone"
  by (simp add: exists_type)

lemma list_type_iff:
  "r_type R s k \<noteq> THash \<Longrightarrow> r_type R s k = TList \<longleftrightarrow> r_list R s k \<noteq> []"
  using none_list [of s k] list_nonempty [of s k] by (cases "r_type R s k") auto

lemma del_list: "k \<in> set ks \<Longrightarrow> r_list R (r_del R s ks) k = []"
  by (simp add: del none_list)

end

text \<open>The commands of a key that holds a hash, beside those of lists.\<close>

locale redis_server = redis_lists +
  assumes none_hget: "r_type R s k = TNone \<Longrightarrow> r_hget R s k f = None"
    and hset: "r_type R s k \<noteq> TList \<Longrightarrow> fvs \<noteq> [] \<Longrightarrow>
      r_type R (r_hset R s k fvs) k = THash \<and> r_hget R (r_hset R s k fvs) k = r_hget R s k ++ map_of (rev fvs)"
    and hset_frame: "k' \<noteq> k \<Longrightarrow> key_same R s (r_hset R s k fvs) k'"
    and hgetall: "r_type R s k \<noteq> TList \<Longrightarrow>
      \<exists>ps. r_hgetall R s k = flat_pairs ps \<and> distinct (map fst ps) \<and> map_of ps = r_hget R s k"
    and hincrby: "r_type R s k \<noteq> TList \<Longrightarrow>
      (r_hget R s k f = None \<and> v = 0 \<or> r_hget R s k f = Some (show_int v)) \<Longrightarrow>
      in_int64 v \<Longrightarrow> in_int64 (v + d) \<Longrightarrow>
      fst (r_hincrby R s k f d) = Inr (v + d) \<and>
      r_type R (snd (r_hincrby R s k f d)) k = THash \<and>
      r_hget R (snd (r_hincrby R s k f d)) k = (r_hget R s k)(f \<mapsto> show_int (v + d))"
    and hincrby_frame: "k' \<noteq> k \<Longrightarrow> key_same R s (snd (r_hincrby R s k f d)) k'"

end
