(* ===== verification/Reference_Services.thy ===== *)
theory Reference_Services
  imports Services "HOL-Library.AList"
begin

text \<open>
  A concrete instance of each external interface: UUID text in the canonical 8-4-4-4-12 form, a
  printer and a parser of flat JSON objects, and an in-memory Redis keyspace. The component
  theories never unfold them; they show that the interface laws are satisfiable and serve as the
  environment of the concrete runs.
\<close>

section \<open>UUID text\<close>

fun fixed_hex :: "nat \<Rightarrow> nat \<Rightarrow> string" where
  "fixed_hex 0 n = []"
| "fixed_hex (Suc k) n = fixed_hex k (n div 16) @ [hex_char (n mod 16)]"

definition hex_number :: "string \<Rightarrow> nat" where
  "hex_number s = foldl (\<lambda>a c. 16 * a + hex_value c) 0 s"

lemma length_fixed_hex [simp]: "length (fixed_hex k n) = k"
  by (induction k arbitrary: n) auto

lemma hex_number_snoc: "hex_number (s @ [c]) = 16 * hex_number s + hex_value c"
  by (simp add: hex_number_def)

lemma hex_number_fixed_hex: "n < 16 ^ k \<Longrightarrow> hex_number (fixed_hex k n) = n"
proof (induction k arbitrary: n)
  case 0
  then show ?case by (simp add: hex_number_def)
next
  case (Suc k)
  then have "n div 16 < 16 ^ k" by (simp add: less_mult_imp_div_less mult.commute)
  with Suc.IH show ?case by (simp add: hex_number_snoc)
qed

lemma set_fixed_hex: "c \<in> set (fixed_hex k n) \<Longrightarrow> \<exists>d<16. c = hex_char d"
proof (induction k arbitrary: n)
  case 0
  then show ?case by simp
next
  case (Suc k)
  from Suc.prems consider "c \<in> set (fixed_hex k (n div 16))" | "c = hex_char (n mod 16)" by auto
  then show ?case
  proof cases
    case 1
    then show ?thesis by (rule Suc.IH)
  next
    case 2
    moreover have "n mod 16 < 16" by simp
    ultimately show ?thesis by blast
  qed
qed

lemma hex_char_uuid_char: "d < 16 \<Longrightarrow> is_uuid_char (hex_char d)"
  by (auto simp: is_uuid_char_def is_digit_def)

lemma hex_char_no_dash: "d < 16 \<Longrightarrow> hex_char d \<noteq> CHR ''-''"
  by (auto dest!: arg_cong [where f = "of_char :: char \<Rightarrow> nat"] split: if_splits)

definition dashed :: "string \<Rightarrow> string" where
  "dashed s = take 8 s @ CHR ''-'' # take 4 (drop 8 s) @ CHR ''-'' # take 4 (drop 12 s)
     @ CHR ''-'' # take 4 (drop 16 s) @ CHR ''-'' # drop 20 s"

definition ref_to_str :: "uuid \<Rightarrow> string" where
  "ref_to_str u = dashed (fixed_hex 32 (unat (uuid_bits u)))"

definition ref_gen :: "string \<Rightarrow> uuid option" where
  "ref_gen s =
     (let h = filter (\<lambda>c. c \<noteq> CHR ''-'') s
      in if length s = 36 \<and> length h = 32 \<and> list_all is_uuid_char h
         then Some (Uuid (of_nat (hex_number h))) else None)"

lemma filter_dashed:
  assumes "\<And>c. c \<in> set s \<Longrightarrow> c \<noteq> CHR ''-''"
  shows "filter (\<lambda>c. c \<noteq> CHR ''-'') (dashed s) = s"
proof -
  have keep: "filter (\<lambda>c. c \<noteq> CHR ''-'') t = t" if "set t \<subseteq> set s" for t
    using assms that by (auto simp: filter_id_conv)
  have sub: "set (take a (drop b s)) \<subseteq> set s" "set (take a s) \<subseteq> set s" "set (drop b s) \<subseteq> set s" for a b
    by (auto dest: in_set_takeD in_set_dropD)
  have "filter (\<lambda>c. c \<noteq> CHR ''-'') (dashed s)
      = take 8 s @ take 4 (drop 8 s) @ take 4 (drop 12 s) @ take 4 (drop 16 s) @ drop 20 s"
    by (simp add: dashed_def keep sub)
  also have "\<dots> = take 8 s @ take 4 (drop 8 s) @ take 4 (drop 12 s) @ drop 16 s"
    using append_take_drop_id [of 4 "drop 16 s"] by (simp add: drop_drop)
  also have "\<dots> = take 8 s @ take 4 (drop 8 s) @ drop 12 s"
    using append_take_drop_id [of 4 "drop 12 s"] by (simp add: drop_drop)
  also have "\<dots> = take 8 s @ drop 8 s"
    using append_take_drop_id [of 4 "drop 8 s"] by (simp add: drop_drop)
  finally show ?thesis by simp
qed

lemma fixed_hex_no_dash: "c \<in> set (fixed_hex k n) \<Longrightarrow> c \<noteq> CHR ''-''"
  by (drule set_fixed_hex) (auto dest: hex_char_no_dash)

lemma fixed_hex_uuid_char: "c \<in> set (fixed_hex k n) \<Longrightarrow> is_uuid_char c"
  by (drule set_fixed_hex) (auto intro: hex_char_uuid_char)

lemma ref_to_str_length: "length (ref_to_str u) = 36"
  by (simp add: ref_to_str_def dashed_def)

lemma set_dashed: "c \<in> set (dashed s) \<Longrightarrow> c = CHR ''-'' \<or> c \<in> set s"
  by (auto simp: dashed_def dest: in_set_takeD in_set_dropD)

lemma ref_to_str_chars: "c \<in> set (ref_to_str u) \<Longrightarrow> is_uuid_char c"
  by (auto simp: ref_to_str_def is_uuid_char_def [of "CHR ''-''"] dest!: set_dashed intro: fixed_hex_uuid_char)

lemma ref_gen_to_str: "ref_gen (ref_to_str u) = Some u"
proof -
  let ?h = "fixed_hex 32 (unat (uuid_bits u))"
  have "filter (\<lambda>c. c \<noteq> CHR ''-'') (ref_to_str u) = ?h"
    unfolding ref_to_str_def by (rule filter_dashed) (rule fixed_hex_no_dash)
  moreover have "list_all is_uuid_char ?h"
    by (simp add: list_all_iff fixed_hex_uuid_char)
  moreover have "hex_number ?h = unat (uuid_bits u)"
    using unsigned_less [of "uuid_bits u"] by (intro hex_number_fixed_hex) simp
  ultimately show ?thesis
    by (simp add: ref_gen_def Let_def ref_to_str_length)
qed

section \<open>Flat JSON objects\<close>

text \<open>Strings escape the quote (34) and the backslash (92).\<close>

fun esc :: "string \<Rightarrow> string" where
  "esc [] = [char_of (34::nat)]"
| "esc (c # cs) = (if of_char c = (34::nat) \<or> of_char c = (92::nat)
                   then char_of (92::nat) # c # esc cs else c # esc cs)"

fun unesc :: "string \<Rightarrow> (string \<times> string) option" where
  "unesc [] = None"
| "unesc (c # cs) =
     (if of_char c = (34::nat) then Some ([], cs)
      else if of_char c = (92::nat)
      then (case cs of [] \<Rightarrow> None | d # ds \<Rightarrow> map_option (\<lambda>(s, r). (d # s, r)) (unesc ds))
      else map_option (\<lambda>(s, r). (c # s, r)) (unesc cs))"

lemma unesc_esc [simp]: "unesc (esc s @ r) = Some (s, r)"
  by (induction s) auto

fun json_value :: "json \<Rightarrow> string" where
  "json_value (JString s) = char_of (34::nat) # esc s"
| "json_value (JBool b) = (if b then ''t'' else ''f'')"
| "json_value _ = ''n''"

fun parse_value :: "string \<Rightarrow> (json \<times> string) option" where
  "parse_value [] = None"
| "parse_value (c # cs) =
     (if of_char c = (34::nat) then map_option (\<lambda>(s, r). (JString s, r)) (unesc cs)
      else if c = CHR ''t'' then Some (JBool True, cs)
      else if c = CHR ''f'' then Some (JBool False, cs)
      else None)"

fun json_members :: "(string \<times> json) list \<Rightarrow> string" where
  "json_members [] = ''}''"
| "json_members ((k, v) # fs) = CHR '','' # esc k @ CHR '':'' # json_value v @ json_members fs"

fun parse_members :: "nat \<Rightarrow> string \<Rightarrow> ((string \<times> json) list) option" where
  "parse_members 0 s = None"
| "parse_members (Suc n) [] = None"
| "parse_members (Suc n) (c # cs) =
     (if c = CHR ''}'' then Some []
      else case unesc cs of
             Some (k, d # r) \<Rightarrow>
               (case parse_value r of
                  None \<Rightarrow> None
                | Some (v, t) \<Rightarrow> map_option ((#) (k, v)) (parse_members n t))
           | _ \<Rightarrow> None)"

fun ref_json_dump :: "json \<Rightarrow> string" where
  "ref_json_dump (JObject fs) = CHR ''{'' # json_members fs"
| "ref_json_dump j = json_value j"

fun ref_json_load :: "string \<Rightarrow> json option" where
  "ref_json_load [] = None"
| "ref_json_load (c # cs) =
     (if c = CHR ''{'' then map_option JObject (parse_members (Suc (length cs)) cs)
      else map_option fst (parse_value (c # cs)))"

definition scalar :: "json \<Rightarrow> bool" where
  "scalar v = (case v of JString _ \<Rightarrow> True | JBool _ \<Rightarrow> True | _ \<Rightarrow> False)"

lemma flat_object_scalar: "flat_object fs \<longleftrightarrow> distinct (map fst fs) \<and> (\<forall>(k, v) \<in> set fs. scalar v)"
  by (auto simp: flat_object_def scalar_def list_all_iff split: json.splits)

lemma parse_value_value: "scalar v \<Longrightarrow> parse_value (json_value v @ r) = Some (v, r)"
  by (cases v) (auto simp: scalar_def)

lemma parse_members_members:
  "(\<forall>(k, v) \<in> set fs. scalar v) \<Longrightarrow> length fs < n \<Longrightarrow> parse_members n (json_members fs) = Some fs"
proof (induction fs arbitrary: n)
  case Nil
  then show ?case by (cases n) auto
next
  case (Cons kv fs)
  obtain k v where kv: "kv = (k, v)" by (cases kv)
  from Cons.prems obtain m where n: "n = Suc m" "length fs < m" by (cases n) auto
  from Cons.prems kv have v: "scalar v" and fs: "\<forall>(k, v) \<in> set fs. scalar v" by auto
  from Cons.IH [OF fs n(2)] show ?case
    by (simp add: kv n(1) parse_value_value [OF v])
qed

lemma length_json_members: "length fs < length (json_members fs)"
  by (induction fs rule: json_members.induct) auto

lemma ref_json_round: "flat_object fs \<Longrightarrow> ref_json_load (ref_json_dump (JObject fs)) = Some (JObject fs)"
  using parse_members_members [of fs "Suc (length (json_members fs))"] length_json_members [of fs]
  by (auto simp: flat_object_scalar)

definition ref_lib :: lib where
  "ref_lib = \<lparr>to_str = ref_to_str, gen = ref_gen, json_dump = ref_json_dump,
              json_load = ref_json_load, cjson_encode = ref_json_dump\<rparr>"

interpretation ref_library: library ref_lib
  by unfold_locales
    (auto simp: ref_lib_def ref_gen_to_str ref_to_str_length ref_json_round
          simp del: ref_json_load.simps ref_json_dump.simps intro: ref_to_str_chars)

lemmas ref_library_axioms = ref_library.library_axioms

section \<open>A keyspace in memory\<close>

datatype ref_value = Absent | ListV "string list" | HashV "(string \<times> string) list"

type_synonym keyspace = "string \<Rightarrow> ref_value"

definition empty_keyspace :: keyspace where
  "empty_keyspace = (\<lambda>_. Absent)"

fun value_type :: "ref_value \<Rightarrow> rtype" where
  "value_type Absent = TNone"
| "value_type (ListV xs) = (if xs = [] then TNone else TList)"
| "value_type (HashV fs) = (if fs = [] then TNone else THash)"

fun value_list :: "ref_value \<Rightarrow> string list" where
  "value_list (ListV xs) = xs"
| "value_list _ = []"

fun value_hash :: "ref_value \<Rightarrow> (string \<times> string) list" where
  "value_hash (HashV fs) = fs"
| "value_hash _ = []"

definition hash_int :: "string option \<Rightarrow> int option" where
  "hash_int v = (case v of None \<Rightarrow> Some 0 | Some s \<Rightarrow> strtol10 s)"

definition ref_hset :: "keyspace \<Rightarrow> string \<Rightarrow> (string \<times> string) list \<Rightarrow> keyspace" where
  "ref_hset s k fvs = s(k := HashV (rev fvs @ value_hash (s k)))"

definition ref_hincrby :: "keyspace \<Rightarrow> string \<Rightarrow> string \<Rightarrow> int \<Rightarrow> (exn + int) \<times> keyspace" where
  "ref_hincrby s k f d =
     (case hash_int (map_of (value_hash (s k)) f) of
        Some v \<Rightarrow> if in_int64 (v + d) then (Inr (v + d), ref_hset s k [(f, show_int (v + d))])
                  else (Inl (ServiceError ''ERR increment or decrement would overflow''), s)
      | None \<Rightarrow> (Inl (ServiceError ''ERR hash value is not an integer''), s))"

definition ref_redis :: "keyspace redis" where
  "ref_redis = \<lparr>
     r_type = (\<lambda>s k. value_type (s k)),
     r_exists = (\<lambda>s k. if value_type (s k) = TNone then 0 else 1),
     r_lrange = (\<lambda>s k a b. redis_slice (value_list (s k)) a b),
     r_rpush = (\<lambda>s k vs. s(k := ListV (value_list (s k) @ vs))),
     r_lpush = (\<lambda>s k v. s(k := ListV (v # value_list (s k)))),
     r_ltrim = (\<lambda>s k a b. s(k := ListV (redis_slice (value_list (s k)) a b))),
     r_del = (\<lambda>s ks k. if k \<in> set ks then Absent else s k),
     r_hset = ref_hset,
     r_hget = (\<lambda>s k. map_of (value_hash (s k))),
     r_hgetall = (\<lambda>s k. flat_pairs (AList.clearjunk (value_hash (s k)))),
     r_hincrby = ref_hincrby\<rparr>"

lemma ref_hash_not_list: "value_type v \<noteq> TList \<Longrightarrow> value_list v = []"
  by (cases v) (auto split: if_splits)

lemma ref_lists_axioms: "redis_lists ref_redis"
proof
  fix s :: keyspace and k
  show "r_exists ref_redis s k = (if r_type ref_redis s k = TNone then 0 else 1)"
    by (simp add: ref_redis_def)
  show "r_type ref_redis s k = TNone \<Longrightarrow> r_list ref_redis s k = []"
    by (cases "s k") (auto simp: ref_redis_def r_list_def split: if_splits)
  show "r_type ref_redis s k = TList \<Longrightarrow> r_list ref_redis s k \<noteq> []"
    by (cases "s k") (auto simp: ref_redis_def r_list_def split: if_splits)
qed (auto simp: ref_redis_def r_list_def key_same_def)

interpretation ref_server: redis_server ref_redis
proof (intro redis_server.intro redis_server_axioms.intro)
  fix s :: keyspace and k f :: string and fvs :: "(string \<times> string) list"
  show "redis_lists ref_redis" by (rule ref_lists_axioms)
  show "r_type ref_redis s k = TNone \<Longrightarrow> r_hget ref_redis s k f = None"
    by (cases "s k") (auto simp: ref_redis_def split: if_splits)
  show "\<exists>ps. r_hgetall ref_redis s k = flat_pairs ps \<and> distinct (map fst ps) \<and> map_of ps = r_hget ref_redis s k"
    by (rule exI [of _ "AList.clearjunk (value_hash (s k))"])
      (simp add: ref_redis_def distinct_clearjunk map_of_clearjunk)
qed (auto simp: ref_redis_def key_same_def r_list_def ref_hset_def ref_hincrby_def hash_int_def
       map_add_def fun_eq_iff split: option.splits)

lemmas ref_server_axioms = ref_server.redis_server_axioms

end
