(* ===== verification/Password_Hasher.thy ===== *)
theory Password_Hasher
  imports Prelude
begin

text \<open>
  \<open>src/user/password_hasher.cpp\<close>: salted password hashes, their hexadecimal form in the
  users table and the comparison at login. \<open>std::hash\<close> is unspecified by the standard, so
  the two hash functions are a parameter; the random engine behind the salt is the sequence of
  numbers it draws.
\<close>

section \<open>The slow hash\<close>

record std_hash =
  hash_string :: "string \<Rightarrow> size_t"
  hash_size :: "size_t \<Rightarrow> size_t"

text \<open>The loop body: hash, mix in the hashed counter, write the mix in decimal.\<close>

definition slow_hash_round :: "std_hash \<Rightarrow> nat \<Rightarrow> string \<Rightarrow> string" where
  "slow_hash_round H i hash =
     (let h1 = hash_string H hash;
          h2 = hash_size H (of_nat i);
          combined = h1 XOR push_bit 1 h2
      in show_nat (unat combined))"

fun slow_hash_loop :: "std_hash \<Rightarrow> nat \<Rightarrow> nat \<Rightarrow> string \<Rightarrow> string" where
  "slow_hash_loop H i 0 hash = hash"
| "slow_hash_loop H i (Suc n) hash = slow_hash_loop H (Suc i) n (slow_hash_round H i hash)"

definition SlowHash :: "std_hash \<Rightarrow> string \<Rightarrow> nat \<Rightarrow> string" where
  "SlowHash H input iterations = slow_hash_loop H 0 iterations input"

definition default_iterations :: nat where
  "default_iterations = 10000"

section \<open>Salt, hashing and verification\<close>

definition salt_length :: nat where
  "salt_length = 16"

fun salt_loop :: "(nat \<Rightarrow> nat) \<Rightarrow> nat \<Rightarrow> nat \<Rightarrow> string \<Rightarrow> string" where
  "salt_loop dist i 0 salt = salt"
| "salt_loop dist i (Suc n) salt = salt_loop dist (Suc i) n (salt @ [char_of (dist i)])"

definition GenerateSalt :: "(nat \<Rightarrow> nat) \<Rightarrow> nat \<Rightarrow> string" where
  "GenerateSalt dist len = salt_loop dist 0 len []"

definition byte :: "char \<Rightarrow> 8 word" where
  "byte c = of_char c"

text \<open>
  The comparison accumulates the differences of all bytes in a \<open>char\<close> instead of stopping
  at the first one.
\<close>

definition ConstantTimeCompare :: "string \<Rightarrow> string \<Rightarrow> bool" where
  "ConstantTimeCompare a b =
     (if length a \<noteq> length b then False
      else foldl (\<lambda>result i. result OR (byte (a ! i) XOR byte (b ! i))) 0 [0..<length a] = 0)"

definition HashPassword :: "std_hash \<Rightarrow> (nat \<Rightarrow> nat) \<Rightarrow> string \<Rightarrow> nat \<Rightarrow> string \<times> string" where
  "HashPassword H dist password iterations =
     (let salt = GenerateSalt dist salt_length;
          combined = password @ salt;
          hash = SlowHash H combined iterations
      in (salt, hash))"

definition VerifyPassword :: "std_hash \<Rightarrow> string \<Rightarrow> string \<Rightarrow> string \<Rightarrow> nat \<Rightarrow> bool" where
  "VerifyPassword H password salt expected_hash iterations =
     (let combined = password @ salt;
          actual_hash = SlowHash H combined iterations
      in ConstantTimeCompare actual_hash expected_hash)"

section \<open>Hexadecimal text\<close>

fun show_hex :: "nat \<Rightarrow> string" where
  "show_hex n = (if n < 16 then [hex_char n] else show_hex (n div 16) @ [hex_char (n mod 16)])"

declare show_hex.simps [simp del]

text \<open>\<open>setw(2)\<close> with \<open>setfill('0')\<close>: shorter output is padded on the left, longer output is kept.\<close>

definition setw2 :: "string \<Rightarrow> string" where
  "setw2 s = replicate (2 - length s) (CHR ''0'') @ s"

fun ToHex :: "string \<Rightarrow> string" where
  "ToHex [] = []"
| "ToHex (c # data) = setw2 (show_hex (of_char c)) @ ToHex data"

text \<open>
  \<open>ss >> byteValue\<close> in hexadecimal, on what the stream still holds: white space is skipped
  (an empty rest leaves \<open>byteValue\<close> uninitialised), then a sign, then \<open>0x\<close>, then the
  digits up to the first other character. Without a digit the value is 0; a number outside
  \<open>int\<close> is clipped. The second component is what stays in the stream.
\<close>

definition is_hex_digit :: "char \<Rightarrow> bool" where
  "is_hex_digit c \<longleftrightarrow> is_digit c \<or> (97 \<le> (of_char c :: nat) \<and> (of_char c :: nat) \<le> 102)
     \<or> (65 \<le> (of_char c :: nat) \<and> (of_char c :: nat) \<le> 70)"

definition hex_digit_value :: "char \<Rightarrow> nat" where
  "hex_digit_value c =
     (if is_digit c then of_char c - 48
      else if 97 \<le> (of_char c :: nat) then of_char c - 87 else of_char c - 55)"

definition clip_int32 :: "int \<Rightarrow> int" where
  "clip_int32 v = max (- (2 ^ 31)) (min (2 ^ 31 - 1) v)"

definition skip_0x :: "string \<Rightarrow> string" where
  "skip_0x u = (case u of
                  z # x # r \<Rightarrow> if z = CHR ''0'' \<and> (x = CHR ''x'' \<or> x = CHR ''X'') then r else u
                | _ \<Rightarrow> u)"

definition extract_hex :: "string \<Rightarrow> exn + int \<times> string" where
  "extract_hex buffer =
     (case dropWhile is_space buffer of
        [] \<Rightarrow> Inl Undefined_Behaviour
      | c # r \<Rightarrow>
          (let (neg, u) = (if c = CHR ''-'' then (True, r)
                           else if c = CHR ''+'' then (False, r) else (False, c # r));
               digits = takeWhile is_hex_digit (skip_0x u);
               v = int (foldl (\<lambda>a d. 16 * a + hex_digit_value d) 0 digits)
           in Inr (clip_int32 (if neg then - v else v), dropWhile is_hex_digit (skip_0x u))))"

definition char_cast :: "int \<Rightarrow> char" where
  "char_cast v = char_of (nat (v mod 256))"

fun from_hex_loop :: "string \<Rightarrow> string \<Rightarrow> exn + string" where
  "from_hex_loop buffer [] = Inr []"
| "from_hex_loop buffer [c] =
     sum_bind (extract_hex (buffer @ [c])) (\<lambda>(v, _). Inr [char_cast v])"
| "from_hex_loop buffer (c # d # hex) =
     sum_bind (extract_hex (buffer @ [c, d])) (\<lambda>(v, rest).
     sum_bind (from_hex_loop rest hex) (\<lambda>result. Inr (char_cast v # result)))"

definition FromHex :: "string \<Rightarrow> exn + string" where
  "FromHex hex = (if length hex mod 2 \<noteq> 0 then Inl InvalidArgument else from_hex_loop [] hex)"

section \<open>Salt and hash\<close>

lemma length_salt_loop [simp]: "length (salt_loop dist i n salt) = length salt + n"
  by (induction n arbitrary: i salt) auto

lemma length_GenerateSalt [simp]: "length (GenerateSalt dist n) = n"
  by (simp add: GenerateSalt_def)

lemma SlowHash_0 [simp]: "SlowHash H input 0 = input"
  by (simp add: SlowHash_def)

lemma slow_hash_round_digits:
  "c \<in> set (slow_hash_round H i h) \<Longrightarrow> is_digit c"
  by (auto simp: slow_hash_round_def Let_def intro: show_nat_digits)

lemma slow_hash_round_length: "length (slow_hash_round H i h) \<le> 20"
proof -
  let ?w = "hash_string H h XOR push_bit 1 (hash_size H (of_nat i))"
  have "unat ?w < 2 ^ 64" using unsigned_less [of ?w] by (simp only: len_num0 len_num1 len_bit0 len_bit1) simp
  then have "unat ?w < 10 ^ 20" by (rule less_le_trans) simp
  then have "length (show_nat (unat ?w)) \<le> 20" by (rule length_show_nat) simp
  then show ?thesis by (simp add: slow_hash_round_def Let_def)
qed

lemma slow_hash_loop_last: "0 < n \<Longrightarrow> \<exists>j h. slow_hash_loop H i n input = slow_hash_round H j h"
proof (induction n arbitrary: i input)
  case 0
  then show ?case by simp
next
  case (Suc n)
  then show ?case by (cases n) auto
qed

text \<open>
  After at least one iteration the hash is the decimal numeral of one machine word: at most
  twenty digits, whatever the password and the salt.
\<close>

lemma slow_hash_is_numeral:
  assumes "0 < iterations"
  shows "length (SlowHash H input iterations) \<le> 20 \<and> (\<forall>c \<in> set (SlowHash H input iterations). is_digit c)"
proof -
  obtain j h where "SlowHash H input iterations = slow_hash_round H j h"
    unfolding SlowHash_def using slow_hash_loop_last [OF assms] by blast
  then show ?thesis using slow_hash_round_length slow_hash_round_digits by auto
qed

lemma slow_hash_is_numeral_witness:
  "length (SlowHash \<lparr>hash_string = (\<lambda>_. 7), hash_size = id\<rparr> ''secret'' 3) \<le> 20"
  using slow_hash_is_numeral [of 3] by simp

section \<open>Comparison\<close>

lemma unat_byte: "unat (byte c) = of_char c"
proof -
  have "byte c = word_of_nat (of_char c)" unfolding byte_def by (rule of_nat_of_char [symmetric])
  moreover have "(of_char c :: nat) < 256" by (rule of_char_less_256)
  ultimately show ?thesis by (simp add: unat_of_nat)
qed

lemma byte_inject [simp]: "byte c = byte d \<longleftrightarrow> c = d"
  by (metis unat_byte of_char_eq_iff)

lemma xor_zero_iff: "a XOR b = (0 :: 8 word) \<longleftrightarrow> a = b"
  by (auto simp: bit_eq_iff bit_simps)

lemma or_zero_iff: "a OR b = (0 :: 8 word) \<longleftrightarrow> a = 0 \<and> b = 0"
  by (auto simp: bit_eq_iff bit_simps)

lemma foldl_or_zero:
  "foldl (\<lambda>r i. r OR f i) (x :: 8 word) is = 0 \<longleftrightarrow> x = 0 \<and> (\<forall>i \<in> set is. f i = 0)"
  by (induction "is" arbitrary: x) (auto simp: or_zero_iff)

lemma ConstantTimeCompare_iff: "ConstantTimeCompare a b \<longleftrightarrow> a = b"
proof (cases "length a = length b")
  case False
  then show ?thesis by (auto simp: ConstantTimeCompare_def)
next
  case True
  then show ?thesis
    by (auto simp: ConstantTimeCompare_def foldl_or_zero xor_zero_iff intro: nth_equalityI)
qed

text \<open>The constant-time comparison decides equality.\<close>

lemma constant_time_compare_eq: "ConstantTimeCompare a b \<longleftrightarrow> a = b"
  by (rule ConstantTimeCompare_iff)

section \<open>Hexadecimal text\<close>

lemma char_0: "CHR ''0'' = char_of (48 :: nat)"
  by (rule of_char_eqI [where 'a = nat]) simp

lemma setw2_show_hex: "n < 256 \<Longrightarrow> setw2 (show_hex n) = [hex_char (n div 16), hex_char (n mod 16)]"
  by (auto simp: setw2_def show_hex.simps [of n] show_hex.simps [of "n div 16"] hex_char_def char_0)

lemma ToHex_Cons:
  "ToHex (c # data) = hex_char (of_char c div 16) # hex_char (of_char c mod 16) # ToHex data"
  using setw2_show_hex [of "of_char c"] of_char_less_256 [of c] by simp

lemma hex_char_facts:
  assumes "d < 16"
  shows "is_hex_digit (hex_char d)" and "\<not> is_space (hex_char d)"
    and "hex_char d \<noteq> CHR ''-''" and "hex_char d \<noteq> CHR ''+''"
    and "hex_char d \<noteq> CHR ''x''" and "hex_char d \<noteq> CHR ''X''"
    and "hex_digit_value (hex_char d) = d"
  using assms
  by (auto simp: is_hex_digit_def is_digit_def is_space_def hex_digit_value_def
      dest!: arg_cong [where f = "of_char :: char \<Rightarrow> nat"] split: if_splits)

lemma extract_hex_pair:
  assumes "a < 16" and "b < 16"
  shows "extract_hex [hex_char a, hex_char b] = Inr (int (16 * a + b), [])"
  using assms hex_char_facts [OF assms(1)] hex_char_facts [OF assms(2)]
  by (simp add: extract_hex_def skip_0x_def clip_int32_def)

lemma char_cast_of_char: "char_cast (int (of_char c)) = c"
  using of_char_less_256 [of c] by (simp add: char_cast_def)

lemma from_hex_loop_ToHex: "from_hex_loop [] (ToHex data) = Inr data"
proof (induction data)
  case Nil
  show ?case by simp
next
  case (Cons c data)
  have "of_char c div 16 < (16 :: nat)" "of_char c mod 16 < (16 :: nat)"
    using of_char_less_256 [of c] by (auto simp: less_mult_imp_div_less)
  then have "extract_hex [hex_char (of_char c div 16), hex_char (of_char c mod 16)]
      = Inr (int (of_char c), [])"
    by (simp only: extract_hex_pair mult_div_mod_eq)
  with Cons.IH show ?case
    by (simp only: ToHex_Cons from_hex_loop.simps append_Nil sum_bind_simps prod.case char_cast_of_char)
qed

lemma length_ToHex [simp]: "length (ToHex data) = 2 * length data"
  by (induction data) (simp_all only: ToHex_Cons, simp_all)

lemma FromHex_ToHex [simp]: "FromHex (ToHex data) = Inr data"
  by (simp add: FromHex_def from_hex_loop_ToHex)

text \<open>
  Hexadecimal text reads back: decoding what \<open>ToHex\<close> wrote returns the bytes, for every
  byte string.
\<close>

lemma from_hex_to_hex: "FromHex (ToHex data) = Inr data"
  by (rule FromHex_ToHex)

lemma FromHex_odd: "odd (length s) \<Longrightarrow> FromHex s = Inl InvalidArgument"
  by (simp add: FromHex_def odd_iff_mod_2_eq_one)

lemma from_hex_loop_length:
  "even (length hex) \<Longrightarrow> from_hex_loop buffer hex = Inr r \<Longrightarrow> length hex = 2 * length r"
  by (induction buffer hex arbitrary: r rule: from_hex_loop.induct)
    (auto simp: sum_bind_eq_Inr split: prod.splits)

text \<open>
  Whatever the input, decoding throws on an odd length, and otherwise a result it returns
  has one byte per two characters.
\<close>

lemma from_hex_length:
  "FromHex s = Inr r \<Longrightarrow> even (length s) \<and> length r = length s div 2"
  by (auto simp: FromHex_def even_iff_mod_2_eq_zero dest: from_hex_loop_length split: if_splits)

lemma from_hex_length_witness: "even (length ''0aff'') \<and> length (''ab'') = length ''0aff'' div 2"
proof -
  have "ToHex [char_of (10::nat), char_of (255::nat)] = ''0aff''"
    by code_simp
  then have "FromHex ''0aff'' = Inr [char_of (10::nat), char_of (255::nat)]"
    using FromHex_ToHex [of "[char_of (10::nat), char_of (255::nat)]"] by simp
  from from_hex_length [OF this] show ?thesis by simp
qed

section \<open>Verification\<close>

lemma VerifyPassword_iff:
  "VerifyPassword H password salt expected n \<longleftrightarrow> SlowHash H (password @ salt) n = expected"
  by (simp add: VerifyPassword_def Let_def ConstantTimeCompare_iff)

lemma HashPassword_parts:
  "HashPassword H dist password n =
     (GenerateSalt dist salt_length, SlowHash H (password @ GenerateSalt dist salt_length) n)"
  by (simp add: HashPassword_def Let_def)

text \<open>
  C34. Registration and login agree: the salt and the hash that registration computes, written
  to the table in hexadecimal and decoded at login, accept the password they were made from and
  exactly the passwords with the same slow hash.
\<close>

theorem stored_password_verifies:
  "\<exists>salt hash. HashPassword H dist password n = (salt, hash)
     \<and> FromHex (ToHex salt) = Inr salt \<and> FromHex (ToHex hash) = Inr hash
     \<and> VerifyPassword H password salt hash n
     \<and> (\<forall>other. VerifyPassword H other salt hash n
            \<longleftrightarrow> SlowHash H (other @ salt) n = SlowHash H (password @ salt) n)"
  by (simp add: HashPassword_parts VerifyPassword_iff)

end
