(* ===== verification/Dialog_Utils.thy ===== *)
theory Dialog_Utils
  imports Services
begin

text \<open>
  \<open>src/dialog/dialog_utils.hpp\<close> and its copy in chat-service: the FNV-1a hash of a UUID and the
  virtual bucket of a dialog. \<open>size_t\<close> and \<open>uint64_t\<close> are 64-bit words.
\<close>

section \<open>Definitions\<close>

text \<open>The bytes of a UUID, first byte first (\<open>uuid.data\<close>).\<close>

fun be_bytes :: "nat \<Rightarrow> nat \<Rightarrow> 8 word list" where
  "be_bytes 0 n = []"
| "be_bytes (Suc k) n = be_bytes k (n div 256) @ [of_nat (n mod 256)]"

definition uuid_data :: "uuid \<Rightarrow> 8 word list" where
  "uuid_data u = be_bytes 16 (unat (uuid_bits u))"

definition kBucketCount :: size_t where
  "kBucketCount = 1024"

definition MinUuid :: "uuid \<Rightarrow> uuid \<Rightarrow> uuid" where
  "MinUuid u1 u2 = (if u1 < u2 then u1 else u2)"

definition kFnvOffsetBasis :: "64 word" where
  "kFnvOffsetBasis = 14695981039346656037"

definition kFnvPrime :: "64 word" where
  "kFnvPrime = 1099511628211"

definition fnv_step :: "64 word \<Rightarrow> 8 word \<Rightarrow> 64 word" where
  "fnv_step hash byte = (hash XOR ucast byte) * kFnvPrime"

definition FnvHash :: "uuid \<Rightarrow> size_t" where
  "FnvHash u = foldl fnv_step kFnvOffsetBasis (uuid_data u)"

definition GetVirtualBucket :: "uuid \<Rightarrow> uuid \<Rightarrow> int" where
  "GetVirtualBucket user1 user2 =
     (let key = MinUuid user1 user2 in uint (FnvHash key mod kBucketCount))"

text \<open>
  The copy in chat-service with its loop as a recursion: both processes put a dialog into the same bucket.
\<close>

definition chat_kBucketCount :: size_t where
  "chat_kBucketCount = 1024"

definition chat_MinUuid :: "uuid \<Rightarrow> uuid \<Rightarrow> uuid" where
  "chat_MinUuid u1 u2 = (if u1 < u2 then u1 else u2)"

fun chat_fnv_loop :: "64 word \<Rightarrow> 8 word list \<Rightarrow> 64 word" where
  "chat_fnv_loop hash [] = hash"
| "chat_fnv_loop hash (byte # bytes) = chat_fnv_loop ((hash XOR ucast byte) * 1099511628211) bytes"

definition chat_FnvHash :: "uuid \<Rightarrow> size_t" where
  "chat_FnvHash u = chat_fnv_loop 14695981039346656037 (uuid_data u)"

definition chat_GetVirtualBucket :: "uuid \<Rightarrow> uuid \<Rightarrow> int" where
  "chat_GetVirtualBucket user1 user2 =
     (let key = chat_MinUuid user1 user2 in uint (chat_FnvHash key mod chat_kBucketCount))"

lemma chat_fnv_loop_foldl: "chat_fnv_loop h bs = foldl fnv_step h bs"
  by (induction bs arbitrary: h) (simp_all add: fnv_step_def kFnvPrime_def)

lemma services_agree_on_buckets: "chat_GetVirtualBucket u v = GetVirtualBucket u v"
  by (simp add: chat_GetVirtualBucket_def GetVirtualBucket_def chat_MinUuid_def MinUuid_def chat_FnvHash_def FnvHash_def
      chat_fnv_loop_foldl kFnvOffsetBasis_def chat_kBucketCount_def kBucketCount_def)

section \<open>The order of UUIDs is the order of their bytes\<close>

definition be_number :: "8 word list \<Rightarrow> nat" where
  "be_number bs = foldl (\<lambda>a b. 256 * a + unat b) 0 bs"

lemma be_number_snoc [simp]: "be_number (bs @ [b]) = 256 * be_number bs + unat b"
  by (simp add: be_number_def)

lemma length_be_bytes [simp]: "length (be_bytes k n) = k"
  by (induction k arbitrary: n) auto

lemma be_number_bytes: "n < 256 ^ k \<Longrightarrow> be_number (be_bytes k n) = n"
proof (induction k arbitrary: n)
  case 0
  then show ?case by (simp add: be_number_def)
next
  case (Suc k)
  then have "n div 256 < 256 ^ k" by (simp add: less_mult_imp_div_less mult.commute)
  moreover have "unat (of_nat (n mod 256) :: 8 word) = n mod 256" by (simp add: unat_of_nat)
  ultimately show ?case using Suc.IH by simp
qed

lemma be_number_data: "be_number (uuid_data u) = unat (uuid_bits u)"
  unfolding uuid_data_def
  using unsigned_less [of "uuid_bits u"] by (intro be_number_bytes) simp

lemma uuid_data_inject: "uuid_data u = uuid_data v \<longleftrightarrow> u = v"
  by (metis be_number_data unsigned_word_eqI uuid.expand)

lemma length_uuid_data [simp]: "length (uuid_data u) = 16"
  by (simp add: uuid_data_def)

lemma be_number_acc:
  "foldl (\<lambda>a b. 256 * a + unat b) x bs = 256 ^ length bs * x + be_number bs"
proof (induction bs rule: rev_induct)
  case Nil
  then show ?case by (simp add: be_number_def)
next
  case (snoc b bs)
  then show ?case by (simp add: algebra_simps)
qed

lemma be_number_Cons: "be_number (b # bs) = 256 ^ length bs * unat b + be_number bs"
  using be_number_acc [of "unat b" bs] by (simp add: be_number_def)

lemma be_number_bound: "be_number bs < 256 ^ length bs"
proof (induction bs)
  case Nil
  then show ?case by (simp add: be_number_def)
next
  case (Cons b bs)
  have "unat b + 1 \<le> 256" using unat_bound [of b] by simp
  then have "256 ^ length bs * (unat b + 1) \<le> 256 ^ length bs * (256 :: nat)"
    by (intro mult_le_mono) auto
  moreover have "be_number (b # bs) < 256 ^ length bs * (unat b + 1)"
    using Cons.IH by (simp add: be_number_Cons algebra_simps)
  ultimately have "be_number (b # bs) < 256 ^ length bs * 256" by (rule less_le_trans [rotated])
  then show ?case by (simp add: mult.commute)
qed

lemma be_number_less_iff:
  "length bs = length cs \<Longrightarrow> be_number bs < be_number cs \<longleftrightarrow> ord_class.lexordp bs cs"
proof (induction bs cs rule: list_induct2)
  case Nil
  then show ?case by simp
next
  case (Cons b bs c cs)
  let ?m = "256 ^ length bs :: nat"
  have bound: "be_number bs < ?m" "be_number cs < ?m"
    using be_number_bound [of bs] be_number_bound [of cs] Cons.hyps by auto
  have step: "?m * x + be_number y < ?m * z + be_number w"
    if "x < z" "be_number y < ?m" for x z :: nat and y w
  proof -
    from that(1) have "?m * (x + 1) \<le> ?m * z" by (intro mult_le_mono) auto
    with that(2) show ?thesis by (simp add: algebra_simps)
  qed
  consider "b < c" | "b = c" | "c < b" by fastforce
  then show ?case
  proof cases
    case 1
    then have "unat b < unat c" by (simp add: word_less_nat_alt)
    with step bound(1) 1 Cons.hyps show ?thesis by (simp add: be_number_Cons)
  next
    case 2
    with Cons show ?thesis by (simp add: be_number_Cons)
  next
    case 3
    then have "unat c < unat b" by (simp add: word_less_nat_alt)
    from step [OF this bound(2), of bs] have "\<not> be_number (b # bs) < be_number (c # cs)"
      using Cons.hyps by (simp add: be_number_Cons)
    with 3 show ?thesis by auto
  qed
qed

lemma uuid_less_bytes: "u < v \<longleftrightarrow> ord_class.lexordp (uuid_data u) (uuid_data v)"
  using be_number_less_iff [of "uuid_data u" "uuid_data v"]
  by (simp add: be_number_data less_uuid_def word_less_nat_alt)

section \<open>Buckets\<close>

lemma MinUuid_min: "MinUuid u v = min u v"
  by (auto simp: MinUuid_def min_def)

lemma MinUuid_bytes:
  "MinUuid u v = (if ord_class.lexordp (uuid_data u) (uuid_data v) then u else v)"
  by (simp add: MinUuid_def uuid_less_bytes)

text \<open>
  The bucket of a dialog does not depend on who is named first, is a valid bucket number, and
  is the bucket of the participant whose UUID bytes come first.
\<close>

lemma virtual_bucket_symmetric:
  "GetVirtualBucket u v = GetVirtualBucket v u
   \<and> 0 \<le> GetVirtualBucket u v \<and> GetVirtualBucket u v < 1024
   \<and> GetVirtualBucket u v = uint (FnvHash (if ord_class.lexordp (uuid_data u) (uuid_data v) then u else v)) mod 1024"
proof -
  have "GetVirtualBucket u v = uint (FnvHash (MinUuid u v)) mod 1024" for u v
    by (simp add: GetVirtualBucket_def kBucketCount_def uint_mod)
  then show ?thesis
    by (simp add: MinUuid_min min.commute flip: MinUuid_bytes)
qed

section \<open>The hash\<close>

text \<open>Multiplying by the FNV prime is a bijection of the 64-bit words: it is odd.\<close>

lemma fnv_prime_inverse: "kFnvPrime * 14886173955864302971 = (1 :: 64 word)"
  by (simp add: kFnvPrime_def)

lemma fnv_step_inject: "fnv_step h b = fnv_step g c \<longleftrightarrow> h XOR ucast b = g XOR ucast c"
proof
  assume "fnv_step h b = fnv_step g c"
  then have "(h XOR ucast b) * (kFnvPrime * 14886173955864302971)
           = (g XOR ucast c) * (kFnvPrime * 14886173955864302971)"
    by (simp add: fnv_step_def flip: mult.assoc)
  then show "h XOR ucast b = g XOR ucast c" by (simp add: fnv_prime_inverse)
qed (simp add: fnv_step_def)

lemma ucast_back: "ucast (ucast b :: 64 word) = (b :: 8 word)"
  by (rule ucast_up_ucast_id) (simp add: is_up_def source_size target_size)

lemma ucast_byte_inject: "(ucast b :: 64 word) = ucast c \<longleftrightarrow> b = (c :: 8 word)"
  by (metis ucast_back)

lemma fnv_same_byte: "fnv_step h b = fnv_step g b \<longleftrightarrow> h = g"
  by (simp add: fnv_step_inject xor_right_cancel)

lemma fnv_same_hash: "fnv_step h b = fnv_step h c \<longleftrightarrow> b = c"
  by (simp add: fnv_step_inject xor_left_cancel ucast_byte_inject)

lemma foldl_fnv_inject: "foldl fnv_step h bs = foldl fnv_step g bs \<longleftrightarrow> h = g"
  by (induction bs arbitrary: h g) (auto simp: fnv_same_byte)

text \<open>
  Two UUIDs that differ in exactly one byte never share a 64-bit hash.
\<close>

lemma fnv_one_byte_apart:
  assumes "uuid_data u = p @ b # q" and "uuid_data v = p @ c # q" and "u \<noteq> v"
  shows "FnvHash u \<noteq> FnvHash v"
proof -
  have "b \<noteq> c" using assms uuid_data_inject [of u v] by auto
  then show ?thesis
    by (simp add: FnvHash_def assms(1,2) foldl_fnv_inject fnv_same_hash)
qed

lemma fnv_one_byte_apart_witness:
  "FnvHash (Uuid 1) \<noteq> FnvHash (Uuid 2)"
proof -
  have "uuid_data (Uuid 1) = replicate 15 0 @ 1 # []" "uuid_data (Uuid 2) = replicate 15 0 @ 2 # []"
    by (code_simp, code_simp)
  then show ?thesis by (rule fnv_one_byte_apart) simp
qed

end
