(* ===== verification/Database.thy ===== *)
theory Database
  imports Services
begin

text \<open>
  The tables of \<open>postgresql/schemas/db_1.sql\<close> and every SQL statement the monolith sends, one
  definition per statement. A statement runs on a database and returns its rows or a constraint
  violation. \<open>gen_random_uuid()\<close> and \<open>NOW()\<close> are arguments; the order of the rows of a query
  without ORDER BY, and of rows that ORDER BY leaves equal, is chosen by a planner (a parameter).
\<close>

section \<open>Tables\<close>

record user_row =
  ur_id :: uuid
  ur_first_name :: string
  ur_second_name :: string
  ur_birthdate :: int
  ur_sex :: string
  ur_biography :: string
  ur_city :: string
  ur_password_hash :: string
  ur_salt :: string

record friendship_row =
  fr_user :: uuid
  fr_friend :: uuid
  fr_created :: int

record post_row =
  po_id :: uuid
  po_author :: uuid
  po_text :: string
  po_created :: int

record token_row =
  tk_token :: string
  tk_user :: uuid
  tk_scopes :: "string list"
  tk_updated :: int

record db =
  users :: "user_row list"
  friendships :: "friendship_row list"
  posts :: "post_row list"
  tokens :: "token_row list"

definition empty_db :: db where
  "empty_db = \<lparr>users = [], friendships = [], posts = [], tokens = []\<rparr>"

abbreviation user_ids :: "db \<Rightarrow> uuid set" where
  "user_ids d \<equiv> set (map ur_id (users d))"

text \<open>Primary and foreign keys.\<close>

definition db_ok :: "db \<Rightarrow> bool" where
  "db_ok d \<longleftrightarrow>
     distinct (map ur_id (users d)) \<and>
     distinct (map (\<lambda>f. (fr_user f, fr_friend f)) (friendships d)) \<and>
     distinct (map po_id (posts d)) \<and>
     distinct (map tk_token (tokens d)) \<and>
     (\<forall>f \<in> set (friendships d). fr_user f \<in> user_ids d \<and> fr_friend f \<in> user_ids d) \<and>
     (\<forall>p \<in> set (posts d). po_author p \<in> user_ids d)"

section \<open>The planner\<close>

record planner =
  plan_posts :: "post_row list \<Rightarrow> post_row list"
  plan_uuids :: "uuid list \<Rightarrow> uuid list"

text \<open>A query returns its rows, each as often as it occurs, in some order.\<close>

locale planning =
  fixes P :: planner
  assumes plan_posts_mset: "mset (plan_posts P ps) = mset ps"
    and plan_uuids_mset: "mset (plan_uuids P us) = mset us"
begin

lemma set_plan_posts [simp]: "set (plan_posts P ps) = set ps"
  by (metis plan_posts_mset set_mset_mset)

lemma set_plan_uuids [simp]: "set (plan_uuids P us) = set us"
  by (metis plan_uuids_mset set_mset_mset)

lemma length_plan_posts [simp]: "length (plan_posts P ps) = length ps"
  by (metis plan_posts_mset size_mset)

end

definition ref_planner :: planner where
  "ref_planner = \<lparr>plan_posts = rev, plan_uuids = id\<rparr>"

interpretation ref_planning: planning ref_planner
  by unfold_locales (simp_all add: ref_planner_def)

lemmas ref_planning_axioms = ref_planning.planning_axioms

section \<open>Statements on friendships\<close>

definition sql_insert_friendship :: "uuid \<Rightarrow> uuid \<Rightarrow> int \<Rightarrow> (db, unit) eff" where
  "sql_insert_friendship user_id friend_id now d =
     (if \<exists>f \<in> set (friendships d). fr_user f = user_id \<and> fr_friend f = friend_id then (Inr (), d)
      else if user_id \<in> user_ids d \<and> friend_id \<in> user_ids d
      then (Inr (), d\<lparr>friendships := friendships d @
              [\<lparr>fr_user = user_id, fr_friend = friend_id, fr_created = now\<rparr>]\<rparr>)
      else (Inl ConstraintViolation, d))"

definition sql_delete_friendship :: "uuid \<Rightarrow> uuid \<Rightarrow> (db, unit) eff" where
  "sql_delete_friendship user_id friend_id d =
     (Inr (), d\<lparr>friendships := filter (\<lambda>f. \<not> (fr_user f = user_id \<and> fr_friend f = friend_id)) (friendships d)\<rparr>)"

definition sql_followers :: "planner \<Rightarrow> uuid \<Rightarrow> db \<Rightarrow> uuid list" where
  "sql_followers P author_id d =
     plan_uuids P (map fr_user (filter (\<lambda>f. fr_friend f = author_id) (friendships d)))"

section \<open>Statements on posts\<close>

definition sql_insert_post :: "uuid \<Rightarrow> int \<Rightarrow> uuid \<Rightarrow> string \<Rightarrow> (db, uuid) eff" where
  "sql_insert_post new_id now author_id text d =
     (if author_id \<in> user_ids d \<and> new_id \<notin> set (map po_id (posts d))
      then (Inr new_id, d\<lparr>posts := posts d @
              [\<lparr>po_id = new_id, po_author = author_id, po_text = text, po_created = now\<rparr>]\<rparr>)
      else (Inl ConstraintViolation, d))"

definition sql_delete_post :: "uuid \<Rightarrow> (db, uuid list) eff" where
  "sql_delete_post post_id d =
     (Inr (map po_author (filter (\<lambda>p. po_id p = post_id) (posts d))),
      d\<lparr>posts := filter (\<lambda>p. po_id p \<noteq> post_id) (posts d)\<rparr>)"

definition sql_update_post :: "uuid \<Rightarrow> string \<Rightarrow> (db, uuid list) eff" where
  "sql_update_post post_id text d =
     (Inr (map po_author (filter (\<lambda>p. po_id p = post_id) (posts d))),
      d\<lparr>posts := map (\<lambda>p. if po_id p = post_id then p\<lparr>po_text := text\<rparr> else p) (posts d)\<rparr>)"

definition sql_select_post :: "uuid \<Rightarrow> db \<Rightarrow> post_row list" where
  "sql_select_post post_id d = filter (\<lambda>p. po_id p = post_id) (posts d)"

text \<open>
  The feed query: the posts joined with the friendships of \<open>user_id\<close> whose friend wrote them,
  newest first, the first thousand.
\<close>

definition feed_rows :: "uuid \<Rightarrow> db \<Rightarrow> post_row list" where
  "feed_rows user_id d =
     concat (map (\<lambda>p. map (\<lambda>f. p) (filter (\<lambda>f. fr_friend f = po_author p \<and> fr_user f = user_id) (friendships d)))
       (posts d))"

definition sql_feed :: "planner \<Rightarrow> uuid \<Rightarrow> db \<Rightarrow> post_row list" where
  "sql_feed P user_id d = take 1000 (sort_key (\<lambda>p. - po_created p) (plan_posts P (feed_rows user_id d)))"

section \<open>Statements on users and tokens\<close>

definition sql_insert_user :: "user_row \<Rightarrow> (db, uuid) eff" where
  "sql_insert_user u d =
     (if ur_id u \<in> user_ids d then (Inl ConstraintViolation, d)
      else (Inr (ur_id u), d\<lparr>users := users d @ [u]\<rparr>))"

definition sql_select_user :: "uuid \<Rightarrow> db \<Rightarrow> user_row list" where
  "sql_select_user user_id d = filter (\<lambda>u. ur_id u = user_id) (users d)"

definition sql_select_credentials :: "uuid \<Rightarrow> db \<Rightarrow> (string \<times> string) list" where
  "sql_select_credentials user_id d =
     map (\<lambda>u. (ur_password_hash u, ur_salt u)) (filter (\<lambda>u. ur_id u = user_id) (users d))"

text \<open>LIKE: \<open>%\<close> (37) matches any text, \<open>_\<close> (95) one character, a backslash (92) quotes the next character.\<close>

fun like :: "string \<Rightarrow> string \<Rightarrow> bool" where
  "like [] s = (s = [])"
| "like (c # p) s =
     (if c = CHR ''%'' then like p s \<or> (case s of [] \<Rightarrow> False | _ # t \<Rightarrow> like (c # p) t)
      else if c = CHR ''_'' then (case s of [] \<Rightarrow> False | _ # t \<Rightarrow> like p t)
      else if of_char c = (92 :: nat)
      then (case p of [] \<Rightarrow> False | q # p' \<Rightarrow> (case s of [] \<Rightarrow> False | d # t \<Rightarrow> d = q \<and> like p' t))
      else (case s of [] \<Rightarrow> False | d # t \<Rightarrow> d = c \<and> like p t))"

definition sql_search_users :: "string \<Rightarrow> string \<Rightarrow> db \<Rightarrow> user_row list" where
  "sql_search_users first second d =
     sort_key ur_id (filter (\<lambda>u. like first (ur_first_name u) \<and> like second (ur_second_name u)) (users d))"

definition sql_insert_token :: "string \<Rightarrow> uuid \<Rightarrow> string list \<Rightarrow> int \<Rightarrow> (db, int list) eff" where
  "sql_insert_token token user_id scopes now d =
     (if token \<in> set (map tk_token (tokens d)) then (Inl ConstraintViolation, d)
      else (Inr [now], d\<lparr>tokens := tokens d @
              [\<lparr>tk_token = token, tk_user = user_id, tk_scopes = scopes, tk_updated = now\<rparr>]\<rparr>))"

section \<open>The statements keep the keys\<close>

lemma distinct_map_filter_pairs: "distinct (map f xs) \<Longrightarrow> distinct (map f (filter p xs))"
  by (induction xs) auto

lemma sql_insert_friendship_ok [pres_intros]: "preserves db_ok (sql_insert_friendship u f now)"
  by (rule preservesI) (auto simp: sql_insert_friendship_def db_ok_def)

lemma sql_delete_friendship_ok [pres_intros]: "preserves db_ok (sql_delete_friendship u f)"
  by (rule preservesI) (auto simp: sql_delete_friendship_def db_ok_def intro: distinct_map_filter_pairs)

lemma sql_insert_post_ok [pres_intros]: "preserves db_ok (sql_insert_post i now a t)"
  by (rule preservesI) (auto simp: sql_insert_post_def db_ok_def)

lemma sql_delete_post_ok [pres_intros]: "preserves db_ok (sql_delete_post i)"
  by (rule preservesI) (auto simp: sql_delete_post_def db_ok_def intro: distinct_map_filter_pairs)

lemma map_po_update:
  "map po_id (map (\<lambda>p. if po_id p = i then p\<lparr>po_text := t\<rparr> else p) ps) = map po_id ps"
  "map po_author (map (\<lambda>p. if po_id p = i then p\<lparr>po_text := t\<rparr> else p) ps) = map po_author ps"
  by (induction ps) auto

lemma sql_update_post_ok [pres_intros]: "preserves db_ok (sql_update_post i t)"
  by (rule preservesI) (auto simp: sql_update_post_def db_ok_def map_po_update simp del: map_map)

lemma sql_insert_user_ok [pres_intros]: "preserves db_ok (sql_insert_user u)"
  by (rule preservesI) (auto simp: sql_insert_user_def db_ok_def)

lemma sql_insert_token_ok [pres_intros]: "preserves db_ok (sql_insert_token t u sc now)"
  by (rule preservesI) (auto simp: sql_insert_token_def db_ok_def)

section \<open>Feed rows and followers\<close>

lemma set_feed_rows:
  "set (feed_rows u d) =
     {p \<in> set (posts d). \<exists>f \<in> set (friendships d). fr_friend f = po_author p \<and> fr_user f = u}"
  by (auto simp: feed_rows_def)

text \<open>The pair of a friendship is its key, so the join repeats no post.\<close>

lemma friendship_unique:
  assumes "distinct (map (\<lambda>f. (fr_user f, fr_friend f)) fs)"
  shows "filter (\<lambda>f. fr_friend f = a \<and> fr_user f = u) fs
       = (case find (\<lambda>f. fr_friend f = a \<and> fr_user f = u) fs of None \<Rightarrow> [] | Some f \<Rightarrow> [f])"
  using filter_key_find [OF assms, of "(u, a)"] by (simp add: conj_commute)

definition follows :: "db \<Rightarrow> uuid \<Rightarrow> uuid \<Rightarrow> bool" where
  "follows d u a \<longleftrightarrow> (\<exists>f \<in> set (friendships d). fr_user f = u \<and> fr_friend f = a)"

lemma feed_rows_filter:
  assumes "distinct (map (\<lambda>f. (fr_user f, fr_friend f)) (friendships d))"
  shows "feed_rows u d = filter (\<lambda>p. follows d u (po_author p)) (posts d)"
proof -
  have "concat (map (\<lambda>p. map (\<lambda>f. p) (filter (\<lambda>f. fr_friend f = po_author p \<and> fr_user f = u) (friendships d))) ps)
      = filter (\<lambda>p. follows d u (po_author p)) ps" for ps
  proof (induction ps)
    case Nil
    then show ?case by simp
  next
    case (Cons p ps)
    have "find (\<lambda>f. fr_friend f = po_author p \<and> fr_user f = u) (friendships d) = None
      \<longleftrightarrow> \<not> follows d u (po_author p)"
      by (auto simp: find_None_iff follows_def)
    with Cons show ?case
      by (auto simp: friendship_unique [OF assms] split: option.splits)
  qed
  then show ?thesis by (simp add: feed_rows_def)
qed

lemma set_sql_feed: "p \<in> set (sql_feed P u d) \<Longrightarrow> planning P \<Longrightarrow> p \<in> set (feed_rows u d)"
  by (auto simp: sql_feed_def planning.set_plan_posts dest: in_set_takeD)

lemma length_sql_feed: "length (sql_feed P u d) \<le> 1000"
  by (simp add: sql_feed_def)

lemma set_sql_followers: "planning P \<Longrightarrow> set (sql_followers P a d) = {u. follows d u a}"
  by (auto simp: sql_followers_def planning.set_plan_uuids follows_def)

context planning
begin

lemma distinct_followers:
  assumes "db_ok d"
  shows "distinct (sql_followers P a d)"
proof -
  have "distinct (map fr_user (filter (\<lambda>f. fr_friend f = a) fs))"
    if "distinct (map (\<lambda>f. (fr_user f, fr_friend f)) fs)" for fs
    using that by (induction fs) (force simp: image_iff)+
  then have "distinct (map fr_user (filter (\<lambda>f. fr_friend f = a) (friendships d)))"
    using assms unfolding db_ok_def by blast
  then show ?thesis
    unfolding sql_followers_def by (metis plan_uuids_mset mset_eq_imp_distinct_iff)
qed

end

end
