(* ===== verification/Delivery.thy ===== *)
theory Delivery
  imports Prelude
begin

text \<open>
  What a queue of the broker does with its messages. The base class of the consumers acknowledges
  a message when \<open>Process\<close> returns and has it put back when \<open>Process\<close> throws. The
  acknowledgement is sent without waiting for an answer, so it can be lost, and then the broker
  delivers the message again although it was processed: every message is delivered at least once.
  Which message comes next is the broker's choice. This theory says it for any consumer, with any
  calls failing on the way, and states as a locale what a consumer has to guarantee for its
  deliveries to end and to have an abstract effect.

  The deliveries of one queue come one after the other here. That is so for the fan-out consumer
  (prefetch count 1); the other two may work on a hundred messages at once, and what their
  overlapping calls can do is modelled in the theories Feed_Concurrency and Counter_Concurrency.
\<close>

section \<open>Programs that throw only when a call fails\<close>

text \<open>The calls that are still to fail.\<close>

definition failures :: "'z svc_scheme \<Rightarrow> nat" where
  "failures s = length (filter (\<lambda>f. f \<noteq> No_Fault) (faults s))"

text \<open>
  From a state with \<open>X\<close> the program returns with \<open>Y\<close>, or it throws with \<open>Z\<close>, and then
  at least one of the calls that were to fail has failed.
\<close>

definition robust :: "('z svc_scheme \<Rightarrow> bool) \<Rightarrow> ('z svc_scheme, 'a) eff \<Rightarrow>
    ('a \<Rightarrow> 'z svc_scheme \<Rightarrow> bool) \<Rightarrow> ('z svc_scheme \<Rightarrow> bool) \<Rightarrow> bool" where
  "robust X m Y Z \<longleftrightarrow> (\<forall>s. X s \<longrightarrow>
     (\<forall>a t. m s = (Inr a, t) \<longrightarrow> Y a t \<and> failures t \<le> failures s) \<and>
     (\<forall>e t. m s = (Inl e, t) \<longrightarrow> Z t \<and> failures t < failures s))"

lemma robustI:
  assumes "\<And>s a t. X s \<Longrightarrow> m s = (Inr a, t) \<Longrightarrow> Y a t \<and> failures t \<le> failures s"
    and "\<And>s e t. X s \<Longrightarrow> m s = (Inl e, t) \<Longrightarrow> Z t \<and> failures t < failures s"
  shows "robust X m Y Z"
  using assms unfolding robust_def by blast

lemma robust_returns: "robust X m Y Z \<Longrightarrow> X s \<Longrightarrow> m s = (Inr a, t) \<Longrightarrow> Y a t \<and> failures t \<le> failures s"
  unfolding robust_def by blast

lemma robust_throws: "robust X m Y Z \<Longrightarrow> X s \<Longrightarrow> m s = (Inl e, t) \<Longrightarrow> Z t \<and> failures t < failures s"
  unfolding robust_def by blast

lemma robust_pure:
  assumes "\<And>s. X s \<Longrightarrow> \<exists>a t. m s = (Inr a, t) \<and> Y a t \<and> faults t = faults s"
  shows "robust X m Y Z"
  using assms by (fastforce simp: robust_def failures_def)

lemma robust_ret: "(\<And>s. X s \<Longrightarrow> Y a s) \<Longrightarrow> robust X (ret a) Y Z"
  by (simp add: robust_def)

lemma robust_bind:
  assumes "robust X m M Z" and "\<And>a. robust (M a) (k a) Y Z"
  shows "robust X (bind m k) Y Z"
proof (rule robustI)
  fix s a t assume "X s" and run: "bind m k s = (Inr a, t)"
  then obtain b u where m: "m s = (Inr b, u)" and k: "k b u = (Inr a, t)"
    by (auto simp: bind_def split: prod.splits sum.splits)
  from robust_returns [OF assms(1) \<open>X s\<close> m] robust_returns [OF assms(2) _ k] show "Y a t \<and> failures t \<le> failures s"
    by fastforce
next
  fix s e t assume X: "X s" and run: "bind m k s = (Inl e, t)"
  then consider "m s = (Inl e, t)" | b u where "m s = (Inr b, u)" "k b u = (Inl e, t)"
    by (auto simp: bind_def split: prod.splits sum.splits)
  then show "Z t \<and> failures t < failures s"
    using robust_throws [OF assms(1) X] robust_returns [OF assms(1) X] robust_throws [OF assms(2)] by cases fastforce+
qed

lemma robust_lift_Inr: "(\<And>s. X s \<Longrightarrow> Y a s) \<Longrightarrow> robust X (lift_sum (Inr a)) Y Z"
  by (simp add: robust_def)

lemma robust_try_catch:
  assumes "robust X m Y Z" and "robust Z h Y Z'"
  shows "robust X (try_catch m (\<lambda>_. True) h) Y Z'"
proof (rule robustI)
  fix s a t assume X: "X s" and run: "try_catch m (\<lambda>_. True) h s = (Inr a, t)"
  then consider "m s = (Inr a, t)" | e u where "m s = (Inl e, u)" "h u = (Inr a, t)"
    by (auto simp: try_catch_def split: prod.splits sum.splits)
  then show "Y a t \<and> failures t \<le> failures s"
    using robust_returns [OF assms(1) X] robust_throws [OF assms(1) X] robust_returns [OF assms(2)] by cases fastforce+
next
  fix s e t assume X: "X s" and run: "try_catch m (\<lambda>_. True) h s = (Inl e, t)"
  then obtain d u where "m s = (Inl d, u)" "h u = (Inl e, t)"
    by (auto simp: try_catch_def split: prod.splits sum.splits)
  then show "Z' t \<and> failures t < failures s"
    using robust_throws [OF assms(1) X] robust_throws [OF assms(2)] by fastforce
qed

lemma robust_cases:
  assumes "robust X m (\<lambda>_. Y) Z" and "X w"
  shows "Y (snd (m w)) \<and> failures (snd (m w)) \<le> failures w \<or> Z (snd (m w)) \<and> failures (snd (m w)) < failures w"
proof (cases "m w")
  case (Pair x v)
  then show ?thesis using robust_returns [OF assms] robust_throws [OF assms] by (cases x) auto
qed

lemma robust_conseq:
  assumes "robust X m Y Z" and "\<And>s. X' s \<Longrightarrow> X s" and "\<And>a s. Y a s \<Longrightarrow> Y' a s" and "\<And>s. Z s \<Longrightarrow> Z' s"
  shows "robust X' m Y' Z'"
  using assms unfolding robust_def by blast

lemma robust_if:
  "(b \<Longrightarrow> robust X m Y Z) \<Longrightarrow> (\<not> b \<Longrightarrow> robust X n Y Z) \<Longrightarrow> robust X (if b then m else n) Y Z"
  by simp

text \<open>A call whose body returns: lost before or after its effect, it throws and a failure is used up.\<close>

lemma robust_ext:
  assumes "\<And>s fs. X s \<Longrightarrow> X (s\<lparr>faults := fs\<rparr>)"
    and "\<And>s. X s \<Longrightarrow> \<exists>a t. m s = (Inr a, t) \<and> Y a t \<and> faults t = faults s"
    and "\<And>s. X s \<Longrightarrow> Z s" and "\<And>a s. Y a s \<Longrightarrow> Z s"
  shows "robust X (ext e m) Y Z"
proof -
  have "(\<forall>a t. ext e m s = (Inr a, t) \<longrightarrow> Y a t \<and> failures t \<le> failures s)
      \<and> (\<forall>d t. ext e m s = (Inl d, t) \<longrightarrow> Z t \<and> failures t < failures s)" if X: "X s" for s
  proof (cases "faults s")
    case Nil
    with assms(2) [OF X] show ?thesis by (auto simp: failures_def)
  next
    case (Cons f fs)
    let ?t = "s\<lparr>faults := fs\<rparr>"
    have X': "X ?t" using X by (rule assms(1))
    obtain a t where "m ?t = (Inr a, t)" "Y a t" "faults t = fs" using assms(2) [OF X'] by auto
    with Cons assms(3) [OF X'] assms(4) show ?thesis
      by (cases f) (simp_all add: ext_def failures_def)
  qed
  then show ?thesis by (intro robustI) blast+
qed

section \<open>A queue of the broker\<close>

text \<open>
  How a delivery ends: \<open>Process\<close> returned and the acknowledgement arrived, it returned
  and the acknowledgement was lost, or it threw. Only the first takes the message out of the queue.
\<close>

datatype outcome = Acked | Ack_Lost | Threw

text \<open>
  The deliveries that lead from a queue and a state of the consumer's process to others. The log
  tells for each delivery which message it was and how the delivery ended.
\<close>

inductive delivers ::
  "('m \<Rightarrow> ('s, unit) eff) \<Rightarrow> 'm multiset \<Rightarrow> 's \<Rightarrow> ('m \<times> outcome) list \<Rightarrow> 'm multiset \<Rightarrow> 's \<Rightarrow> bool"
  for process :: "'m \<Rightarrow> ('s, unit) eff" and q :: "'m multiset" and s :: 's
where
  none: "delivers process q s [] q s"
| acked: "delivers process q s log (add_mset m rest) t \<Longrightarrow> process m t = (Inr (), t') \<Longrightarrow>
    delivers process q s (log @ [(m, Acked)]) rest t'"
| ack_lost: "delivers process q s log (add_mset m rest) t \<Longrightarrow> process m t = (Inr (), t') \<Longrightarrow>
    delivers process q s (log @ [(m, Ack_Lost)]) (add_mset m rest) t'"
| requeued: "delivers process q s log (add_mset m rest) t \<Longrightarrow> process m t = (Inl e, t') \<Longrightarrow>
    delivers process q s (log @ [(m, Threw)]) (add_mset m rest) t'"

definition acknowledged :: "('m \<times> outcome) list \<Rightarrow> 'm multiset" where
  "acknowledged log = mset (map fst (filter (\<lambda>e. snd e = Acked) log))"

definition delivered :: "('m \<times> outcome) list \<Rightarrow> 'm multiset" where
  "delivered log = mset (map fst log)"

text \<open>The messages whose processing returned, in the order of their deliveries.\<close>

definition returned :: "('m \<times> outcome) list \<Rightarrow> 'm list" where
  "returned log = map fst (filter (\<lambda>e. snd e \<noteq> Threw) log)"

text \<open>The acknowledgements that were lost, and the deliveries that threw.\<close>

definition losses :: "('m \<times> outcome) list \<Rightarrow> nat" where
  "losses log = length (filter (\<lambda>e. snd e = Ack_Lost) log)"

definition throws :: "('m \<times> outcome) list \<Rightarrow> nat" where
  "throws log = length (filter (\<lambda>e. snd e = Threw) log)"

lemma log_simps [simp]:
  "acknowledged [] = {#}"
  "acknowledged (log @ [(m, x)]) = (if x = Acked then add_mset m (acknowledged log) else acknowledged log)"
  "delivered [] = {#}" "delivered (log @ [(m, x)]) = add_mset m (delivered log)"
  "returned [] = []" "returned (log @ [(m, x)]) = (if x = Threw then returned log else returned log @ [m])"
  "losses [] = 0" "losses (log @ [(m, x)]) = losses log + (if x = Ack_Lost then 1 else 0)"
  "throws [] = 0" "throws (log @ [(m, x)]) = throws log + (if x = Threw then 1 else 0)"
  by (simp_all add: acknowledged_def delivered_def returned_def losses_def throws_def)

lemma losses_append: "losses (log @ log') = losses log + losses log'"
  by (simp add: losses_def)

lemma size_delivered [simp]: "size (delivered log) = length log"
  by (simp add: delivered_def)

lemma acknowledged_delivered: "acknowledged log \<subseteq># delivered log"
  by (simp add: acknowledged_def delivered_def image_mset_subseteq_mono)

text \<open>A processed message was acknowledged, or its acknowledgement was lost.\<close>

lemma acknowledged_returned: "acknowledged log \<subseteq># mset (returned log)"
proof (induction log rule: rev_induct)
  case (snoc e log)
  have "acknowledged log \<subseteq># add_mset m (mset (returned log))" for m
    by (rule subset_mset.order_trans [OF snoc subset_mset.less_imp_le [OF multi_psub_of_add_self]])
  with snoc show ?case by (cases e) simp
qed simp

lemma log_sizes:
  "length log = size (acknowledged log) + losses log + throws log"
  "length (returned log) = size (acknowledged log) + losses log"
proof -
  have "length log = size (acknowledged log) + losses log + throws log
      \<and> length (returned log) = size (acknowledged log) + losses log"
  proof (induction log rule: rev_induct)
    case (snoc e log)
    obtain m x where "e = (m, x)" by fastforce
    with snoc show ?case by (cases x) simp_all
  qed simp
  then show "length log = size (acknowledged log) + losses log + throws log"
    "length (returned log) = size (acknowledged log) + losses log" by simp_all
qed

lemma nothing_lost: "losses log = 0 \<Longrightarrow> mset (returned log) = acknowledged log"
  using acknowledged_returned [of log] log_sizes(2) [of log] mset_subset_size
  by (fastforce simp: subset_mset.le_less)

text \<open>A message leaves the queue when it is acknowledged, and only then.\<close>

lemma delivers_account: "delivers process q s log q' t \<Longrightarrow> q = q' + acknowledged log"
  by (induction rule: delivers.induct) auto

lemma empty_queue_delivers_nothing: "delivers process {#} s log q' t \<Longrightarrow> t = s"
  by (erule delivers.cases) (auto dest: delivers_account)

lemma delivers_members: "delivers process q s log q' t \<Longrightarrow> set_mset (delivered log) \<subseteq> set_mset q"
proof (induction rule: delivers.induct)
  case (acked log m rest t t')
  with delivers_account [OF acked.hyps(1)] show ?case by auto
next
  case (ack_lost log m rest t t')
  with delivers_account [OF ack_lost.hyps(1)] show ?case by auto
next
  case (requeued log m rest t e t')
  with delivers_account [OF requeued.hyps(1)] show ?case by auto
qed simp

text \<open>A queue with a message is never stuck: the broker delivers it, and no acknowledgement has to be lost.\<close>

lemma delivers_progress:
  assumes "delivers process q s log (add_mset m rest) t"
  shows "\<exists>x q' t'. x \<noteq> Ack_Lost \<and> delivers process q s (log @ [(m, x)]) q' t'"
proof -
  obtain r t' where "process m t = (r, t')" by fastforce
  with delivers.acked [OF assms] delivers.requeued [OF assms] show ?thesis by (cases r) auto
qed

text \<open>A message that makes \<open>Process\<close> throw whatever happens never leaves the queue.\<close>

lemma poison_stays:
  assumes "delivers process q s log q' t" and "m \<in># q" and "\<And>s. \<exists>e s'. process m s = (Inl e, s')"
  shows "m \<in># q'"
  using assms
proof (induction rule: delivers.induct)
  case (acked log m' rest t t')
  then have "m' \<noteq> m" by (metis Pair_inject sum.distinct(1))
  with acked show ?case by auto
qed auto

lemma poison_forever:
  assumes "m \<in># q" and "\<And>s. \<exists>e s'. process m s = (Inl e, s')"
  shows "\<exists>s'. delivers process q s (replicate n (m, Threw)) q s'"
proof (induction n)
  case 0
  show ?case using delivers.none by (intro exI) simp
next
  case (Suc n)
  then obtain s' where d: "delivers process q s (replicate n (m, Threw)) q s'" by blast
  obtain rest where q: "q = add_mset m rest" using assms(1) by (metis mset_add)
  obtain e s'' where "process m s' = (Inl e, s'')" using assms(2) by blast
  from delivers.requeued [OF d [unfolded q] this] show ?case
    by (metis q replicate_append_same replicate_Suc)
qed

text \<open>
  The contract of a consumer: processing a message is an abstract effect on what the state
  represents, and it throws only when a call fails. The representation may depend on how many
  deliveries are still to come at most, which is what bounds on counters need. Whether the
  acknowledgement arrives makes no difference to the effect.
\<close>

inductive effects :: "('m \<Rightarrow> bool \<Rightarrow> 'a \<Rightarrow> 'a \<Rightarrow> bool) \<Rightarrow> ('m \<times> outcome) list \<Rightarrow> 'a \<Rightarrow> 'a \<Rightarrow> bool"
  for effect :: "'m \<Rightarrow> bool \<Rightarrow> 'a \<Rightarrow> 'a \<Rightarrow> bool"
where
  empty: "effects effect [] a a"
| step: "effects effect log a b \<Longrightarrow> effect m (x \<noteq> Threw) b c \<Longrightarrow> effects effect (log @ [(m, x)]) a c"

inductive_cases effects_emptyE: "effects effect [] a b"

locale at_least_once =
  fixes process :: "'m \<Rightarrow> ('z svc_scheme, unit) eff"
    and good :: "'m \<Rightarrow> bool"
    and rep :: "nat \<Rightarrow> 'z svc_scheme \<Rightarrow> 'a \<Rightarrow> bool"
    and effect :: "'m \<Rightarrow> bool \<Rightarrow> 'a \<Rightarrow> 'a \<Rightarrow> bool"
  assumes simulates: "good m \<Longrightarrow> rep (Suc n) s a \<Longrightarrow>
    robust (\<lambda>t. t = s) (process m) (\<lambda>_ t. \<exists>b. rep n t b \<and> effect m True a b) (\<lambda>t. \<exists>b. rep n t b \<and> effect m False a b)"
begin

text \<open>One delivery, from a state whose representation has room for it.\<close>

lemma one_delivery:
  assumes "delivers process q s log (add_mset m rest) t" and "\<forall>m \<in># q. good m"
    and "process m t = (r, t')" and "x = Threw \<longleftrightarrow> (\<exists>e. r = Inl e)"
    and "length log + size (add_mset m rest) + failures t \<le> size q + failures s + losses log"
    and "size q + failures s + losses log \<le> n"
    and "rep (n - length log) t b" and "effects effect log a b"
  shows "Suc (length log) + (size rest + (if x = Acked then 0 else 1)) + failures t'
      \<le> size q + failures s + losses (log @ [(m, x)])
    \<and> (\<exists>c. rep (n - length (log @ [(m, x)])) t' c \<and> effects effect (log @ [(m, x)]) a c)"
proof -
  let ?k = "n - length (log @ [(m, x)])"
  have "good m" using delivers_account [OF assms(1)] assms(2) by simp
  moreover have "n - length log = Suc ?k" using assms(5,6) by simp
  ultimately have sim: "robust (\<lambda>u. u = t) (process m) (\<lambda>_ u. \<exists>c. rep ?k u c \<and> effect m True b c)
      (\<lambda>u. \<exists>c. rep ?k u c \<and> effect m False b c)"
    using assms(7) by (intro simulates) simp_all
  show ?thesis
  proof (cases r)
    case (Inl e)
    then have x: "x = Threw" using assms(4) by blast
    from robust_throws [OF sim refl assms(3) [unfolded Inl]] obtain c where
      c: "rep ?k t' c" "effect m (x \<noteq> Threw) b c" and less: "failures t' < failures t" by (auto simp: x)
    from less assms(5) have "Suc (length log) + (size rest + (if x = Acked then 0 else 1)) + failures t'
        \<le> size q + failures s + losses (log @ [(m, x)])" by (simp add: x)
    with c effects.step [OF assms(8) c(2)] show ?thesis by blast
  next
    case (Inr v)
    then have x: "x \<noteq> Threw" using assms(4) by blast
    from robust_returns [OF sim refl assms(3) [unfolded Inr]] x obtain c where
      c: "rep ?k t' c" "effect m (x \<noteq> Threw) b c" and le: "failures t' \<le> failures t" by auto
    from le assms(5) x have "Suc (length log) + (size rest + (if x = Acked then 0 else 1)) + failures t'
        \<le> size q + failures s + losses (log @ [(m, x)])" by (cases x) simp_all
    with c effects.step [OF assms(8) c(2)] show ?thesis by blast
  qed
qed

text \<open>
  Every run is at most as long as there are messages, failures and lost acknowledgements, and its
  log explains its effect.
\<close>

lemma run:
  assumes "delivers process q s log q' t" and "\<forall>m \<in># q. good m" and "rep n s a"
    and "size q + failures s + losses log \<le> n"
  shows "length log + size q' + failures t \<le> size q + failures s + losses log
    \<and> (\<exists>b. rep (n - length log) t b \<and> effects effect log a b)"
  using assms
proof (induction rule: delivers.induct)
  case none
  then show ?case using effects.empty by fastforce
next
  case (acked log m rest t t')
  then obtain b where b: "length log + size (add_mset m rest) + failures t \<le> size q + failures s + losses log"
    "rep (n - length log) t b" "effects effect log a b" by fastforce
  have "size q + failures s + losses log \<le> n" using acked.prems(3) by simp
  from one_delivery [OF acked.hyps(1) acked.prems(1) acked.hyps(2) _ b(1) this b(2,3), of Acked]
  show ?case by simp
next
  case (ack_lost log m rest t t')
  then obtain b where b: "length log + size (add_mset m rest) + failures t \<le> size q + failures s + losses log"
    "rep (n - length log) t b" "effects effect log a b" by fastforce
  have "size q + failures s + losses log \<le> n" using ack_lost.prems(3) by simp
  from one_delivery [OF ack_lost.hyps(1) ack_lost.prems(1) ack_lost.hyps(2) _ b(1) this b(2,3), of Ack_Lost]
  show ?case by simp
next
  case (requeued log m rest t e t')
  then obtain b where b: "length log + size (add_mset m rest) + failures t \<le> size q + failures s + losses log"
    "rep (n - length log) t b" "effects effect log a b" by fastforce
  have "size q + failures s + losses log \<le> n" using requeued.prems(3) by simp
  from one_delivery [OF requeued.hyps(1) requeued.prems(1) requeued.hyps(2) _ b(1) this b(2,3), of Threw]
  show ?case by simp
qed

text \<open>Every run can be continued until the queue is empty, without losing another acknowledgement.\<close>

lemma empties:
  assumes "\<forall>m \<in># q. good m" and "rep n s a" and "delivers process q s log q' t"
    and "size q + failures s + losses log \<le> n"
  shows "\<exists>log' t'. losses log' = 0 \<and> delivers process q s (log @ log') {#} t'"
  using assms(3,4)
proof (induction "size q + failures s + losses log - length log" arbitrary: log q' t rule: less_induct)
  case less
  show ?case
  proof (cases "q' = {#}")
    case True
    with less.prems show ?thesis by (intro exI [of _ "[]"]) auto
  next
    case False
    then obtain m rest where q': "q' = add_mset m rest" by (metis multiset_cases)
    obtain x p' t' where x: "x \<noteq> Ack_Lost" and next_run: "delivers process q s (log @ [(m, x)]) p' t'"
      using delivers_progress [OF less.prems(1) [unfolded q']] by blast
    have same: "losses (log @ [(m, x)]) = losses log" using x by simp
    with less.prems(2) have n: "size q + failures s + losses (log @ [(m, x)]) \<le> n" by simp
    have "Suc (length log) \<le> size q + failures s + losses log"
      using run [OF next_run assms(1,2) n] same by simp
    then have "size q + failures s + losses (log @ [(m, x)]) - length (log @ [(m, x)])
        < size q + failures s + losses log - length log" using same by simp
    from less.hyps [OF this next_run n] obtain log' t'' where
      "losses log' = 0" "delivers process q s ((log @ [(m, x)]) @ log') {#} t''" by blast
    with x show ?thesis by (intro exI [of _ "(m, x) # log'"] exI [of _ t'']) (simp add: losses_def)
  qed
qed

end

end
