(* ===== verification/World.thy ===== *)
theory World
  imports Database Reference_Services Delivery
begin

text \<open>
  The state behind one monolith process: the PostgreSQL master and the replica that
  \<open>ClusterHostType::kSlave\<close> queries read, the feed Redis and the messages published to
  RabbitMQ. All calls go through \<open>ext\<close>, so each of them can fail; what each does then is its
  contract \<open>robust\<close>.
\<close>

text \<open>One published message: exchange, routing key, body.\<close>

datatype publication = Publication (pub_exchange: string) (pub_key: string) (pub_body: string)

record 'r world = svc +
  master :: db
  slave :: db
  feed_redis :: 'r
  published :: "publication list"

definition on_master :: "(db, 'a) eff \<Rightarrow> (('r, 'z) world_scheme, 'a) eff" where
  "on_master stmt = ext (ServiceError ''postgres'')
     (\<lambda>w. case stmt (master w) of (r, d) \<Rightarrow> (r, w\<lparr>master := d\<rparr>))"

definition from_master :: "(db \<Rightarrow> 'a) \<Rightarrow> (('r, 'z) world_scheme, 'a) eff" where
  "from_master q = ext (ServiceError ''postgres'') (query (\<lambda>w. q (master w)))"

definition from_slave :: "(db \<Rightarrow> 'a) \<Rightarrow> (('r, 'z) world_scheme, 'a) eff" where
  "from_slave q = ext (ServiceError ''postgres'') (query (\<lambda>w. q (slave w)))"

definition redis_get :: "('r \<Rightarrow> 'a) \<Rightarrow> (('r, 'z) world_scheme, 'a) eff" where
  "redis_get q = ext (ServiceError ''redis'') (query (\<lambda>w. q (feed_redis w)))"

definition redis_put :: "('r \<Rightarrow> 'r) \<Rightarrow> (('r, 'z) world_scheme, unit) eff" where
  "redis_put f = ext (ServiceError ''redis'') (modify (\<lambda>w. w\<lparr>feed_redis := f (feed_redis w)\<rparr>))"

definition publish :: "string \<Rightarrow> string \<Rightarrow> string \<Rightarrow> (('r, 'z) world_scheme, unit) eff" where
  "publish exchange key body = ext (ServiceError ''rabbitmq'')
     (modify (\<lambda>w. w\<lparr>published := published w @ [Publication exchange key body]\<rparr>))"

text \<open>The replica catches up with the master.\<close>

definition replicate_now :: "('r, 'z) world_scheme \<Rightarrow> ('r, 'z) world_scheme" where
  "replicate_now w = w\<lparr>slave := master w\<rparr>"

section \<open>Calls that do not fail\<close>

lemma calls_ok [simp]:
  fixes w :: "('r, 'z) world_scheme"
  assumes "faults w = []"
  shows "on_master stmt w = (fst (stmt (master w)), w\<lparr>master := snd (stmt (master w))\<rparr>)"
    and "from_master q w = (Inr (q (master w)), w)"
    and "from_slave q w = (Inr (q (slave w)), w)"
    and "redis_get p w = (Inr (p (feed_redis w)), w)"
    and "redis_put f w = (Inr (), w\<lparr>feed_redis := f (feed_redis w)\<rparr>)"
    and "publish e k b w = (Inr (), w\<lparr>published := published w @ [Publication e k b]\<rparr>)"
  using assms
  by (simp_all add: on_master_def from_master_def from_slave_def redis_get_def redis_put_def
      publish_def split: prod.splits)

section \<open>Predicates of one part of the state\<close>

lemma pres_redis_other [pres_intros]:
  "preserves (\<lambda>w :: ('r, 'z) world_scheme. I (feed_redis w)) (on_master stmt)"
  "preserves (\<lambda>w :: ('r, 'z) world_scheme. I (feed_redis w)) (from_master q)"
  "preserves (\<lambda>w :: ('r, 'z) world_scheme. I (feed_redis w)) (from_slave q)"
  "preserves (\<lambda>w :: ('r, 'z) world_scheme. I (feed_redis w)) (redis_get p)"
  "preserves (\<lambda>w :: ('r, 'z) world_scheme. I (feed_redis w)) (publish e k b)"
  unfolding on_master_def from_master_def from_slave_def redis_get_def publish_def
  by (rule preserves_ext; simp add: preserves_def split: prod.split)+

lemma pres_redis_put:
  "(\<And>r. I r \<Longrightarrow> I (f r)) \<Longrightarrow>
   preserves (\<lambda>w :: ('r, 'z) world_scheme. I (feed_redis w)) (redis_put f)"
  unfolding redis_put_def by (rule preserves_ext; simp add: preserves_def)

lemma pres_master_other [pres_intros]:
  "preserves (\<lambda>w :: ('r, 'z) world_scheme. I (master w)) (from_master q)"
  "preserves (\<lambda>w :: ('r, 'z) world_scheme. I (master w)) (from_slave q)"
  "preserves (\<lambda>w :: ('r, 'z) world_scheme. I (master w)) (redis_get p)"
  "preserves (\<lambda>w :: ('r, 'z) world_scheme. I (master w)) (redis_put f)"
  "preserves (\<lambda>w :: ('r, 'z) world_scheme. I (master w)) (publish e k b)"
  unfolding from_master_def from_slave_def redis_get_def redis_put_def publish_def
  by (rule preserves_ext; simp add: preserves_def)+

lemma pres_on_master [pres_intros]:
  "preserves I stmt \<Longrightarrow> preserves (\<lambda>w :: ('r, 'z) world_scheme. I (master w)) (on_master stmt)"
  unfolding on_master_def
  by (rule preserves_ext) (simp_all add: preserves_def split_beta)

section \<open>Calls that may fail\<close>

text \<open>The contract of each call (\<open>robust\<close>): it returns with its effect or throws and a failure is used up.\<close>

lemma robust_from_slave:
  assumes "\<And>w fs. X w \<Longrightarrow> X (w\<lparr>faults := fs\<rparr>)"
  shows "robust X (from_slave q) (\<lambda>v w. v = q (slave w) \<and> X w) X"
  unfolding from_slave_def by (rule robust_ext) (auto simp: assms)

lemma robust_redis_get:
  assumes "\<And>w fs. X w \<Longrightarrow> X (w\<lparr>faults := fs\<rparr>)"
  shows "robust X (redis_get q) (\<lambda>v w. v = q (feed_redis w) \<and> X w) X"
  unfolding redis_get_def by (rule robust_ext) (auto simp: assms)

lemma robust_redis_put:
  assumes "\<And>w fs. X w \<Longrightarrow> X (w\<lparr>faults := fs\<rparr>)" and "\<And>w. X w \<Longrightarrow> Y (w\<lparr>feed_redis := f (feed_redis w)\<rparr>)"
    and "\<And>w. X w \<Longrightarrow> Z w" and "\<And>w. Y w \<Longrightarrow> Z w"
  shows "robust X (redis_put f) (\<lambda>_. Y) Z"
  unfolding redis_put_def by (rule robust_ext) (use assms in auto)

lemma robust_redis_branch:
  assumes "\<And>w fs. X w \<Longrightarrow> X (w\<lparr>faults := fs\<rparr>)" and "\<And>w. X w \<Longrightarrow> 0 < q (feed_redis w) \<longleftrightarrow> b"
    and "robust X (if b then m else n) Y Z" and "\<And>w. X w \<Longrightarrow> Z w"
  shows "robust X (bind (redis_get q) (\<lambda>found :: int. if 0 < found then m else n)) Y Z"
proof (rule robust_bind)
  show "robust X (redis_get q) (\<lambda>found w. (0 < found \<longleftrightarrow> b) \<and> X w) Z"
    by (rule robust_conseq [OF robust_redis_get [of X q]]) (use assms(1,2,4) in auto)
  show "robust (\<lambda>w. (0 < found \<longleftrightarrow> b) \<and> X w) (if 0 < found then m else n) Y Z" for found
    using assms(3) by (cases "0 < found"; cases b) (auto simp: robust_def)
qed

lemma robust_redis_if:
  assumes "\<And>w fs. X w \<Longrightarrow> X (w\<lparr>faults := fs\<rparr>)" and "robust X m Y Z" and "robust X n Y Z"
    and "\<And>w. X w \<Longrightarrow> Z w"
  shows "robust X (bind (redis_get q) (\<lambda>found :: int. if 0 < found then m else n)) Y Z"
proof (rule robust_bind)
  show "robust X (redis_get q) (\<lambda>_. X) Z"
    by (rule robust_conseq [OF robust_redis_get [of X q]]) (use assms(1,4) in auto)
  show "robust X (if 0 < found then m else n) Y Z" for found
    using assms(2,3) by simp
qed

lemma robust_publish:
  assumes "\<And>w fs. X w \<Longrightarrow> X (w\<lparr>faults := fs\<rparr>)"
    and "\<And>w. X w \<Longrightarrow> Y (w\<lparr>published := published w @ [Publication e k b]\<rparr>)"
    and "\<And>w. X w \<Longrightarrow> Z w" and "\<And>w. Y w \<Longrightarrow> Z w"
  shows "robust X (publish e k b) (\<lambda>_. Y) Z"
  unfolding publish_def by (rule robust_ext) (use assms in auto)

section \<open>A concrete start\<close>

definition start_world :: "keyspace world" where
  "start_world = \<lparr>faults = [], master = empty_db, slave = empty_db,
                  feed_redis = empty_keyspace, published = []\<rparr>"

end
