(* ===== verification/Feed_Cache.thy ===== *)
theory Feed_Cache
  imports World
begin

text \<open>
  \<open>src/post/post_feed_cache.cpp\<close>: the Redis-backed cache of post feeds. A feed is a Redis list
  of serialized posts, newest first, under one key per user; it is filled on a miss from the
  replica, extended at the front when a followed user posts, and deleted when it may be stale.
\<close>

section \<open>Definitions\<close>

record feed_post =
  fp_post_id :: uuid
  fp_text :: string
  fp_author :: uuid

definition kMaxFeedSize :: nat where
  "kMaxFeedSize = 1000"

definition MakeKey :: "lib \<Rightarrow> uuid \<Rightarrow> string" where
  "MakeKey L user_id = ''feed:'' @ to_str L user_id"

definition SerializePost :: "lib \<Rightarrow> feed_post \<Rightarrow> string" where
  "SerializePost L post = json_dump L (JObject
     [(''post_id'', JString (to_str L (fp_post_id post))),
      (''text'', JString (fp_text post)),
      (''author_user_id'', JString (to_str L (fp_author post)))])"

definition DeserializePost :: "lib \<Rightarrow> string \<Rightarrow> exn + feed_post" where
  "DeserializePost L data =
     sum_bind (json_from_string L data) (\<lambda>json.
     sum_bind (sum_bind (field_string json ''post_id'') (string_generator L)) (\<lambda>post_id.
     sum_bind (field_string json ''text'') (\<lambda>text.
     sum_bind (sum_bind (field_string json ''author_user_id'') (string_generator L)) (\<lambda>author.
     Inr \<lparr>fp_post_id = post_id, fp_text = text, fp_author = author\<rparr>))))"

definition feed_of_row :: "post_row \<Rightarrow> feed_post" where
  "feed_of_row p = \<lparr>fp_post_id = po_id p, fp_text = po_text p, fp_author = po_author p\<rparr>"

definition LoadFeedFromDb :: "planner \<Rightarrow> uuid \<Rightarrow> (('r, 'z) world_scheme, feed_post list) eff" where
  "LoadFeedFromDb P user_id =
     bind (from_slave (sql_feed P user_id)) (\<lambda>rows. ret (map feed_of_row rows))"

definition GetFollowers :: "planner \<Rightarrow> uuid \<Rightarrow> (('r, 'z) world_scheme, uuid list) eff" where
  "GetFollowers P author_id = from_slave (sql_followers P author_id)"

text \<open>
  The slice returned on a miss, in \<open>std::size_t\<close> arithmetic. \<open>assign\<close> with an end before
  the begin has no meaning.
\<close>

definition feed_slice :: "feed_post list \<Rightarrow> int \<Rightarrow> int \<Rightarrow> exn + feed_post list" where
  "feed_slice db_feed offset limit =
     (let start = (word_of_int offset :: size_t);
          size1 = (of_nat (length db_feed) :: size_t)
      in if size1 \<le> start then Inr []
         else let stop = min (start + word_of_int limit) size1
              in if stop < start then Inl Undefined_Behaviour
                 else Inr (take (unat stop - unat start) (drop (unat start) db_feed)))"

definition GetFeed ::
  "lib \<Rightarrow> 'r redis \<Rightarrow> planner \<Rightarrow> uuid \<Rightarrow> int \<Rightarrow> int \<Rightarrow> (('r, 'z) world_scheme, feed_post list) eff"
where
  "GetFeed L R P user_id offset limit =
     (let key = MakeKey L user_id in
      bind (redis_get (\<lambda>r. r_exists R r key)) (\<lambda>found.
      if 0 < found
      then bind (lift_sum (sum_bind (int32_result (offset + limit)) (\<lambda>s. int32_result (s - 1)))) (\<lambda>stop.
           bind (redis_get (\<lambda>r. r_lrange R r key offset stop)) (\<lambda>raw.
           lift_sum (sum_list_map (DeserializePost L) raw)))
      else bind (LoadFeedFromDb P user_id) (\<lambda>db_feed.
           bind (if db_feed \<noteq> []
                 then bind (redis_put (\<lambda>r. r_rpush R r key (map (SerializePost L) db_feed))) (\<lambda>_.
                      redis_put (\<lambda>r. r_ltrim R r key 0 (int kMaxFeedSize - 1)))
                 else ret ()) (\<lambda>_.
           lift_sum (feed_slice db_feed offset limit)))))"

definition OnPostCreated ::
  "lib \<Rightarrow> 'r redis \<Rightarrow> planner \<Rightarrow> uuid \<Rightarrow> uuid \<Rightarrow> string \<Rightarrow> (('r, 'z) world_scheme, unit) eff"
where
  "OnPostCreated L R P author_id post_id text =
     bind (GetFollowers P author_id) (\<lambda>followers.
     let serialized = SerializePost L \<lparr>fp_post_id = post_id, fp_text = text, fp_author = author_id\<rparr> in
     for_each followers (\<lambda>follower_id.
       let key = MakeKey L follower_id in
       bind (redis_get (\<lambda>r. r_exists R r key)) (\<lambda>found.
       if 0 < found
       then bind (redis_put (\<lambda>r. r_lpush R r key serialized)) (\<lambda>_.
            redis_put (\<lambda>r. r_ltrim R r key 0 (int kMaxFeedSize - 1)))
       else ret ())))"

definition InvalidateFeedsOfFollowersOf ::
  "lib \<Rightarrow> 'r redis \<Rightarrow> planner \<Rightarrow> uuid \<Rightarrow> (('r, 'z) world_scheme, unit) eff"
where
  "InvalidateFeedsOfFollowersOf L R P author_id =
     bind (GetFollowers P author_id) (\<lambda>followers.
     if followers = [] then ret ()
     else redis_put (\<lambda>r. r_del R r (map (MakeKey L) followers)))"

definition InvalidateFeed :: "lib \<Rightarrow> 'r redis \<Rightarrow> uuid \<Rightarrow> (('r, 'z) world_scheme, unit) eff" where
  "InvalidateFeed L R user_id = redis_put (\<lambda>r. r_del R r [MakeKey L user_id])"

section \<open>Serialization\<close>

context library
begin

lemma MakeKey_inject: "MakeKey L u = MakeKey L v \<longleftrightarrow> u = v"
  by (simp add: MakeKey_def to_str_inject)

lemma string_generator_to_str: "string_generator L (to_str L u) = Inr u"
  by (simp add: string_generator_def gen_to_str)

lemma deserialize_serialize: "DeserializePost L (SerializePost L p) = Inr p"
proof -
  let ?fs = "[(''post_id'', JString (to_str L (fp_post_id p))), (''text'', JString (fp_text p)),
      (''author_user_id'', JString (to_str L (fp_author p)))]"
  have "flat_object ?fs" by (simp add: flat_object_def)
  from json_round [OF this] obtain gs
    where gs: "json_load L (SerializePost L p) = Some (JObject gs)" "map_of gs = map_of ?fs"
    by (auto simp: SerializePost_def)
  show ?thesis
    by (simp add: DeserializePost_def json_from_string_def gs(1) field_string_cong [OF gs(2)])
      (simp add: field_string_def string_generator_to_str)
qed

lemma deserialize_all: "sum_list_map (DeserializePost L) (map (SerializePost L) ps) = Inr ps"
  using sum_list_map_all [of ps "DeserializePost L" "SerializePost L" id]
  by (simp add: deserialize_serialize)

lemma serialize_inject: "SerializePost L p = SerializePost L q \<longleftrightarrow> p = q"
  by (metis deserialize_serialize sum.inject(2))

end

section \<open>The slice of a miss\<close>

definition slice_of :: "'a list \<Rightarrow> int \<Rightarrow> int \<Rightarrow> 'a list" where
  "slice_of xs offset limit = take (nat limit) (drop (nat offset) xs)"

lemma feed_slice_ok:
  assumes "0 \<le> offset" "offset < 2 ^ 31" and "0 \<le> limit" "limit < 2 ^ 31"
    and "length xs < 2 ^ 62"
  shows "feed_slice xs offset limit = Inr (slice_of xs offset limit)"
proof -
  let ?b = "word_of_int offset :: size_t" and ?n = "of_nat (length xs) :: size_t"
  let ?l = "word_of_int limit :: size_t"
  have b: "unat ?b = nat offset" and l: "unat ?l = nat limit" and n: "unat ?n = length xs"
    using assms by (simp_all add: unat_of_nat unsigned_of_int take_bit_int_eq_self nat_mod_as_int unsigned_of_nat take_bit_nat_eq_self)
  have bl: "unat (?b + ?l) = nat offset + nat limit"
    using assms b l by (subst unat_add_lem [THEN iffD1]) auto
  show ?thesis
  proof (cases "?n \<le> ?b")
    case True
    then have "length xs \<le> nat offset" by (simp add: word_le_nat_alt b n)
    with True show ?thesis by (simp add: feed_slice_def slice_of_def)
  next
    case False
    then have lt: "nat offset < length xs" by (simp add: word_le_nat_alt b n)
    have e: "unat (min (?b + ?l) ?n) = min (nat offset + nat limit) (length xs)"
      by (simp add: min_def word_le_nat_alt bl n)
    have "\<not> min (?b + ?l) ?n < ?b"
      using lt by (simp add: word_less_nat_alt e b)
    then have "feed_slice xs offset limit
        = Inr (take (min (nat offset + nat limit) (length xs) - nat offset) (drop (nat offset) xs))"
      using False by (simp add: feed_slice_def Let_def e b)
    also have "take (min (nat offset + nat limit) (length xs) - nat offset) (drop (nat offset) xs)
        = slice_of xs offset limit"
      using lt by (auto simp: slice_of_def min_def)
    finally show ?thesis .
  qed
qed

section \<open>What the cache holds\<close>

text \<open>The feed of a user as the database \<open>d\<close> defines it: what the cache stands for.\<close>

definition feed_of_db :: "planner \<Rightarrow> uuid \<Rightarrow> db \<Rightarrow> feed_post list" where
  "feed_of_db P user_id d = map feed_of_row (sql_feed P user_id d)"

text \<open>The key of \<open>u\<close> holds the serialized posts \<open>ps\<close> (none when the key is absent).\<close>

definition feed_holds :: "lib \<Rightarrow> 'r redis \<Rightarrow> 'r \<Rightarrow> uuid \<Rightarrow> feed_post list \<Rightarrow> bool" where
  "feed_holds L R r u ps \<longleftrightarrow>
     r_type R r (MakeKey L u) \<noteq> THash \<and> r_list R r (MakeKey L u) = map (SerializePost L) ps"

text \<open>A cached feed is the feed of the database; a feed need not be cached.\<close>

definition feed_coherent :: "lib \<Rightarrow> 'r redis \<Rightarrow> planner \<Rightarrow> db \<Rightarrow> 'r \<Rightarrow> uuid \<Rightarrow> bool" where
  "feed_coherent L R P d r u \<longleftrightarrow> feed_holds L R r u [] \<or> feed_holds L R r u (feed_of_db P u d)"

text \<open>Every cached entry is a serialized post.\<close>

definition cache_decodable :: "lib \<Rightarrow> 'r redis \<Rightarrow> 'r \<Rightarrow> bool" where
  "cache_decodable L R r \<longleftrightarrow> (\<forall>u. \<exists>ps. feed_holds L R r u ps)"

definition cache_bounded :: "lib \<Rightarrow> 'r redis \<Rightarrow> 'r \<Rightarrow> bool" where
  "cache_bounded L R r \<longleftrightarrow> (\<forall>u. length (r_list R r (MakeKey L u)) \<le> kMaxFeedSize)"

lemma length_feed_of_db: "length (feed_of_db P u d) \<le> 1000"
  by (simp add: feed_of_db_def length_sql_feed)

lemma take_feed_of_db [simp]: "take 1000 (feed_of_db P u d) = feed_of_db P u d"
  by (simp add: length_feed_of_db)

locale feed_env = library L + redis_lists R + planning P
  for L :: lib and R :: "'r redis" and P :: planner
begin

subsection \<open>Redis steps on one feed\<close>

abbreviation key :: "uuid \<Rightarrow> string" where
  "key u \<equiv> MakeKey L u"

lemma holds_present:
  "feed_holds L R r u ps \<Longrightarrow> r_type R r (key u) = TNone \<longleftrightarrow> ps = []"
  using none_list [of r "key u"] list_nonempty [of r "key u"]
  by (cases "r_type R r (key u)") (auto simp: feed_holds_def)

lemma holds_unique: "feed_holds L R r u ps \<Longrightarrow> feed_holds L R r u qs \<Longrightarrow> ps = qs"
  unfolding feed_holds_def
  by (metis deserialize_all sum.inject(2))

lemma holds_frame: "key_same R r r' (key v) \<Longrightarrow> feed_holds L R r' v ps \<longleftrightarrow> feed_holds L R r v ps"
  by (simp add: feed_holds_def key_same_def)

lemma trim_slice: "redis_slice xs 0 (int kMaxFeedSize - 1) = take 1000 xs"
  using redis_slice_prefix [of 1000 xs] by (simp add: kMaxFeedSize_def)

lemma holds_trim:
  assumes "feed_holds L R r u ps"
  shows "feed_holds L R (r_ltrim R r (key u) 0 (int kMaxFeedSize - 1)) u (take 1000 ps)"
  using assms ltrim [of r "key u" 0 "int kMaxFeedSize - 1"]
  by (auto simp: feed_holds_def trim_slice take_map)

lemma holds_rpush:
  assumes "feed_holds L R r u ps" and "qs \<noteq> []"
  shows "feed_holds L R (r_rpush R r (key u) (map (SerializePost L) qs)) u (ps @ qs)"
  using assms rpush [of r "key u" "map (SerializePost L) qs"] by (simp add: feed_holds_def)

lemma holds_lpush:
  assumes "feed_holds L R r u ps"
  shows "feed_holds L R (r_lpush R r (key u) (SerializePost L p)) u (p # ps)"
  using assms lpush [of r "key u" "SerializePost L p"] by (simp add: feed_holds_def)

lemma holds_del: "u \<in> set us \<Longrightarrow> feed_holds L R (r_del R r (map (MakeKey L) us)) u []"
  using del [of "key u" "map (MakeKey L) us" r] del_list [of "key u" "map (MakeKey L) us" r]
  by (simp add: feed_holds_def)

lemma key_same_other:
  assumes "v \<noteq> u"
  shows "key_same R r (r_rpush R r (key u) vs) (key v)"
    and "key_same R r (r_lpush R r (key u) x) (key v)"
    and "key_same R r (r_ltrim R r (key u) a b) (key v)"
  using assms by (simp_all add: rpush_frame lpush_frame ltrim_frame MakeKey_inject)

lemma holds_other:
  assumes "v \<noteq> u"
  shows "feed_holds L R (r_rpush R r (key u) vs) v ps \<longleftrightarrow> feed_holds L R r v ps"
    and "feed_holds L R (r_lpush R r (key u) x) v ps \<longleftrightarrow> feed_holds L R r v ps"
    and "feed_holds L R (r_ltrim R r (key u) a b) v ps \<longleftrightarrow> feed_holds L R r v ps"
  using key_same_other [OF assms] by (simp_all add: holds_frame)

lemma holds_del_other:
  "v \<notin> set us \<Longrightarrow> feed_holds L R (r_del R r (map (MakeKey L) us)) v ps \<longleftrightarrow> feed_holds L R r v ps"
  by (intro holds_frame del_frame) (auto simp: MakeKey_inject)

end

section \<open>GetFeed\<close>

text \<open>What an operation on the cached feeds leaves alone: everything else in the world.\<close>

definition only_feeds :: "('r, 'z) world_scheme \<Rightarrow> ('r, 'z) world_scheme \<Rightarrow> bool" where
  "only_feeds w w' \<longleftrightarrow> w'\<lparr>faults := faults w, feed_redis := feed_redis w\<rparr> = w"

lemma preserves_only_feeds [pres_intros]:
  "preserves (only_feeds w) (from_slave q)" "preserves (only_feeds w) (redis_get p)" "preserves (only_feeds w) (redis_put f)"
  unfolding from_slave_def redis_get_def redis_put_def
  by (rule preserves_ext; simp add: preserves_def only_feeds_def)+

lemma only_feeds_refl [simp]: "only_feeds w w"
  by (simp add: only_feeds_def)

text \<open>The two Redis commands that fill the cache on a miss.\<close>

definition fill_cache :: "lib \<Rightarrow> 'r redis \<Rightarrow> uuid \<Rightarrow> feed_post list \<Rightarrow> 'r \<Rightarrow> 'r" where
  "fill_cache L R u ps r =
     (if ps = [] then r
      else r_ltrim R (r_rpush R r (MakeKey L u) (map (SerializePost L) ps)) (MakeKey L u) 0 (int kMaxFeedSize - 1))"

context feed_env
begin

lemma holds_fill:
  assumes "feed_holds L R r u qs"
  shows "feed_holds L R (fill_cache L R u ps r) u (if ps = [] then qs else take 1000 (qs @ ps))"
  using assms holds_trim [OF holds_rpush [OF assms, of ps]] by (auto simp: fill_cache_def)

lemma holds_fill_other:
  "v \<noteq> u \<Longrightarrow> feed_holds L R (fill_cache L R u ps r) v qs \<longleftrightarrow> feed_holds L R r v qs"
  by (simp add: fill_cache_def holds_other)

lemma load_feed_run:
  "faults w = [] \<Longrightarrow> LoadFeedFromDb P u w = (Inr (feed_of_db P u (slave w)), w)"
  by (simp add: LoadFeedFromDb_def bind_def feed_of_db_def)

lemma get_feed_hit:
  assumes "faults w = []" and "feed_holds L R (feed_redis w) u ps" and "ps \<noteq> []"
  shows "GetFeed L R P u offset limit w =
    (sum_bind (sum_bind (int32_result (offset + limit)) (\<lambda>s. int32_result (s - 1)))
       (\<lambda>stop. Inr (redis_slice ps offset stop)), w)"
proof -
  have "0 < r_exists R (feed_redis w) (key u)"
    using assms(2,3) by (simp add: exists_pos holds_present)
  moreover have "r_lrange R (feed_redis w) (key u) offset stop = map (SerializePost L) (redis_slice ps offset stop)" for stop
    using assms(2) by (simp add: feed_holds_def lrange redis_slice_map)
  ultimately show ?thesis
    using assms(1)
    by (cases "sum_bind (int32_result (offset + limit)) (\<lambda>s. int32_result (s - 1))")
      (simp_all add: GetFeed_def bind_def Let_def deserialize_all)
qed

lemma get_feed_miss:
  assumes "faults w = []" and "feed_holds L R (feed_redis w) u []"
  shows "GetFeed L R P u offset limit w =
    (feed_slice (feed_of_db P u (slave w)) offset limit,
     w\<lparr>feed_redis := fill_cache L R u (feed_of_db P u (slave w)) (feed_redis w)\<rparr>)"
proof -
  have "\<not> 0 < r_exists R (feed_redis w) (key u)"
    using assms(2) holds_present [OF assms(2)] by (simp add: exists_pos)
  then show ?thesis
    using assms(1) load_feed_run [OF assms(1), of u]
    by (simp add: GetFeed_def bind_def Let_def fill_cache_def)
qed

lemma slice_hit:
  assumes "0 \<le> offset" "0 < limit" "offset + limit < 2 ^ 31"
  shows "sum_bind (sum_bind (int32_result (offset + limit)) (\<lambda>s. int32_result (s - 1)))
       (\<lambda>stop. Inr (redis_slice ps offset stop)) = Inr (slice_of ps offset limit)"
  using assms by (simp add: int32_result_def in_int32_def redis_slice_nonneg slice_of_def)

text \<open>The page of a coherent feed, whether it is cached or not, and what the call leaves.\<close>

lemma get_feed_page:
  assumes "faults w = []" and coh: "feed_coherent L R P (slave w) (feed_redis w) u"
    and args: "0 \<le> offset" "0 < limit" "offset + limit < 2 ^ 31"
  obtains r where
    "GetFeed L R P u offset limit w = (Inr (slice_of (feed_of_db P u (slave w)) offset limit), w\<lparr>feed_redis := r\<rparr>)"
    "feed_holds L R r u (feed_of_db P u (slave w))"
    "\<And>v ps. v \<noteq> u \<Longrightarrow> feed_holds L R r v ps \<longleftrightarrow> feed_holds L R (feed_redis w) v ps"
proof (cases "feed_holds L R (feed_redis w) u []")
  case True
  let ?feed = "feed_of_db P u (slave w)"
  have len: "length ?feed < 2 ^ 62"
    using length_feed_of_db [of P u "slave w"] by simp
  have "feed_slice ?feed offset limit = Inr (slice_of ?feed offset limit)"
    using args by (intro feed_slice_ok len) auto
  moreover have "feed_holds L R (fill_cache L R u ?feed (feed_redis w)) u ?feed"
    using holds_fill [OF True, of ?feed] by (cases "?feed = []") auto
  ultimately show ?thesis
    using get_feed_miss [OF assms(1) True]
    by (intro that [of "fill_cache L R u ?feed (feed_redis w)"]) (simp_all add: holds_fill_other)
next
  case False
  with coh have h: "feed_holds L R (feed_redis w) u (feed_of_db P u (slave w))"
    by (simp add: feed_coherent_def)
  with False have "feed_of_db P u (slave w) \<noteq> []" by auto
  from get_feed_hit [OF assms(1) h this] slice_hit [OF args] h show ?thesis
    by (intro that [of "feed_redis w"]) auto
qed

subsection \<open>GetFeed when calls fail\<close>

lemma fill_robust:
  fixes w :: "('r, 'z) world_scheme"
  assumes "feed_holds L R r u []" and "fill = bind (redis_put (\<lambda>r. r_rpush R r (key u) (map (SerializePost L) ps)))
        (\<lambda>_. redis_put (\<lambda>r. r_ltrim R r (key u) 0 (int kMaxFeedSize - 1)))" and "ps \<noteq> []" and "length ps \<le> 1000"
    and "kept = (\<lambda>r'. \<forall>v qs. v \<noteq> u \<longrightarrow> feed_holds L R r' v qs = feed_holds L R r v qs)"
  shows "robust (\<lambda>w :: ('r, 'z) world_scheme. feed_redis w = r) fill
    (\<lambda>_ w. feed_holds L R (feed_redis w) u ps \<and> kept (feed_redis w))
    (\<lambda>w. (feed_redis w = r \<or> feed_holds L R (feed_redis w) u ps) \<and> kept (feed_redis w))"
proof -
  let ?r1 = "r_rpush R r (key u) (map (SerializePost L) ps)"
  let ?r2 = "r_ltrim R ?r1 (key u) 0 (int kMaxFeedSize - 1)"
  have full: "feed_holds L R ?r1 u ps" "feed_holds L R ?r2 u ps"
    using holds_rpush [OF assms(1,3)] holds_trim [OF holds_rpush [OF assms(1,3)]] assms(4) by simp_all
  have frame: "kept r" "kept ?r1" "kept ?r2" by (simp_all add: assms(5) holds_other)
  show ?thesis
    unfolding assms(2)
    by (rule robust_bind [where M = "\<lambda>_ w. feed_redis w = ?r1"]; rule robust_redis_put) (use full frame in auto)
qed

lemma miss_robust:
  fixes w :: "('r, 'z) world_scheme"
  assumes "feed_holds L R r u []" and "feed = feed_of_db P u d" and "0 \<le> offset" and "offset < 2 ^ 31" and "0 \<le> limit" and "limit < 2 ^ 31"
    and "kept = (\<lambda>r'. \<forall>v qs. v \<noteq> u \<longrightarrow> feed_holds L R r' v qs = feed_holds L R r v qs)"
  shows "robust (\<lambda>w :: ('r, 'z) world_scheme. slave w = d \<and> feed_redis w = r)
    (bind (LoadFeedFromDb P u) (\<lambda>db_feed.
     bind (if db_feed \<noteq> []
           then bind (redis_put (\<lambda>r. r_rpush R r (key u) (map (SerializePost L) db_feed))) (\<lambda>_.
                redis_put (\<lambda>r. r_ltrim R r (key u) 0 (int kMaxFeedSize - 1)))
           else ret ()) (\<lambda>_.
     lift_sum (feed_slice db_feed offset limit))))
    (\<lambda>page w. page = slice_of feed offset limit \<and> feed_holds L R (feed_redis w) u feed \<and> kept (feed_redis w))
    (\<lambda>w. (feed_redis w = r \<or> feed_holds L R (feed_redis w) u feed) \<and> kept (feed_redis w))"
proof -
  let ?at = "\<lambda>w :: ('r, 'z) world_scheme. slave w = d \<and> feed_redis w = r"
  let ?Z = "\<lambda>w :: ('r, 'z) world_scheme. (feed_redis w = r \<or> feed_holds L R (feed_redis w) u feed) \<and> kept (feed_redis w)"
  have frame: "kept r" by (simp add: assms(7))
  have len: "length feed \<le> 1000" unfolding assms(2) by (rule length_feed_of_db)
  have slice: "feed_slice feed offset limit = Inr (slice_of feed offset limit)"
    using assms(3-6) len by (intro feed_slice_ok) auto
  have load: "robust ?at (LoadFeedFromDb P u) (\<lambda>v w. v = feed \<and> ?at w) ?Z"
    unfolding LoadFeedFromDb_def
    by (rule robust_bind, rule robust_conseq [OF robust_from_slave [of ?at]], simp, assumption, assumption)
      (use frame in \<open>auto simp: assms(2) feed_of_db_def intro: robust_ret\<close>)
  have fill: "robust ?at (if feed \<noteq> [] then bind (redis_put (\<lambda>r. r_rpush R r (key u) (map (SerializePost L) feed)))
        (\<lambda>_. redis_put (\<lambda>r. r_ltrim R r (key u) 0 (int kMaxFeedSize - 1))) else ret ())
      (\<lambda>_ w. feed_holds L R (feed_redis w) u feed \<and> kept (feed_redis w)) ?Z"
    by (rule robust_if, rule robust_conseq [OF fill_robust [OF assms(1) refl _ len assms(7)]])
      (use assms(1) frame in \<open>auto intro: robust_ret\<close>)
  have rest: "robust (\<lambda>w. feed_holds L R (feed_redis w) u feed \<and> kept (feed_redis w)) (lift_sum (feed_slice feed offset limit))
      (\<lambda>page w. page = slice_of feed offset limit \<and> feed_holds L R (feed_redis w) u feed \<and> kept (feed_redis w)) ?Z"
    unfolding slice by (rule robust_lift_Inr) simp
  show ?thesis
  proof (rule robust_bind [OF load])
    fix v
    show "robust (\<lambda>w. v = feed \<and> ?at w) (bind (if v \<noteq> [] then bind (redis_put (\<lambda>r. r_rpush R r (key u) (map (SerializePost L) v)))
        (\<lambda>_. redis_put (\<lambda>r. r_ltrim R r (key u) 0 (int kMaxFeedSize - 1))) else ret ())
        (\<lambda>_. lift_sum (feed_slice v offset limit)))
      (\<lambda>page w. page = slice_of feed offset limit \<and> feed_holds L R (feed_redis w) u feed \<and> kept (feed_redis w)) ?Z"
    proof (cases "v = feed")
      case True
      from robust_bind [OF fill rest] show ?thesis unfolding True by simp
    qed (simp add: robust_def)
  qed
qed

lemma hit_robust:
  fixes w :: "('r, 'z) world_scheme"
  assumes "feed_holds L R r u feed" and "0 \<le> offset" and "0 < limit" and "offset + limit < 2 ^ 31"
  shows "robust (\<lambda>w :: ('r, 'z) world_scheme. feed_redis w = r)
    (bind (lift_sum (sum_bind (int32_result (offset + limit)) (\<lambda>s. int32_result (s - 1)))) (\<lambda>stop.
     bind (redis_get (\<lambda>r. r_lrange R r (key u) offset stop)) (\<lambda>raw. lift_sum (sum_list_map (DeserializePost L) raw))))
    (\<lambda>page w. page = slice_of feed offset limit \<and> feed_redis w = r) (\<lambda>w. feed_redis w = r)"
proof -
  let ?raw = "map (SerializePost L) (slice_of feed offset limit)"
  have range: "r_lrange R r (key u) offset (offset + limit - 1) = ?raw"
    using assms by (simp add: feed_holds_def lrange redis_slice_map redis_slice_nonneg slice_of_def)
  have stop: "sum_bind (int32_result (offset + limit)) (\<lambda>s. int32_result (s - 1)) = Inr (offset + limit - 1)"
    using assms(2-4) by (simp add: int32_result_def in_int32_def)
  show ?thesis
    unfolding stop bind_lift_Inr
  proof (rule robust_bind)
    show "robust (\<lambda>w :: ('r, 'z) world_scheme. feed_redis w = r) (redis_get (\<lambda>r. r_lrange R r (key u) offset (offset + limit - 1)))
        (\<lambda>raw w. raw = ?raw \<and> feed_redis w = r) (\<lambda>w. feed_redis w = r)"
      by (rule robust_conseq [OF robust_redis_get [of "\<lambda>w. feed_redis w = r"]]) (use range in auto)
    show "robust (\<lambda>w :: ('r, 'z) world_scheme. raw = ?raw \<and> feed_redis w = r) (lift_sum (sum_list_map (DeserializePost L) raw))
        (\<lambda>page w. page = slice_of feed offset limit \<and> feed_redis w = r) (\<lambda>w. feed_redis w = r)" for raw
      by (cases "raw = ?raw") (auto simp: robust_def deserialize_all)
  qed
qed

text \<open>
  What is returned is the page; what is left, whether the call returns or throws, is the feed or,
  if nothing was cached, nothing.
\<close>

lemma get_feed_robust:
  fixes w :: "('r, 'z) world_scheme"
  assumes coh: "feed_coherent L R P d r u" and args: "0 \<le> offset" "0 < limit" "offset + limit < 2 ^ 31"
    and kept: "kept = (\<lambda>r'. \<forall>v qs. v \<noteq> u \<longrightarrow> feed_holds L R r' v qs = feed_holds L R r v qs)"
  shows "robust (\<lambda>w :: ('r, 'z) world_scheme. slave w = d \<and> feed_redis w = r) (GetFeed L R P u offset limit)
    (\<lambda>page w. page = slice_of (feed_of_db P u d) offset limit
       \<and> feed_holds L R (feed_redis w) u (feed_of_db P u d) \<and> kept (feed_redis w))
    (\<lambda>w. feed_coherent L R P d (feed_redis w) u \<and> kept (feed_redis w))"
proof -
  let ?feed = "feed_of_db P u d"
  have frame: "kept r" by (simp add: kept)
  have arg: "offset < 2 ^ 31" "0 \<le> limit" "limit < 2 ^ 31" using args by auto
  show ?thesis
  proof (cases "feed_holds L R r u []")
    case True
    have absent: "\<not> 0 < r_exists R r (key u)" using True holds_present [OF True] by (simp add: exists_pos)
    show ?thesis
      unfolding GetFeed_def Let_def
      by (rule robust_redis_branch [where b = False], simp, simp add: absent, simp,
          rule robust_conseq [OF miss_robust [OF True refl args(1) arg kept]])
        (use coh frame in \<open>auto simp: feed_coherent_def\<close>)
  next
    case False
    with coh have h: "feed_holds L R r u ?feed" by (simp add: feed_coherent_def)
    with False have "?feed \<noteq> []" by auto
    then have present: "0 < r_exists R r (key u)" using h by (simp add: exists_pos holds_present)
    show ?thesis
      unfolding GetFeed_def Let_def
      by (rule robust_redis_branch [where b = True], simp, simp add: present, simp,
          rule robust_conseq [OF hit_robust [OF h args]])
        (use coh frame h in auto)
  qed
qed

lemma get_feed_only: "preserves (only_feeds w) (GetFeed L R P u offset limit)"
  unfolding GetFeed_def LoadFeedFromDb_def Let_def by (intro pres_intros)

end

section \<open>Materialisation and invalidation\<close>

text \<open>What one follower's feed becomes when a followed user posts.\<close>

definition push_front :: "lib \<Rightarrow> 'r redis \<Rightarrow> string \<Rightarrow> uuid \<Rightarrow> 'r \<Rightarrow> 'r" where
  "push_front L R s u r =
     (if 0 < r_exists R r (MakeKey L u)
      then r_ltrim R (r_lpush R r (MakeKey L u) s) (MakeKey L u) 0 (int kMaxFeedSize - 1) else r)"

context feed_env
begin

lemma holds_push_front:
  assumes "feed_holds L R r u ps"
  shows "feed_holds L R (push_front L R (SerializePost L p) u r) u (if ps = [] then [] else take 1000 (p # ps))"
  using assms holds_trim [OF holds_lpush [OF assms, of p]]
  by (auto simp: push_front_def exists_pos holds_present)

lemma holds_push_front_other:
  "v \<noteq> u \<Longrightarrow> feed_holds L R (push_front L R s u r) v ps \<longleftrightarrow> feed_holds L R r v ps"
  by (simp add: push_front_def holds_other)

lemma holds_push_all:
  assumes "distinct us" and "feed_holds L R r v ps"
  shows "feed_holds L R (fold (push_front L R (SerializePost L p)) us r) v
     (if v \<in> set us \<and> ps \<noteq> [] then take 1000 (p # ps) else ps)"
  using assms
proof (induction us arbitrary: r ps)
  case Nil
  then show ?case by simp
next
  case (Cons u us)
  show ?case
  proof (cases "v = u")
    case True
    with Cons.prems have "feed_holds L R (push_front L R (SerializePost L p) u r) v
        (if ps = [] then [] else take 1000 (p # ps))"
      by (simp add: holds_push_front)
    from Cons.IH [OF _ this] Cons.prems(1) True show ?thesis by (auto split: if_splits)
  next
    case False
    with Cons.prems have "feed_holds L R (push_front L R (SerializePost L p) u r) v ps"
      by (simp add: holds_push_front_other)
    from Cons.IH [OF _ this] Cons.prems(1) False show ?thesis by simp
  qed
qed

lemma push_loop_run:
  assumes "faults w = []"
  shows "for_each us (\<lambda>u. let key = MakeKey L u in
       bind (redis_get (\<lambda>r. r_exists R r key)) (\<lambda>found.
       if 0 < found
       then bind (redis_put (\<lambda>r. r_lpush R r key s)) (\<lambda>_.
            redis_put (\<lambda>r. r_ltrim R r key 0 (int kMaxFeedSize - 1)))
       else ret ())) w = (Inr (), w\<lparr>feed_redis := fold (push_front L R s) us (feed_redis w)\<rparr>)"
  using assms
proof (induction us arbitrary: w)
  case Nil
  then show ?case by simp
next
  case (Cons u us)
  then show ?case by (auto simp: bind_def Let_def push_front_def)
qed

lemma on_post_created_run:
  assumes "faults w = []"
  shows "OnPostCreated L R P a i t w = (Inr (), w\<lparr>feed_redis :=
      fold (push_front L R (SerializePost L \<lparr>fp_post_id = i, fp_text = t, fp_author = a\<rparr>))
        (sql_followers P a (slave w)) (feed_redis w)\<rparr>)"
  using assms push_loop_run [OF assms]
  by (simp add: OnPostCreated_def GetFollowers_def bind_def Let_def)

lemma invalidate_followers_run:
  assumes "faults w = []"
  shows "InvalidateFeedsOfFollowersOf L R P a w = (Inr (),
    if sql_followers P a (slave w) = [] then w
    else w\<lparr>feed_redis := r_del R (feed_redis w) (map (MakeKey L) (sql_followers P a (slave w)))\<rparr>)"
  using assms by (simp add: InvalidateFeedsOfFollowersOf_def GetFollowers_def bind_def)

lemma invalidate_followers_holds:
  assumes "faults w = []" and "feed_holds L R (feed_redis w) v ps"
    and "InvalidateFeedsOfFollowersOf L R P a w = (x, w')"
  shows "feed_holds L R (feed_redis w') v (if follows (slave w) v a then [] else ps)"
proof -
  have mem: "v \<in> set (sql_followers P a (slave w)) \<longleftrightarrow> follows (slave w) v a"
    by (simp add: set_sql_followers [OF planning_axioms])
  show ?thesis
    using assms invalidate_followers_run [OF assms(1), of a] mem
    by (auto simp: holds_del holds_del_other split: if_splits)
qed

lemma invalidate_feed_run:
  "faults w = [] \<Longrightarrow> InvalidateFeed L R u w =
     (Inr (), w\<lparr>feed_redis := r_del R (feed_redis w) [MakeKey L u]\<rparr>)"
  by (simp add: InvalidateFeed_def)

lemma invalidate_feed_holds:
  assumes "feed_holds L R r v ps"
  shows "feed_holds L R (r_del R r [MakeKey L u]) v (if v = u then [] else ps)"
  using assms holds_del [of v "[u]" r] holds_del_other [of v "[u]" r] by auto

text \<open>A failing call never leaves a part of an invalidation.\<close>

lemma invalidate_followers_robust:
  fixes w :: "('r, 'z) world_scheme"
  assumes "feed_holds L R r v ps" and "qs = (if follows d v a then [] else ps)"
  shows "robust (\<lambda>w :: ('r, 'z) world_scheme. slave w = d \<and> feed_redis w = r) (InvalidateFeedsOfFollowersOf L R P a)
    (\<lambda>_ w. feed_holds L R (feed_redis w) v qs) (\<lambda>w. feed_redis w = r \<or> feed_holds L R (feed_redis w) v qs)"
proof -
  let ?at = "\<lambda>w :: ('r, 'z) world_scheme. slave w = d \<and> feed_redis w = r" and ?us = "sql_followers P a d"
  have mem: "v \<in> set ?us \<longleftrightarrow> follows d v a" by (simp add: set_sql_followers [OF planning_axioms])
  have del: "feed_holds L R (r_del R r (map (MakeKey L) ?us)) v qs" using assms mem by (simp add: holds_del holds_del_other)
  have none: "feed_holds L R r v qs" if "?us = []" using mem that assms by simp
  show ?thesis
    unfolding InvalidateFeedsOfFollowersOf_def GetFollowers_def
  proof (rule robust_bind)
    show "robust ?at (from_slave (sql_followers P a)) (\<lambda>v w. v = ?us \<and> ?at w)
        (\<lambda>w. feed_redis w = r \<or> feed_holds L R (feed_redis w) v qs)"
      by (rule robust_conseq [OF robust_from_slave [of ?at]]) auto
    show "robust (\<lambda>w. us = ?us \<and> ?at w) (if us = [] then ret () else redis_put (\<lambda>r. r_del R r (map (MakeKey L) us)))
        (\<lambda>_ w. feed_holds L R (feed_redis w) v qs) (\<lambda>w. feed_redis w = r \<or> feed_holds L R (feed_redis w) v qs)" for us
      by (rule robust_if; (rule robust_ret | rule robust_redis_put)) (use del none in auto)
  qed
qed

lemma invalidate_feed_robust:
  fixes w :: "('r, 'z) world_scheme"
  assumes "feed_holds L R r v ps" and "qs = (if v = u then [] else ps)"
  shows "robust (\<lambda>w :: ('r, 'z) world_scheme. feed_redis w = r) (InvalidateFeed L R u)
    (\<lambda>_ w. feed_holds L R (feed_redis w) v qs) (\<lambda>w. feed_redis w = r \<or> feed_holds L R (feed_redis w) v qs)"
  unfolding InvalidateFeed_def
  by (rule robust_redis_put) (use invalidate_feed_holds [OF assms(1), of u] assms(2) in auto)

subsection \<open>Whatever fails: the cache stays decodable\<close>

lemma decodable_holds:
  "cache_decodable L R r \<Longrightarrow> (\<And>v ps. feed_holds L R r v ps \<Longrightarrow> \<exists>qs. feed_holds L R (f r) v qs) \<Longrightarrow>
   cache_decodable L R (f r)"
  unfolding cache_decodable_def by blast

lemma decodable_steps:
  assumes "cache_decodable L R r"
  shows "ps \<noteq> [] \<Longrightarrow> cache_decodable L R (r_rpush R r (key u) (map (SerializePost L) ps))"
    and "cache_decodable L R (r_lpush R r (key u) (SerializePost L p))"
    and "cache_decodable L R (r_ltrim R r (key u) 0 (int kMaxFeedSize - 1))"
    and "cache_decodable L R (r_del R r (map (MakeKey L) us))"
proof -
  show "cache_decodable L R (r_rpush R r (key u) (map (SerializePost L) ps))" if "ps \<noteq> []"
    using assms holds_other(1) holds_rpush [OF _ that] unfolding cache_decodable_def by metis
  show "cache_decodable L R (r_lpush R r (key u) (SerializePost L p))"
    using assms holds_other(2) holds_lpush unfolding cache_decodable_def by metis
  show "cache_decodable L R (r_ltrim R r (key u) 0 (int kMaxFeedSize - 1))"
    using assms holds_other(3) holds_trim unfolding cache_decodable_def by metis
  show "cache_decodable L R (r_del R r (map (MakeKey L) us))"
    using assms holds_del holds_del_other unfolding cache_decodable_def by metis
qed

lemma decodable_ops:
  fixes dummy :: "('r, 'z) world_scheme"
  defines "I \<equiv> (\<lambda>w :: ('r, 'z) world_scheme. cache_decodable L R (feed_redis w))"
  shows "preserves I (GetFeed L R P u offset limit)"
    and "preserves I (OnPostCreated L R P a i t)"
    and "preserves I (InvalidateFeedsOfFollowersOf L R P a)"
    and "preserves I (InvalidateFeed L R u)"
proof -
  note put = pres_redis_put [where I = "cache_decodable L R"]
  show "preserves I (GetFeed L R P u offset limit)"
    unfolding I_def GetFeed_def Let_def LoadFeedFromDb_def
    by (intro pres_intros put decodable_steps) auto
  show "preserves I (OnPostCreated L R P a i t)"
    unfolding I_def OnPostCreated_def Let_def GetFollowers_def
    by (intro pres_intros put decodable_steps)
  show "preserves I (InvalidateFeedsOfFollowersOf L R P a)"
    unfolding I_def InvalidateFeedsOfFollowersOf_def GetFollowers_def
    by (intro pres_intros put decodable_steps)
  show "preserves I (InvalidateFeed L R u)"
    unfolding I_def InvalidateFeed_def
    using decodable_steps(4) [of _ "[u]"] by (intro pres_intros put) simp
qed

end

section \<open>Every reachable cache\<close>

text \<open>
  The operations of the cache in any order, each with any faults, while the databases and the
  message queue change at will.
\<close>

inductive cache_reach :: "lib \<Rightarrow> 'r redis \<Rightarrow> planner \<Rightarrow> 'r world \<Rightarrow> bool"
  for L :: lib and R :: "'r redis" and P :: planner
where
  start: "(\<And>u. r_type R (feed_redis w) (MakeKey L u) = TNone) \<Longrightarrow> cache_reach L R P w"
| get_feed: "cache_reach L R P w \<Longrightarrow> cache_reach L R P (snd (GetFeed L R P u offset limit w))"
| post_created: "cache_reach L R P w \<Longrightarrow> cache_reach L R P (snd (OnPostCreated L R P a i t w))"
| invalidate_followers: "cache_reach L R P w \<Longrightarrow> cache_reach L R P (snd (InvalidateFeedsOfFollowersOf L R P a w))"
| invalidate: "cache_reach L R P w \<Longrightarrow> cache_reach L R P (snd (InvalidateFeed L R u w))"
| environment: "cache_reach L R P w \<Longrightarrow>
    cache_reach L R P (w\<lparr>faults := fs, master := m, slave := d, published := ms\<rparr>)"

lemma feed_slice_error: "feed_slice xs offset limit = Inl e \<Longrightarrow> e = Undefined_Behaviour"
  by (auto simp: feed_slice_def Let_def split: if_splits)

lemma int32_result_error: "int32_result i = Inl e \<Longrightarrow> e = Undefined_Behaviour"
  by (auto simp: int32_result_def split: if_splits)

lemma call_errors:
  fixes w :: "('r, 'z) world_scheme"
  shows "from_slave q w = (Inl e, w') \<Longrightarrow> e = ServiceError ''postgres''"
    and "redis_get p w = (Inl e, w') \<Longrightarrow> e = ServiceError ''redis''"
    and "redis_put f w = (Inl e, w') \<Longrightarrow> e = ServiceError ''redis''"
  by (auto simp: from_slave_def redis_get_def redis_put_def ext_def Let_def
      split: list.splits fault.splits)

lemma call_reads:
  fixes w :: "('r, 'z) world_scheme"
  shows "redis_get p w = (Inr x, w') \<Longrightarrow> x = p (feed_redis w) \<and> feed_redis w' = feed_redis w"
  by (auto simp: redis_get_def ext_def Let_def split: list.splits fault.splits)

lemma feed_slice_negative:
  assumes "limit < 0" and "- limit \<le> offset" and "offset < int (length xs)" and "length xs \<le> 1000"
  shows "feed_slice xs offset limit = Inl Undefined_Behaviour"
proof -
  let ?b = "word_of_int offset :: size_t" and ?n = "of_nat (length xs) :: size_t"
  have b: "unat ?b = nat offset" and n: "unat ?n = length xs"
    using assms by (simp_all add: unat_of_nat unsigned_of_int take_bit_int_eq_self)
  have "?b + word_of_int limit = word_of_int (offset + limit)" by simp
  then have s: "unat (?b + word_of_int limit) = nat (offset + limit)"
    using assms by (simp only: unsigned_of_int) (simp add: take_bit_int_eq_self)
  have "?b + word_of_int limit < ?b" "?b < ?n"
    using assms by (simp_all add: word_less_nat_alt s b n)
  then show ?thesis by (auto simp: feed_slice_def Let_def min_def not_le)
qed

lemma feed_slice_negative_offset:
  assumes "0 < k" and "k \<le> 1000" and "length xs \<le> 1000"
  shows "feed_slice xs (- int k) limit = Inr []"
proof -
  have "(- int k) mod 2 ^ 64 = (2 ^ 64 + (- int k)) mod 2 ^ 64" by (simp only: mod_add_self1)
  also have "\<dots> = 2 ^ 64 + (- int k)"
    using assms by (intro mod_pos_pos_trivial) auto
  finally have "unat (word_of_int (- int k) :: size_t) = nat (2 ^ 64 + (- int k))"
    by (simp only: unsigned_of_int) (simp only: take_bit_eq_mod len_of_numeral_defs, simp)
  moreover have "unat (of_nat (length xs) :: size_t) = length xs"
    using assms by (simp add: unat_of_nat)
  ultimately have "(of_nat (length xs) :: size_t) \<le> word_of_int (- int k)"
    using assms by (simp add: word_le_nat_alt)
  then show ?thesis by (simp add: feed_slice_def)
qed

context feed_env
begin

lemma reach_decodable: "cache_reach L R P w \<Longrightarrow> cache_decodable L R (feed_redis w)"
proof (induction rule: cache_reach.induct)
  case (start w)
  then have "feed_holds L R (feed_redis w) u []" for u
    using none_list [of "feed_redis w" "key u"] by (simp add: feed_holds_def)
  then show ?case unfolding cache_decodable_def by blast
qed (auto dest: decodable_ops [THEN preservesD])

lemma get_feed_errors:
  fixes w :: "('r, 'z) world_scheme"
  assumes "cache_decodable L R (feed_redis w)" and "fst (GetFeed L R P u offset limit w) = Inl e"
  shows "e = ServiceError ''redis'' \<or> e = ServiceError ''postgres'' \<or> e = Undefined_Behaviour"
proof -
  have decode: "sum_list_map (DeserializePost L) (r_lrange R (feed_redis w) (key u) i j) \<noteq> Inl e" for i j
  proof -
    obtain ps where "feed_holds L R (feed_redis w) u ps"
      using assms(1) unfolding cache_decodable_def by blast
    then have "r_lrange R (feed_redis w) (key u) i j = map (SerializePost L) (redis_slice ps i j)"
      by (simp add: feed_holds_def lrange redis_slice_map)
    then show ?thesis by (simp add: deserialize_all)
  qed
  show ?thesis
    using assms(2) decode
    by (auto simp: GetFeed_def LoadFeedFromDb_def bind_def Let_def sum_bind_eq_Inl
        split: prod.splits sum.splits if_splits dest!: call_errors call_reads feed_slice_error int32_result_error)
qed

lemma on_post_created_holds:
  assumes "faults w = []" and "db_ok (slave w)" and "feed_holds L R (feed_redis w) v ps"
  shows "feed_holds L R (fold (push_front L R (SerializePost L p)) (sql_followers P a (slave w)) (feed_redis w)) v
     (if follows (slave w) v a \<and> ps \<noteq> [] then take 1000 (p # ps) else ps)"
  using holds_push_all [OF distinct_followers [OF assms(2)] assms(3)]
  by (simp add: set_sql_followers [OF planning_axioms])

lemma bounded_holds:
  assumes "cache_decodable L R r"
  shows "cache_bounded L R r \<longleftrightarrow> (\<forall>u ps. feed_holds L R r u ps \<longrightarrow> length ps \<le> 1000)"
proof -
  have "length (r_list R r (key u)) = length ps" if "feed_holds L R r u ps" for u ps
    using that by (simp add: feed_holds_def)
  then show ?thesis
    using assms unfolding cache_bounded_def cache_decodable_def kMaxFeedSize_def by metis
qed

lemma bounded_step:
  assumes "cache_decodable L R r" and "cache_bounded L R r" and "cache_decodable L R r'"
    and "\<And>v ps. feed_holds L R r v ps \<Longrightarrow> length ps \<le> 1000 \<Longrightarrow> \<exists>qs. feed_holds L R r' v qs \<and> length qs \<le> 1000"
  shows "cache_bounded L R r'"
  unfolding bounded_holds [OF assms(3)]
proof (intro allI impI)
  fix v qs assume "feed_holds L R r' v qs"
  obtain ps where "feed_holds L R r v ps" using assms(1) unfolding cache_decodable_def by blast
  moreover from this have "length ps \<le> 1000" using assms(2) bounded_holds [OF assms(1)] by blast
  ultimately obtain qs' where "feed_holds L R r' v qs'" "length qs' \<le> 1000" using assms(4) by blast
  with \<open>feed_holds L R r' v qs\<close> show "length qs \<le> 1000" using holds_unique by blast
qed

lemma get_feed_bounded:
  assumes "faults w = []" and "cache_decodable L R (feed_redis w)" and "cache_bounded L R (feed_redis w)"
  shows "cache_bounded L R (feed_redis (snd (GetFeed L R P u offset limit w)))"
proof (rule bounded_step [OF assms(2,3)])
  show "cache_decodable L R (feed_redis (snd (GetFeed L R P u offset limit w)))"
    using decodable_ops(1) assms(2) by (rule preservesD)
  fix v ps assume h: "feed_holds L R (feed_redis w) v ps" "length ps \<le> 1000"
  obtain us where us: "feed_holds L R (feed_redis w) u us"
    using assms(2) unfolding cache_decodable_def by blast
  show "\<exists>qs. feed_holds L R (feed_redis (snd (GetFeed L R P u offset limit w))) v qs \<and> length qs \<le> 1000"
  proof (cases "us = []")
    case True
    note miss = get_feed_miss [OF assms(1) us [unfolded True]]
    show ?thesis
    proof (cases "v = u")
      case True
      with holds_fill [OF h(1) [unfolded True], of "feed_of_db P u (slave w)"] h(2) show ?thesis
        by (auto simp: miss intro!: exI split: if_splits)
    next
      case False
      with h show ?thesis by (auto simp: miss holds_fill_other)
    qed
  next
    case False
    with h show ?thesis by (auto simp: get_feed_hit [OF assms(1) us])
  qed
qed

lemma on_post_created_bounded:
  assumes "faults w = []" and "db_ok (slave w)"
    and "cache_decodable L R (feed_redis w)" and "cache_bounded L R (feed_redis w)"
  shows "cache_bounded L R (feed_redis (snd (OnPostCreated L R P a i t w)))"
proof (rule bounded_step [OF assms(3,4)])
  show "cache_decodable L R (feed_redis (snd (OnPostCreated L R P a i t w)))"
    using decodable_ops(2) assms(3) by (rule preservesD)
  fix v ps assume "feed_holds L R (feed_redis w) v ps" "length ps \<le> 1000"
  with on_post_created_holds [OF assms(1,2)]
  show "\<exists>qs. feed_holds L R (feed_redis (snd (OnPostCreated L R P a i t w))) v qs \<and> length qs \<le> 1000"
    by (fastforce simp: on_post_created_run [OF assms(1)])
qed

lemma degenerate_hit:
  assumes "faults w = []" and "feed_holds L R (feed_redis w) u ps" and "ps \<noteq> []"
    and "0 < k" and "k \<le> length ps" and "length ps \<le> 1000"
  shows "fst (GetFeed L R P u 0 0 w) = Inr ps
       \<and> fst (GetFeed L R P u (- int k) (int k) w) = Inr (drop (length ps - k) ps)"
  using assms
  by (simp add: get_feed_hit int32_result_def in_int32_def)
    (simp add: redis_slice_def Let_def nat_diff_distrib)

lemma degenerate_miss:
  assumes "faults w = []" and "feed_holds L R (feed_redis w) u []" and "0 < k" and "k \<le> 1000"
  shows "fst (GetFeed L R P u 0 0 w) = Inr []
       \<and> fst (GetFeed L R P u (- int k) (int k) w) = Inr []"
  using feed_slice_ok [of 0 0 "feed_of_db P u (slave w)"] length_feed_of_db [of P u "slave w"]
    feed_slice_negative_offset [OF assms(3,4), of "feed_of_db P u (slave w)" "int k"]
  by (simp add: get_feed_miss [OF assms(1,2)] slice_of_def)

end

interpretation ref_feed: feed_env ref_lib ref_redis ref_planner
  by (intro feed_env.intro ref_library_axioms ref_lists_axioms ref_planning_axioms)

lemmas ref_feed_axioms = ref_feed.feed_env_axioms


section \<open>A concrete state\<close>

text \<open>Users 1, 2 and 3; user 1 follows user 2, who wrote two posts.\<close>

definition sample_user :: "uuid \<Rightarrow> user_row" where
  "sample_user u = \<lparr>ur_id = u, ur_first_name = ''Ann'', ur_second_name = ''Lee'', ur_birthdate = 7305,
     ur_sex = ''f'', ur_biography = ''bio'', ur_city = ''Oslo'', ur_password_hash = ''3132'', ur_salt = ''ab''\<rparr>"

definition sample_db :: db where
  "sample_db = \<lparr>users = map sample_user [Uuid 1, Uuid 2, Uuid 3],
     friendships = [\<lparr>fr_user = Uuid 1, fr_friend = Uuid 2, fr_created = 1\<rparr>],
     posts = [\<lparr>po_id = Uuid 10, po_author = Uuid 2, po_text = ''one'', po_created = 5\<rparr>,
              \<lparr>po_id = Uuid 11, po_author = Uuid 2, po_text = ''two'', po_created = 6\<rparr>],
     tokens = []\<rparr>"

definition sample_feed :: "feed_post list" where
  "sample_feed = [\<lparr>fp_post_id = Uuid 11, fp_text = ''two'', fp_author = Uuid 2\<rparr>,
                  \<lparr>fp_post_id = Uuid 10, fp_text = ''one'', fp_author = Uuid 2\<rparr>]"

lemma length_sample_feed: "length sample_feed = 2"
  by (simp add: sample_feed_def)

definition cached_keyspace :: "uuid \<Rightarrow> feed_post list \<Rightarrow> keyspace" where
  "cached_keyspace u ps = empty_keyspace(MakeKey ref_lib u := ListV (map (SerializePost ref_lib) ps))"

definition sample_world :: "keyspace \<Rightarrow> keyspace world" where
  "sample_world r = \<lparr>faults = [], master = sample_db, slave = sample_db, feed_redis = r, published = []\<rparr>"

lemma sample_world_simps [simp]:
  "faults (sample_world r) = []" "slave (sample_world r) = sample_db"
  "master (sample_world r) = sample_db" "feed_redis (sample_world r) = r"
  by (simp_all add: sample_world_def)

lemma sample_db_ok: "db_ok sample_db"
  by (simp add: db_ok_def sample_db_def sample_user_def)

lemma sample_feed_of_db: "feed_of_db ref_planner (Uuid 1) sample_db = sample_feed"
  by (simp add: feed_of_db_def sql_feed_def feed_rows_def sample_db_def ref_planner_def
      feed_of_row_def sample_feed_def)

lemma sample_follows: "follows sample_db (Uuid 1) (Uuid 2)"
  by (simp add: follows_def sample_db_def)

lemma empty_holds: "feed_holds ref_lib ref_redis empty_keyspace u []"
  by (simp add: feed_holds_def ref_redis_def r_list_def empty_keyspace_def)

lemma cached_holds: "feed_holds ref_lib ref_redis (cached_keyspace u ps) v (if v = u then ps else [])"
  by (auto simp: feed_holds_def ref_redis_def r_list_def empty_keyspace_def cached_keyspace_def
      ref_library.MakeKey_inject)

lemma empty_reach: "cache_reach ref_lib ref_redis ref_planner (sample_world empty_keyspace)"
  by (rule cache_reach.start) (simp add: ref_redis_def empty_keyspace_def)

lemma cached_decodable: "cache_decodable ref_lib ref_redis (cached_keyspace u ps)"
  unfolding cache_decodable_def using cached_holds by blast

section \<open>Properties\<close>

text \<open>
  C2. A page of the feed. When the cached feed of a user, if there is one, is the feed of the
  replica, then for every non-negative offset and positive limit whose sum is an \<open>int\<close>,
  whatever calls fail: \<open>GetFeed\<close> returns exactly that page of the feed, from the cache or from the
  database, and leaves the whole feed cached, or it throws because a call failed and the cached
  feed is still the feed of the replica or none. It touches no other user's feed and nothing else.
\<close>

theorem get_feed_returns_page:
  fixes w :: "('r, 'z) world_scheme"
  assumes "feed_env L R P" and "feed_coherent L R P (slave w) (feed_redis w) u"
    and "0 \<le> offset" and "0 < limit" and "offset + limit < 2 ^ 31"
    and "GetFeed L R P u offset limit w = (x, w')"
  shows "(x = Inr (take (nat limit) (drop (nat offset) (feed_of_db P u (slave w)))) \<and> feed_holds L R (feed_redis w') u (feed_of_db P u (slave w))
        \<or> (\<exists>e. x = Inl e) \<and> failures w' < failures w \<and> feed_coherent L R P (slave w) (feed_redis w') u)
      \<and> (\<forall>v ps. v \<noteq> u \<longrightarrow> feed_holds L R (feed_redis w') v ps = feed_holds L R (feed_redis w) v ps)
      \<and> only_feeds w w'"
proof -
  note robust = feed_env.get_feed_robust [OF assms(1-5) refl]
  have "only_feeds w w'"
    using preservesD [OF feed_env.get_feed_only [OF assms(1)] only_feeds_refl, of w u offset limit] assms(6) by simp
  then show ?thesis
    using robust_returns [OF robust, of w] robust_throws [OF robust, of w] assms(6) by (cases x) (auto simp: slice_of_def)
qed

theorem get_feed_returns_page_witness:
  "\<exists>r. GetFeed ref_lib ref_redis ref_planner (Uuid 1) 1 10 (sample_world empty_keyspace)
        = (Inr [\<lparr>fp_post_id = Uuid 10, fp_text = ''one'', fp_author = Uuid 2\<rparr>], r)
      \<and> feed_holds ref_lib ref_redis (feed_redis r) (Uuid 1) sample_feed"
proof -
  let ?w = "sample_world empty_keyspace"
  have "feed_coherent ref_lib ref_redis ref_planner (slave ?w) (feed_redis ?w) (Uuid 1)" "failures ?w = 0"
    by (simp_all add: feed_coherent_def empty_holds failures_def)
  with get_feed_returns_page [OF ref_feed_axioms this(1), of 1 10, OF _ _ _ surjective_pairing] show ?thesis
    by (cases "GetFeed ref_lib ref_redis ref_planner (Uuid 1) 1 10 ?w")
      (auto simp: sample_feed_of_db; auto simp: sample_feed_def)
qed

text \<open>
  C26. Materialisation. When a post is created, the follower feeds that are cached get it at the
  front and keep their newest thousand entries; feeds that are not cached, and those of users who
  do not follow the author, stay as they are.
\<close>

theorem on_post_created_pushes:
  assumes "feed_env L R P" and "faults w = []" and "db_ok (slave w)"
  shows "\<exists>r. OnPostCreated L R P author post_id text w = (Inr (), w\<lparr>feed_redis := r\<rparr>) \<and>
    (\<forall>v ps. feed_holds L R (feed_redis w) v ps \<longrightarrow>
       feed_holds L R r v
         (if follows (slave w) v author \<and> ps \<noteq> []
          then take 1000 (\<lparr>fp_post_id = post_id, fp_text = text, fp_author = author\<rparr> # ps) else ps))"
  by (intro exI conjI allI impI, rule feed_env.on_post_created_run [OF assms(1,2)])
    (rule feed_env.on_post_created_holds [OF assms])

theorem on_post_created_pushes_witness:
  "\<exists>r. OnPostCreated ref_lib ref_redis ref_planner (Uuid 2) (Uuid 12) ''three''
          (sample_world (cached_keyspace (Uuid 1) sample_feed))
        = (Inr (), (sample_world (cached_keyspace (Uuid 1) sample_feed))\<lparr>feed_redis := r\<rparr>)
      \<and> feed_holds ref_lib ref_redis r (Uuid 1)
          (\<lparr>fp_post_id = Uuid 12, fp_text = ''three'', fp_author = Uuid 2\<rparr> # sample_feed)"
proof -
  let ?w = "sample_world (cached_keyspace (Uuid 1) sample_feed)"
  have h: "feed_holds ref_lib ref_redis (feed_redis ?w) (Uuid 1) sample_feed"
    using cached_holds [of "Uuid 1" sample_feed "Uuid 1"] by simp
  obtain r where r: "OnPostCreated ref_lib ref_redis ref_planner (Uuid 2) (Uuid 12) ''three'' ?w
        = (Inr (), ?w\<lparr>feed_redis := r\<rparr>)"
    and hold: "\<forall>v ps. feed_holds ref_lib ref_redis (feed_redis ?w) v ps \<longrightarrow>
       feed_holds ref_lib ref_redis r v (if follows (slave ?w) v (Uuid 2) \<and> ps \<noteq> []
          then take 1000 (\<lparr>fp_post_id = Uuid 12, fp_text = ''three'', fp_author = Uuid 2\<rparr> # ps) else ps)"
    using on_post_created_pushes [OF ref_feed_axioms, of ?w "Uuid 2" "Uuid 12" "''three''"] sample_db_ok
    by auto
  from hold [rule_format, OF h] r show ?thesis
    by (auto simp: sample_follows) (auto simp: sample_feed_def)
qed

text \<open>
  C27. Invalidation. Invalidating the feeds of an author's followers empties the cached feed of
  every follower the replica knows and of nobody else; invalidating one user's feed empties that
  feed alone. When a call fails, the invalidation was done as a whole or nothing has changed.
\<close>

theorem invalidation_is_exact:
  fixes w :: "('r, 'z) world_scheme"
  assumes "feed_env L R P" and "feed_holds L R (feed_redis w) v ps"
    and "InvalidateFeedsOfFollowersOf L R P author w = (x, w')" and "InvalidateFeed L R u w = (y, w'')"
  shows "(feed_holds L R (feed_redis w') v (if follows (slave w) v author then [] else ps)
        \<or> (\<exists>e. x = Inl e) \<and> failures w' < failures w \<and> feed_redis w' = feed_redis w)
      \<and> (feed_holds L R (feed_redis w'') v (if v = u then [] else ps)
        \<or> (\<exists>e. y = Inl e) \<and> failures w'' < failures w \<and> feed_redis w'' = feed_redis w)"
proof
  note robust = feed_env.invalidate_followers_robust [OF assms(1,2) refl, of "slave w" author]
  show "feed_holds L R (feed_redis w') v (if follows (slave w) v author then [] else ps)
      \<or> (\<exists>e. x = Inl e) \<and> failures w' < failures w \<and> feed_redis w' = feed_redis w"
    using robust_returns [OF robust, of w] robust_throws [OF robust, of w] assms(3) by (cases x) auto
  note robust = feed_env.invalidate_feed_robust [OF assms(1,2) refl, of u]
  show "feed_holds L R (feed_redis w'') v (if v = u then [] else ps)
      \<or> (\<exists>e. y = Inl e) \<and> failures w'' < failures w \<and> feed_redis w'' = feed_redis w"
    using robust_returns [OF robust, of w] robust_throws [OF robust, of w] assms(4) by (cases y) auto
qed

theorem invalidation_is_exact_witness:
  "feed_holds ref_lib ref_redis (feed_redis (snd (InvalidateFeedsOfFollowersOf ref_lib ref_redis ref_planner
       (Uuid 2) (sample_world (cached_keyspace (Uuid 1) sample_feed))))) (Uuid 1) []"
  using invalidation_is_exact [OF ref_feed_axioms, of "sample_world (cached_keyspace (Uuid 1) sample_feed)"
      "Uuid 1" sample_feed "Uuid 2", OF _ surjective_pairing surjective_pairing] cached_holds [of "Uuid 1" sample_feed "Uuid 1"]
  by (auto simp: sample_follows failures_def)

text \<open>
  Decodability. From a Redis without feeds, after any sequence of cache operations, with any
  of their calls failing before or after taking effect and the databases changing at will in
  between, every cached feed is a list of serialized posts, and reading one fails only because a
  service failed or its indices have no meaning, never on decoding.
\<close>

lemma reachable_cache_decodes:
  assumes "feed_env L R P" and "cache_reach L R P w"
  shows "cache_decodable L R (feed_redis w)
       \<and> (\<forall>u offset limit e. fst (GetFeed L R P u offset limit w) = Inl e \<longrightarrow>
            e = ServiceError ''redis'' \<or> e = ServiceError ''postgres'' \<or> e = Undefined_Behaviour)"
  using feed_env.reach_decodable [OF assms] feed_env.get_feed_errors [OF assms(1)] by blast

lemma reachable_cache_decodes_witness:
  "cache_decodable ref_lib ref_redis (feed_redis (snd (GetFeed ref_lib ref_redis ref_planner (Uuid 1) 0 10
     (snd (OnPostCreated ref_lib ref_redis ref_planner (Uuid 2) (Uuid 12) ''three'' (sample_world empty_keyspace))))))"
  by (intro reachable_cache_decodes [OF ref_feed_axioms, THEN conjunct1] cache_reach.get_feed
      cache_reach.post_created empty_reach)

text \<open>
  The size bound. While no call fails, every cached feed has at most \<open>kMaxFeedSize\<close> entries
  after a read that filled the cache and after a materialisation, if it had before.
\<close>

lemma cache_stays_bounded:
  assumes "feed_env L R P" and "faults w = []" and "db_ok (slave w)"
    and "cache_decodable L R (feed_redis w)" and "cache_bounded L R (feed_redis w)"
  shows "cache_bounded L R (feed_redis (snd (GetFeed L R P u offset limit w)))
       \<and> cache_bounded L R (feed_redis (snd (OnPostCreated L R P author post_id text w)))"
  using feed_env.get_feed_bounded [OF assms(1,2,4,5)] feed_env.on_post_created_bounded [OF assms]
  by blast

lemma cache_stays_bounded_example:
  "cache_bounded ref_lib ref_redis (feed_redis (snd (OnPostCreated ref_lib ref_redis ref_planner
     (Uuid 2) (Uuid 12) ''three'' (sample_world (cached_keyspace (Uuid 1) sample_feed)))))"
proof -
  let ?r = "cached_keyspace (Uuid 1) sample_feed"
  have "feed_holds ref_lib ref_redis ?r u ps \<Longrightarrow> length ps \<le> 1000" for u ps
    using ref_feed.holds_unique [OF cached_holds [of "Uuid 1" sample_feed u], of ps]
    by (cases "u = Uuid 1") (auto simp: length_sample_feed)
  then have "cache_bounded ref_lib ref_redis (feed_redis (sample_world ?r))"
    by (simp add: ref_feed.bounded_holds [OF cached_decodable])
  with cache_stays_bounded [OF ref_feed_axioms, of "sample_world ?r"] show ?thesis
    by (simp add: sample_db_ok cached_decodable)
qed

text \<open>
  Pages outside the documented range depend on the cache. With limit 0 and offset 0 a cached
  feed is returned whole and an uncached one empty; with offset \<open>-k\<close> and limit \<open>k\<close> a
  cached feed returns its last \<open>k\<close> posts and an uncached one nothing.
\<close>

lemma degenerate_pages_depend_on_cache:
  assumes "feed_env L R P" and "faults w = []" and "faults w' = []"
    and "feed_holds L R (feed_redis w) u ps" and "ps \<noteq> []"
    and "feed_holds L R (feed_redis w') u []"
    and "0 < k" and "k \<le> length ps" and "length ps \<le> 1000"
  shows "fst (GetFeed L R P u 0 0 w) = Inr ps \<and> fst (GetFeed L R P u 0 0 w') = Inr []
       \<and> fst (GetFeed L R P u (- int k) (int k) w) = Inr (drop (length ps - k) ps)
       \<and> fst (GetFeed L R P u (- int k) (int k) w') = Inr []"
  using feed_env.degenerate_hit [OF assms(1,2,4,5,7-9)] feed_env.degenerate_miss [OF assms(1,3,6,7)]
    assms(8,9) by auto

lemma degenerate_pages_depend_on_cache_witness:
  "fst (GetFeed ref_lib ref_redis ref_planner (Uuid 1) 0 0 (sample_world (cached_keyspace (Uuid 1) sample_feed)))
     = Inr sample_feed
   \<and> fst (GetFeed ref_lib ref_redis ref_planner (Uuid 1) 0 0 (sample_world empty_keyspace)) = Inr []"
  using degenerate_pages_depend_on_cache [OF ref_feed_axioms,
      of "sample_world (cached_keyspace (Uuid 1) sample_feed)" "sample_world empty_keyspace" "Uuid 1" sample_feed 1]
    cached_holds [of "Uuid 1" sample_feed "Uuid 1"] empty_holds [of "Uuid 1"]
  by (simp add: sample_feed_def)

text \<open>
  A negative limit. On a cache miss, an offset inside the feed and a negative limit no larger
  than the offset make the code copy a range whose end lies before its begin.
\<close>

lemma negative_limit_undefined:
  assumes "feed_env L R P" and "faults w = []" and "feed_holds L R (feed_redis w) u []"
    and "limit < 0" and "- limit \<le> offset" and "offset < int (length (feed_of_db P u (slave w)))"
  shows "fst (GetFeed L R P u offset limit w) = Inl Undefined_Behaviour"
  using feed_env.get_feed_miss [OF assms(1-3)] feed_slice_negative [OF assms(4-6)]
    length_feed_of_db [of P u "slave w"] by simp

lemma negative_limit_undefined_witness:
  "fst (GetFeed ref_lib ref_redis ref_planner (Uuid 1) 1 (- 1) (sample_world empty_keyspace)) = Inl Undefined_Behaviour"
  by (rule negative_limit_undefined [OF ref_feed_axioms])
    (simp_all add: empty_holds sample_feed_of_db sample_feed_def)

text \<open>
  Overflow. On a cache hit, an offset and a limit whose sum exceeds \<open>int\<close> make the index
  computation overflow.
\<close>

lemma page_index_overflow:
  assumes "feed_env L R P" and "faults w = []" and "feed_holds L R (feed_redis w) u ps"
    and "ps \<noteq> []" and "2 ^ 31 \<le> offset + limit"
  shows "fst (GetFeed L R P u offset limit w) = Inl Undefined_Behaviour"
  using feed_env.get_feed_hit [OF assms(1-4)] assms(5)
  by (simp add: int32_result_def in_int32_def)

lemma page_index_overflow_witness:
  "fst (GetFeed ref_lib ref_redis ref_planner (Uuid 1) 2147483647 10
     (sample_world (cached_keyspace (Uuid 1) sample_feed))) = Inl Undefined_Behaviour"
  using page_index_overflow [OF ref_feed_axioms, of "sample_world (cached_keyspace (Uuid 1) sample_feed)"
      "Uuid 1" sample_feed 2147483647 10] cached_holds [of "Uuid 1" sample_feed "Uuid 1"]
  by (simp add: sample_feed_def)

end
