(* ===== verification/Posts.thy ===== *)
theory Posts
  imports Feed_Cache
begin

text \<open>
  The post and friendship handlers (\<open>src/post/*_handler.cpp\<close>, \<open>src/friend/\<close>), the
  publisher of post events and the consumer that materialises them. A handler returns a status
  and a body; an exception that leaves a handler is answered by the framework. The authenticated
  user comes from the request context, identifiers and times that the database generates are
  arguments.
\<close>

section \<open>Requests\<close>

record http_request =
  path_arg :: string
  args :: "(string \<times> string) list"

definition HasArg :: "http_request \<Rightarrow> string \<Rightarrow> bool" where
  "HasArg req name \<longleftrightarrow> map_of (args req) name \<noteq> None"

text \<open>\<open>GetArg\<close> returns the empty string when there is no such argument.\<close>

definition GetArg :: "http_request \<Rightarrow> string \<Rightarrow> string" where
  "GetArg req name = (case map_of (args req) name of None \<Rightarrow> [] | Some v \<Rightarrow> v)"

definition error_json :: "string \<Rightarrow> json" where
  "error_json text = JObject [(''error'', JString text)]"

text \<open>\<open>AsSingleRow\<close> accepts exactly one row.\<close>

definition as_single_row :: "'a list \<Rightarrow> exn + 'a" where
  "as_single_row rows = (case rows of [x] \<Rightarrow> Inr x | _ \<Rightarrow> Inl NonSingleRow)"

text \<open>
  The parsing block that most handlers open with: a \<open>std::runtime_error\<close> becomes a bad
  request with the body given, any other exception goes on.
\<close>

definition parse_or_bad_request ::
  "exn + 'a \<Rightarrow> 'b \<Rightarrow> ('a \<Rightarrow> ('s, http_status \<times> 'b) eff) \<Rightarrow> ('s, http_status \<times> 'b) eff"
where
  "parse_or_bad_request parsed body k =
     (case parsed of
        Inl e \<Rightarrow> if is_runtime_error e then ret (kBadRequest, body) else throw e
      | Inr x \<Rightarrow> k x)"

section \<open>Publishing post events\<close>

definition post_event :: "lib \<Rightarrow> uuid \<Rightarrow> uuid \<Rightarrow> string \<Rightarrow> string" where
  "post_event L author_id post_id text = json_dump L (JObject
     [(''postId'', JString (to_str L post_id)),
      (''postText'', JString text),
      (''author_user_id'', JString (to_str L author_id))])"

definition Publish :: "lib \<Rightarrow> string \<Rightarrow> uuid \<Rightarrow> uuid \<Rightarrow> string \<Rightarrow> (('r, 'z) world_scheme, unit) eff" where
  "Publish L exchange author_id post_id text =
     (let msg = post_event L author_id post_id text;
          routing_key = ''post.created.'' @ to_str L author_id
      in publish exchange routing_key msg)"

section \<open>Post handlers\<close>

definition PostCreateHandler ::
  "lib \<Rightarrow> string \<Rightarrow> uuid \<Rightarrow> int \<Rightarrow> uuid \<Rightarrow> json_body \<Rightarrow> (('r, 'z) world_scheme, http_status \<times> json) eff"
where
  "PostCreateHandler L exchange new_id now user_id body =
     (if \<not> has_member body ''text''
      then ret (kBadRequest, error_json ''Expected body has `text` field'')
      else bind (lift_sum (field_string (JObject body) ''text'')) (\<lambda>text.
           bind (on_master (sql_insert_post new_id now user_id text)) (\<lambda>post_id.
           bind (Publish L exchange user_id post_id text) (\<lambda>_.
           ret (kOk, JObject [(''id'', JString (to_str L post_id))])))))"

definition PostUpdateHandler ::
  "lib \<Rightarrow> 'r redis \<Rightarrow> planner \<Rightarrow> json_body \<Rightarrow> (('r, 'z) world_scheme, http_status \<times> json) eff"
where
  "PostUpdateHandler L R P body =
     (if \<not> (has_member body ''id'' \<and> has_member body ''text'')
      then ret (kBadRequest, error_json ''Expected body has `id` and `text` fields'')
      else parse_or_bad_request
             (sum_bind (field_string (JObject body) ''id'') (string_generator L))
             (error_json ''Invalid UUID format'') (\<lambda>post_id.
           bind (lift_sum (field_string (JObject body) ''text'')) (\<lambda>text.
           bind (on_master (sql_update_post post_id text)) (\<lambda>result.
           bind (if result \<noteq> []
                 then bind (lift_sum (as_single_row result)) (InvalidateFeedsOfFollowersOf L R P)
                 else ret ()) (\<lambda>_.
           ret (kOk, JObject []))))))"

definition PostDeleteHandler ::
  "lib \<Rightarrow> 'r redis \<Rightarrow> planner \<Rightarrow> http_request \<Rightarrow> (('r, 'z) world_scheme, http_status \<times> string) eff"
where
  "PostDeleteHandler L R P req =
     parse_or_bad_request (string_generator L (path_arg req)) [] (\<lambda>post_id.
     bind (on_master (sql_delete_post post_id)) (\<lambda>result.
     bind (if result \<noteq> []
           then bind (lift_sum (as_single_row result)) (InvalidateFeedsOfFollowersOf L R P)
           else ret ()) (\<lambda>_.
     ret (kOk, []))))"

definition PostGetHandler ::
  "lib \<Rightarrow> http_request \<Rightarrow> (('r, 'z) world_scheme, http_status \<times> string) eff"
where
  "PostGetHandler L req =
     parse_or_bad_request (string_generator L (path_arg req)) [] (\<lambda>post_id.
     bind (from_master (sql_select_post post_id)) (\<lambda>result.
     case result of
       [] \<Rightarrow> ret (kNotFound, [])
     | row # _ \<Rightarrow> ret (kOk, json_dump L (JObject
         [(''id'', JString (to_str L (po_id row))),
          (''text'', JString (po_text row)),
          (''author_user_id'', JString (to_str L (po_author row)))]))))"

text \<open>The two arguments of the feed request; every exception of their conversion is a bad request.\<close>

definition feed_arg :: "http_request \<Rightarrow> string \<Rightarrow> int \<Rightarrow> exn + int" where
  "feed_arg req name initial = (if HasArg req name then stoi (GetArg req name) else Inr initial)"

definition feed_json :: "lib \<Rightarrow> feed_post list \<Rightarrow> json" where
  "feed_json L feed = JArray (map (\<lambda>post. JObject
     [(''id'', JString (to_str L (fp_post_id post))),
      (''text'', JString (fp_text post)),
      (''author_user_id'', JString (to_str L (fp_author post)))]) feed)"

definition PostFeedHandler ::
  "lib \<Rightarrow> 'r redis \<Rightarrow> planner \<Rightarrow> uuid \<Rightarrow> http_request \<Rightarrow> (('r, 'z) world_scheme, http_status \<times> string) eff"
where
  "PostFeedHandler L R P user_id req =
     (case sum_bind (feed_arg req ''offset'' 0) (\<lambda>offset.
           sum_bind (feed_arg req ''limit'' 10) (\<lambda>limit. Inr (offset, limit))) of
        Inl _ \<Rightarrow> ret (kBadRequest, [])
      | Inr (offset, limit) \<Rightarrow>
          bind (GetFeed L R P user_id offset limit) (\<lambda>feed.
          ret (kOk, json_dump L (feed_json L feed))))"

section \<open>Friendship handlers\<close>

definition FriendAddHandler ::
  "lib \<Rightarrow> 'r redis \<Rightarrow> int \<Rightarrow> uuid \<Rightarrow> http_request \<Rightarrow> (('r, 'z) world_scheme, http_status \<times> string) eff"
where
  "FriendAddHandler L R now user_id req =
     parse_or_bad_request (string_generator L (path_arg req)) [] (\<lambda>friend_id.
     bind (on_master (sql_insert_friendship user_id friend_id now)) (\<lambda>_.
     bind (InvalidateFeed L R user_id) (\<lambda>_.
     ret (kOk, []))))"

definition FriendDeleteHandler ::
  "lib \<Rightarrow> 'r redis \<Rightarrow> uuid \<Rightarrow> http_request \<Rightarrow> (('r, 'z) world_scheme, http_status \<times> string) eff"
where
  "FriendDeleteHandler L R user_id req =
     parse_or_bad_request (string_generator L (path_arg req)) [] (\<lambda>friend_id.
     bind (on_master (sql_delete_friendship user_id friend_id)) (\<lambda>_.
     bind (InvalidateFeed L R user_id) (\<lambda>_.
     ret (kOk, []))))"

section \<open>The consumer of post events\<close>

definition PostFeedConsumer_Process ::
  "lib \<Rightarrow> 'r redis \<Rightarrow> planner \<Rightarrow> string \<Rightarrow> (('r, 'z) world_scheme, unit) eff"
where
  "PostFeedConsumer_Process L R P message =
     bind (lift_sum (sum_bind (json_from_string L message) (\<lambda>json.
       sum_bind (sum_bind (field_string json ''postId'') (string_generator L)) (\<lambda>post_id.
       sum_bind (sum_bind (field_string json ''author_user_id'') (string_generator L)) (\<lambda>author_id.
       sum_bind (field_string json ''postText'') (\<lambda>text. Inr (post_id, author_id, text)))))))
     (\<lambda>(post_id, author_id, text).
     bind (OnPostCreated L R P author_id post_id text) (\<lambda>_.
     publish ''ws-fanout'' [] message))"

section \<open>Lemmas\<close>

lemma parse_or_bad_request_simps [simp]:
  "parse_or_bad_request (Inr x) b k = k x"
  "parse_or_bad_request (Inl RuntimeError) b k = ret (kBadRequest, b)"
  by (simp_all add: parse_or_bad_request_def is_runtime_error_def)

lemma string_generator_cases:
  obtains "string_generator L s = Inl RuntimeError" | u where "string_generator L s = Inr u"
  by (cases "gen L s") (auto simp: string_generator_def)

lemma authors_of_post:
  assumes "db_ok d"
  shows "map po_author (filter (\<lambda>p. po_id p = i) (posts d))
    = (case find (\<lambda>p. po_id p = i) (posts d) of None \<Rightarrow> [] | Some p \<Rightarrow> [po_author p])"
  using filter_key_find [of po_id "posts d" i] assms by (simp add: db_ok_def split: option.splits)

context feed_env
begin

lemma event_round:
  "sum_bind (json_from_string L (post_event L a i t)) (\<lambda>json.
       sum_bind (sum_bind (field_string json ''postId'') (string_generator L)) (\<lambda>post_id.
       sum_bind (sum_bind (field_string json ''author_user_id'') (string_generator L)) (\<lambda>author_id.
       sum_bind (field_string json ''postText'') (\<lambda>text. Inr (post_id, author_id, text)))))
   = Inr (i, a, t)"
proof -
  let ?fs = "[(''postId'', JString (to_str L i)), (''postText'', JString t),
      (''author_user_id'', JString (to_str L a))]"
  have "flat_object ?fs" by (simp add: flat_object_def)
  from json_round [OF this] obtain gs
    where gs: "json_load L (post_event L a i t) = Some (JObject gs)" "map_of gs = map_of ?fs"
    by (auto simp: post_event_def)
  show ?thesis
    by (simp add: json_from_string_def gs(1) field_string_cong [OF gs(2)])
      (simp add: field_string_def string_generator_to_str)
qed

lemma consumer_process:
  "PostFeedConsumer_Process L R P (post_event L a i t) w
   = bind (OnPostCreated L R P a i t) (\<lambda>_. publish ''ws-fanout'' [] (post_event L a i t)) w"
  by (simp add: PostFeedConsumer_Process_def event_round bind_def)

end

end
