(* ===== verification/Feed_System.thy ===== *)
theory Feed_System
  imports Posts
begin

text \<open>
  The feed as a system: the handlers of \<open>Posts\<close>, replication and the consumer of post events
  together. While every request settles before the next one (the replica catches up and the
  published events are consumed), the cache refines the database: what a user reads is the feed
  query on the master. The second part shows which interleavings break this.
\<close>

section \<open>Events and their complete effect\<close>

datatype feed_event =
    Add_Friend int uuid http_request
  | Delete_Friend uuid http_request
  | Create_Post uuid int uuid json_body
  | Update_Post json_body
  | Delete_Post http_request
  | Read_Feed uuid http_request

text \<open>The replica catches up, then the consumer processes what was published since \<open>w\<close>.\<close>

definition settle :: "lib \<Rightarrow> 'r redis \<Rightarrow> planner \<Rightarrow> 'r world \<Rightarrow> 'r world \<Rightarrow> 'r world" where
  "settle L R P w w' =
     fold (\<lambda>pub s. snd (PostFeedConsumer_Process L R P (pub_body pub) s))
       (drop (length (published w)) (published w')) (replicate_now w')"

fun handle :: "lib \<Rightarrow> 'r redis \<Rightarrow> planner \<Rightarrow> feed_event \<Rightarrow> 'r world \<Rightarrow> 'r world" where
  "handle L R P (Add_Friend now u req) w = snd (FriendAddHandler L R now u req w)"
| "handle L R P (Delete_Friend u req) w = snd (FriendDeleteHandler L R u req w)"
| "handle L R P (Create_Post i now u body) w = snd (PostCreateHandler L ''feed-exchange'' i now u body w)"
| "handle L R P (Update_Post body) w = snd (PostUpdateHandler L R P body w)"
| "handle L R P (Delete_Post req) w = snd (PostDeleteHandler L R P req w)"
| "handle L R P (Read_Feed u req) w = snd (PostFeedHandler L R P u req w)"

definition feed_step :: "lib \<Rightarrow> 'r redis \<Rightarrow> planner \<Rightarrow> feed_event \<Rightarrow> 'r world \<Rightarrow> 'r world" where
  "feed_step L R P e w = settle L R P w (handle L R P e w)"

text \<open>The clock of the master moves on between two posts.\<close>

fun clock_ok :: "feed_event \<Rightarrow> 'r world \<Rightarrow> bool" where
  "clock_ok (Create_Post i now u body) w = (\<forall>p \<in> set (posts (master w)). po_created p < now)"
| "clock_ok _ w = True"

definition feed_start :: "lib \<Rightarrow> 'r redis \<Rightarrow> 'r world \<Rightarrow> bool" where
  "feed_start L R w \<longleftrightarrow>
     faults w = [] \<and> slave w = master w \<and> db_ok (master w) \<and> inj_on po_created (set (posts (master w)))
     \<and> (\<forall>u. r_type R (feed_redis w) (MakeKey L u) = TNone)"

inductive feed_reach :: "lib \<Rightarrow> 'r redis \<Rightarrow> planner \<Rightarrow> 'r world \<Rightarrow> bool"
  for L :: lib and R :: "'r redis" and P :: planner
where
  init: "feed_start L R w \<Longrightarrow> feed_reach L R P w"
| event: "feed_reach L R P w \<Longrightarrow> clock_ok e w \<Longrightarrow> feed_reach L R P (feed_step L R P e w)"

section \<open>The invariant\<close>

definition feed_inv :: "lib \<Rightarrow> 'r redis \<Rightarrow> planner \<Rightarrow> 'r world \<Rightarrow> bool" where
  "feed_inv L R P w \<longleftrightarrow>
     faults w = [] \<and> slave w = master w \<and> db_ok (master w) \<and> inj_on po_created (set (posts (master w)))
     \<and> (\<forall>u. feed_coherent L R P (master w) (feed_redis w) u)"

lemma feed_of_db_cong: "feed_rows u d' = feed_rows u d \<Longrightarrow> feed_of_db P u d' = feed_of_db P u d"
  by (simp add: feed_of_db_def sql_feed_def)

lemma feed_rows_follows:
  assumes "db_ok d"
  shows "feed_rows u d = filter (\<lambda>p. follows d u (po_author p)) (posts d)"
  using assms by (intro feed_rows_filter) (simp add: db_ok_def)

text \<open>A friendship of \<open>u\<close> appears in nobody else's feed query.\<close>

lemma feed_rows_add_friend:
  "v \<noteq> u \<Longrightarrow> feed_rows v (snd (sql_insert_friendship u f now d)) = feed_rows v d"
  by (auto simp: sql_insert_friendship_def feed_rows_def)

lemma friendships_after_delete:
  "friendships (snd (sql_delete_friendship u f d)) = filter (\<lambda>g. \<not> (fr_user g = u \<and> fr_friend g = f)) (friendships d)"
  by (simp add: sql_delete_friendship_def)

lemma feed_rows_delete_friend:
  assumes "v \<noteq> u"
  shows "feed_rows v (snd (sql_delete_friendship u f d)) = feed_rows v d"
proof -
  let ?d = "snd (sql_delete_friendship u f d)"
  have "filter (\<lambda>g. fr_friend g = a \<and> fr_user g = v) (filter (\<lambda>g. \<not> (fr_user g = u \<and> fr_friend g = f)) fs)
      = filter (\<lambda>g. fr_friend g = a \<and> fr_user g = v) fs" for a fs
    using assms by (induction fs) auto
  then have "filter (\<lambda>g. fr_friend g = a \<and> fr_user g = v) (friendships ?d)
      = filter (\<lambda>g. fr_friend g = a \<and> fr_user g = v) (friendships d)" for a
    unfolding friendships_after_delete .
  moreover have "posts ?d = posts d" by (simp add: sql_delete_friendship_def)
  ultimately show ?thesis by (simp only: feed_rows_def)
qed

text \<open>A post of an author whom \<open>v\<close> does not follow is not in the feed of \<open>v\<close>.\<close>

lemma follows_posts: "follows (d\<lparr>posts := ps\<rparr>) u a = follows d u a"
  by (simp add: follows_def)

lemma db_ok_statement: "preserves db_ok stmt \<Longrightarrow> db_ok d \<Longrightarrow> db_ok (snd (stmt d))"
  by (rule preservesD)

lemma feed_rows_update_post:
  assumes "db_ok d" and "\<And>p. p \<in> set (posts d) \<Longrightarrow> po_id p = i \<Longrightarrow> \<not> follows d v (po_author p)"
  shows "feed_rows v (snd (sql_update_post i t d)) = feed_rows v d"
proof -
  let ?u = "\<lambda>p. if po_id p = i then p\<lparr>po_text := t\<rparr> else p"
  have "filter (\<lambda>p. follows d v (po_author p)) (map ?u ps) = filter (\<lambda>p. follows d v (po_author p)) ps"
    if "set ps \<subseteq> set (posts d)" for ps
    using that assms(2) by (induction ps) auto
  from this [OF order_refl] feed_rows_follows [OF db_ok_statement [OF sql_update_post_ok [of i t] assms(1)]] show ?thesis
    by (simp add: sql_update_post_def feed_rows_follows [OF assms(1)] follows_posts)
qed

lemma feed_rows_delete_post:
  assumes "db_ok d" and "\<And>p. p \<in> set (posts d) \<Longrightarrow> po_id p = i \<Longrightarrow> \<not> follows d v (po_author p)"
  shows "feed_rows v (snd (sql_delete_post i d)) = feed_rows v d"
proof -
  have "filter (\<lambda>p. follows d v (po_author p)) (filter (\<lambda>p. po_id p \<noteq> i) ps)
      = filter (\<lambda>p. follows d v (po_author p)) ps" if "set ps \<subseteq> set (posts d)" for ps
    using that assms(2) by (induction ps) auto
  from this [OF order_refl] feed_rows_follows [OF db_ok_statement [OF sql_delete_post_ok [of i] assms(1)]] show ?thesis
    by (simp add: sql_delete_post_def feed_rows_follows [OF assms(1)] follows_posts)
qed

text \<open>The newest post heads the feed of every follower of its author.\<close>

lemma feed_of_new_post:
  assumes P: "planning P" and ok: "db_ok d" and inj: "inj_on po_created (set (posts d))"
    and newest: "\<And>p. p \<in> set (posts d) \<Longrightarrow> po_created p < po_created q"
  shows "feed_of_db P v (d\<lparr>posts := posts d @ [q]\<rparr>)
    = (if follows d v (po_author q) then take 1000 (feed_of_row q # feed_of_db P v d) else feed_of_db P v d)"
proof -
  let ?k = "\<lambda>p. - po_created p" and ?d = "d\<lparr>posts := posts d @ [q]\<rparr>"
  have dist: "distinct (map (\<lambda>f. (fr_user f, fr_friend f)) (friendships d))"
    using ok unfolding db_ok_def by blast
  have rows: "feed_rows v ?d = feed_rows v d @ (if follows d v (po_author q) then [q] else [])"
    using feed_rows_filter [of ?d v] feed_rows_filter [OF dist, of v] dist by (simp add: follows_posts)
  show ?thesis
  proof (cases "follows d v (po_author q)")
    case False
    with rows have "feed_rows v ?d = feed_rows v d" by simp
    from feed_of_db_cong [OF this] False show ?thesis by simp
  next
    case True
    have sub: "set (feed_rows v d) \<subseteq> set (posts d)" by (auto simp: set_feed_rows)
    have fresh: "po_created q \<notin> po_created ` set (feed_rows v d)"
      using newest sub by (fastforce simp del: set_feed_rows)
    have "sort_key ?k (plan_posts P (feed_rows v ?d)) = q # sort_key ?k (plan_posts P (feed_rows v d))"
    proof (rule sort_key_inj_key_eq)
      show "mset (plan_posts P (feed_rows v ?d)) = mset (q # sort_key ?k (plan_posts P (feed_rows v d)))"
        using True by (simp add: rows planning.plan_posts_mset [OF P])
      have "inj_on po_created (insert q (set (feed_rows v d)))"
        using inj_on_subset [OF inj sub] fresh by (auto simp: inj_on_insert)
      then show "inj_on ?k (set (plan_posts P (feed_rows v ?d)))"
        using True by (simp add: planning.set_plan_posts [OF P] rows inj_on_def)
      show "sorted (map ?k (q # sort_key ?k (plan_posts P (feed_rows v d))))"
        using sub newest by (auto simp: planning.set_plan_posts [OF P] less_imp_le subset_iff)
    qed
    then have "sql_feed P v ?d = take 1000 (q # sort_key ?k (plan_posts P (feed_rows v d)))"
      by (simp add: sql_feed_def)
    also have "\<dots> = take 1000 (q # sql_feed P v d)"
      by (simp add: sql_feed_def take_Cons' min_def)
    finally show ?thesis
      using True by (simp add: feed_of_db_def take_map)
  qed
qed

section \<open>Every event keeps the invariant\<close>

lemma settle_quiet: "published w' = published w \<Longrightarrow> settle L R P w w' = replicate_now w'"
  by (simp add: settle_def)

lemma replicate_simps [simp]:
  "faults (replicate_now w) = faults w" "master (replicate_now w) = master w"
  "slave (replicate_now w) = master w" "feed_redis (replicate_now w) = feed_redis w"
  "published (replicate_now w) = published w"
  by (simp_all add: replicate_now_def)

context feed_env
begin

abbreviation coherent :: "db \<Rightarrow> 'r \<Rightarrow> uuid \<Rightarrow> bool" where
  "coherent d r u \<equiv> feed_coherent L R P d r u"

lemma coherent_clear: "feed_holds L R r v [] \<Longrightarrow> coherent d r v"
  by (simp add: feed_coherent_def)

lemma coherent_keep:
  assumes "coherent d r v" and "\<And>ps. feed_holds L R r v ps \<Longrightarrow> feed_holds L R r' v ps"
    and "feed_rows v d' = feed_rows v d"
  shows "coherent d' r' v"
  using assms feed_of_db_cong [OF assms(3)] by (auto simp: feed_coherent_def)

lemma coherent_cases:
  assumes "coherent d r v"
  obtains ps where "feed_holds L R r v ps" and "ps = [] \<or> ps = feed_of_db P v d"
  using assms by (auto simp: feed_coherent_def)

lemma friend_change_inv:
  assumes inv: "feed_inv L R P w" and d: "db_ok d" "posts d = posts (master w)"
    and rows: "\<And>v. v \<noteq> u \<Longrightarrow> feed_rows v d = feed_rows v (master w)"
    and w': "faults w' = []" "master w' = d" "feed_redis w' = r_del R (feed_redis w) [MakeKey L u]"
  shows "feed_inv L R P (replicate_now w')"
proof -
  have "coherent d (r_del R (feed_redis w) [MakeKey L u]) v" for v
  proof (cases "v = u")
    case True
    then show ?thesis using holds_del [of v "[u]"] by (simp add: coherent_clear)
  next
    case False
    have "coherent (master w) (feed_redis w) v" using inv by (simp add: feed_inv_def)
    from coherent_keep [OF this _ rows [OF False]] False show ?thesis
      using holds_del_other [of v "[u]"] by simp
  qed
  with inv d w' show ?thesis by (simp add: feed_inv_def)
qed

lemma same_state_inv:
  assumes "feed_inv L R P w" and "faults w' = []" "master w' = master w" "feed_redis w' = feed_redis w"
  shows "feed_inv L R P (replicate_now w')"
  using assms by (simp add: feed_inv_def)

lemma add_friend_inv:
  assumes inv: "feed_inv L R P w"
  shows "feed_inv L R P (feed_step L R P (Add_Friend now u req) w)"
proof -
  have f: "faults w = []" and ok: "db_ok (master w)" using inv by (simp_all add: feed_inv_def)
  show ?thesis
  proof (cases rule: string_generator_cases [of L "path_arg req"])
    case 1
    with same_state_inv [OF inv, of w] f show ?thesis
      by (simp add: feed_step_def FriendAddHandler_def settle_quiet)
  next
    case (2 fid)
    let ?st = "sql_insert_friendship u fid now (master w)"
    have d: "db_ok (snd ?st)" using sql_insert_friendship_ok ok by (rule preservesD)
    show ?thesis
    proof (cases "fst ?st")
      case (Inl e)
      then have "snd ?st = master w" by (auto simp: sql_insert_friendship_def split: if_splits)
      with same_state_inv [OF inv, of w] f 2 Inl show ?thesis
        by (simp add: feed_step_def FriendAddHandler_def settle_quiet bind_def)
    next
      case (Inr x)
      have "posts (snd ?st) = posts (master w)" by (simp add: sql_insert_friendship_def)
      from friend_change_inv [OF inv d this feed_rows_add_friend] f 2 Inr show ?thesis
        by (simp add: feed_step_def FriendAddHandler_def settle_quiet bind_def invalidate_feed_run)
    qed
  qed
qed

lemma delete_friend_inv:
  assumes inv: "feed_inv L R P w"
  shows "feed_inv L R P (feed_step L R P (Delete_Friend u req) w)"
proof -
  have f: "faults w = []" and ok: "db_ok (master w)" using inv by (simp_all add: feed_inv_def)
  show ?thesis
  proof (cases rule: string_generator_cases [of L "path_arg req"])
    case 1
    with same_state_inv [OF inv, of w] f show ?thesis
      by (simp add: feed_step_def FriendDeleteHandler_def settle_quiet)
  next
    case (2 fid)
    let ?st = "sql_delete_friendship u fid (master w)"
    have d: "db_ok (snd ?st)" using sql_delete_friendship_ok ok by (rule preservesD)
    have "posts (snd ?st) = posts (master w)" "fst ?st = Inr ()"
      by (simp_all add: sql_delete_friendship_def)
    with friend_change_inv [OF inv d _ feed_rows_delete_friend] f 2 show ?thesis
      by (simp add: feed_step_def FriendDeleteHandler_def settle_quiet bind_def invalidate_feed_run)
  qed
qed

text \<open>A changed or deleted post: the feeds of its author's followers are emptied, the others keep theirs.\<close>

lemma post_change_inv:
  assumes inv: "feed_inv L R P w" and d: "db_ok d" "inj_on po_created (set (posts d))"
    and post: "p \<in> set (posts (master w))" "po_id p = i"
    and rows: "\<And>v. (\<And>q. q \<in> set (posts (master w)) \<Longrightarrow> po_id q = i \<Longrightarrow> \<not> follows (master w) v (po_author q))
      \<Longrightarrow> feed_rows v d = feed_rows v (master w)"
    and run: "InvalidateFeedsOfFollowersOf L R P (po_author p) (w\<lparr>master := d\<rparr>) = (x, w')"
  shows "feed_inv L R P (replicate_now w') \<and> published w' = published w \<and> x = Inr ()"
proof -
  have f: "faults w = []" and ok: "db_ok (master w)" and sl: "slave w = master w"
    using inv by (simp_all add: feed_inv_def)
  have frame: "faults w' = []" "master w' = d" "published w' = published w" "x = Inr ()"
    using run invalidate_followers_run [of "w\<lparr>master := d\<rparr>" "po_author p"] f by (auto split: if_splits)
  have uniq: "q = p" if "q \<in> set (posts (master w))" "po_id q = i" for q
    using ok that post by (auto simp: db_ok_def distinct_map inj_on_def)
  have "coherent d (feed_redis w') v" for v
  proof -
    have "coherent (master w) (feed_redis w) v" using inv by (simp add: feed_inv_def)
    then obtain ps where ps: "feed_holds L R (feed_redis w) v ps" "ps = [] \<or> ps = feed_of_db P v (master w)"
      by (rule coherent_cases)
    have h: "feed_holds L R (feed_redis w') v (if follows (master w) v (po_author p) then [] else ps)"
      using invalidate_followers_holds [of "w\<lparr>master := d\<rparr>" v ps "po_author p" x w'] f ps(1) run sl by simp
    show ?thesis
    proof (cases "follows (master w) v (po_author p)")
      case True
      with h show ?thesis by (simp add: coherent_clear)
    next
      case False
      with uniq have "feed_rows v d = feed_rows v (master w)" by (intro rows) blast
      from feed_of_db_cong [OF this] False h ps(2) show ?thesis by (auto simp: feed_coherent_def)
    qed
  qed
  with d frame show ?thesis by (simp add: feed_inv_def)
qed

lemma no_post_change_inv:
  assumes inv: "feed_inv L R P w" and d: "db_ok d" "inj_on po_created (set (posts d))"
    and rows: "\<And>v. feed_rows v d = feed_rows v (master w)"
  shows "feed_inv L R P (replicate_now (w\<lparr>master := d\<rparr>))"
proof -
  have "coherent d (feed_redis w) v" for v
  proof -
    have "coherent (master w) (feed_redis w) v" using inv by (simp add: feed_inv_def)
    from coherent_keep [OF this _ rows] show ?thesis by blast
  qed
  with inv d show ?thesis by (simp add: feed_inv_def)
qed

text \<open>
  What update and delete share: the statement returned the authors of the post, and their
  followers' feeds are invalidated.
\<close>

lemma post_statement_inv:
  assumes inv: "feed_inv L R P w" and d: "db_ok d" "inj_on po_created (set (posts d))"
    and rows: "\<And>v. (\<And>q. q \<in> set (posts (master w)) \<Longrightarrow> po_id q = i \<Longrightarrow> \<not> follows (master w) v (po_author q))
      \<Longrightarrow> feed_rows v d = feed_rows v (master w)"
    and result: "result = map po_author (filter (\<lambda>p. po_id p = i) (posts (master w)))"
    and run: "bind (if result \<noteq> [] then bind (lift_sum (as_single_row result)) (InvalidateFeedsOfFollowersOf L R P)
           else ret ()) (\<lambda>_. ret y) (w\<lparr>master := d\<rparr>) = (x, w')"
  shows "feed_inv L R P (settle L R P w w')"
proof -
  have ok: "db_ok (master w)" using inv by (simp add: feed_inv_def)
  show ?thesis
  proof (cases "find (\<lambda>p. po_id p = i) (posts (master w))")
    case None
    then have "i \<notin> po_id ` set (posts (master w))" by (simp add: find_key_None)
    then have "feed_rows v d = feed_rows v (master w)" for v by (intro rows) auto
    from no_post_change_inv [OF inv d this] None run show ?thesis
      by (auto simp: result authors_of_post [OF ok] settle_quiet)
  next
    case (Some p)
    obtain y' w1 where r: "InvalidateFeedsOfFollowersOf L R P (po_author p) (w\<lparr>master := d\<rparr>) = (y', w1)"
      by fastforce
    from find_key_Some [OF Some] have "p \<in> set (posts (master w))" "po_id p = i" by auto
    from post_change_inv [OF inv d this rows r] r Some run show ?thesis
      by (auto simp: result authors_of_post [OF ok] settle_quiet as_single_row_def bind_def)
  qed
qed

lemma inj_on_image_same:
  assumes "inj_on g S" and "\<And>x. g (h x) = g x"
  shows "inj_on g (h ` S)"
  using assms by (intro inj_onI) (auto dest: inj_onD)

lemma update_post_inv:
  assumes inv: "feed_inv L R P w"
  shows "feed_inv L R P (feed_step L R P (Update_Post body) w)"
proof -
  have f: "faults w = []" and ok: "db_ok (master w)" and inj: "inj_on po_created (set (posts (master w)))"
    using inv by (simp_all add: feed_inv_def)
  note same = same_state_inv [OF inv f refl refl]
  show ?thesis
  proof (cases "has_member body ''id'' \<and> has_member body ''text''")
    case False
    with same show ?thesis by (auto simp: feed_step_def PostUpdateHandler_def settle_quiet)
  next
    case members: True
    show ?thesis
    proof (cases "sum_bind (field_string (JObject body) ''id'') (string_generator L)")
      case (Inl e)
      with members same show ?thesis
        by (simp add: feed_step_def PostUpdateHandler_def settle_quiet parse_or_bad_request_def)
    next
      case parsed: (Inr i)
      show ?thesis
      proof (cases "field_string (JObject body) ''text''")
        case (Inl e)
        with members parsed same show ?thesis
          by (simp add: feed_step_def PostUpdateHandler_def settle_quiet bind_def)
      next
        case (Inr t)
        let ?d = "snd (sql_update_post i t (master w))"
        have d: "db_ok ?d" using sql_update_post_ok ok by (rule preservesD)
        have "posts ?d = map (\<lambda>p. if po_id p = i then p\<lparr>po_text := t\<rparr> else p) (posts (master w))"
          by (simp add: sql_update_post_def)
        then have inj': "inj_on po_created (set (posts ?d))"
          by (simp only: set_map) (rule inj_on_image_same [OF inj], simp)
        obtain x w' where run: "PostUpdateHandler L R P body w = (x, w')" by fastforce
        have "fst (sql_update_post i t (master w))
            = Inr (map po_author (filter (\<lambda>p. po_id p = i) (posts (master w))))"
          by (simp add: sql_update_post_def)
        with run members parsed Inr f have
          "bind (if map po_author (filter (\<lambda>p. po_id p = i) (posts (master w))) \<noteq> []
             then bind (lift_sum (as_single_row (map po_author (filter (\<lambda>p. po_id p = i) (posts (master w))))))
                    (InvalidateFeedsOfFollowersOf L R P) else ret ())
             (\<lambda>_. ret (kOk, JObject [])) (w\<lparr>master := ?d\<rparr>) = (x, w')"
          by (simp add: PostUpdateHandler_def bind_Inr)
        from post_statement_inv [OF inv d inj' feed_rows_update_post [OF ok] refl this] run show ?thesis
          by (simp add: feed_step_def)
      qed
    qed
  qed
qed

lemma delete_post_inv:
  assumes inv: "feed_inv L R P w"
  shows "feed_inv L R P (feed_step L R P (Delete_Post req) w)"
proof -
  have f: "faults w = []" and ok: "db_ok (master w)" and inj: "inj_on po_created (set (posts (master w)))"
    using inv by (simp_all add: feed_inv_def)
  note same = same_state_inv [OF inv f refl refl]
  show ?thesis
  proof (cases rule: string_generator_cases [of L "path_arg req"])
    case 1
    with same show ?thesis by (simp add: feed_step_def PostDeleteHandler_def settle_quiet)
  next
    case (2 i)
    let ?d = "snd (sql_delete_post i (master w))"
    have d: "db_ok ?d" using sql_delete_post_ok ok by (rule preservesD)
    have inj': "inj_on po_created (set (posts ?d))"
      using inj by (auto simp: sql_delete_post_def inj_on_def)
    obtain x w' where run: "PostDeleteHandler L R P req w = (x, w')" by fastforce
    have "fst (sql_delete_post i (master w))
        = Inr (map po_author (filter (\<lambda>p. po_id p = i) (posts (master w))))"
      by (simp add: sql_delete_post_def)
    with run 2 f have
      "bind (if map po_author (filter (\<lambda>p. po_id p = i) (posts (master w))) \<noteq> []
         then bind (lift_sum (as_single_row (map po_author (filter (\<lambda>p. po_id p = i) (posts (master w))))))
                (InvalidateFeedsOfFollowersOf L R P) else ret ())
         (\<lambda>_. ret (kOk, [])) (w\<lparr>master := ?d\<rparr>) = (x, w')"
      by (simp add: PostDeleteHandler_def bind_Inr)
    from post_statement_inv [OF inv d inj' feed_rows_delete_post [OF ok] refl this] run show ?thesis
      by (simp add: feed_step_def)
  qed
qed

text \<open>A new post: its event is consumed after the replica caught up.\<close>

lemma new_post_inv:
  assumes inv: "feed_inv L R P w"
    and newest: "\<forall>p \<in> set (posts (master w)). po_created p < now"
    and ins: "sql_insert_post i now u t (master w) = (Inr j, d)"
    and w': "w' = w\<lparr>master := d, published := published w @ [Publication e k (post_event L u j t)]\<rparr>"
  shows "feed_inv L R P (settle L R P w w')"
proof -
  have f: "faults w = []" and ok: "db_ok (master w)" and inj: "inj_on po_created (set (posts (master w)))"
    using inv by (simp_all add: feed_inv_def)
  let ?q = "\<lparr>po_id = i, po_author = u, po_text = t, po_created = now\<rparr>"
  have d: "d = (master w)\<lparr>posts := posts (master w) @ [?q]\<rparr>" and j: "j = i"
    using ins by (auto simp: sql_insert_post_def split: if_splits)
  have ok': "db_ok d"
    using preservesD [OF sql_insert_post_ok [of i now u t] ok] ins by simp
  have fol: "follows d v a = follows (master w) v a" for v a
    by (simp add: d follows_posts)
  let ?w = "w'\<lparr>slave := d\<rparr>"
  let ?r = "fold (push_front L R (SerializePost L \<lparr>fp_post_id = i, fp_text = t, fp_author = u\<rparr>))
      (sql_followers P u (slave ?w)) (feed_redis ?w)"
  have run: "settle L R P w w' = ?w\<lparr>feed_redis := ?r, published := published w' @ [Publication ''ws-fanout'' [] (post_event L u i t)]\<rparr>"
    using f by (simp add: settle_def w' j replicate_now_def consumer_process bind_def on_post_created_run)
  have "coherent d ?r v" for v
  proof -
    have "coherent (master w) (feed_redis w) v" using inv by (simp add: feed_inv_def)
    then obtain ps where ps: "feed_holds L R (feed_redis ?w) v ps" "ps = [] \<or> ps = feed_of_db P v (master w)"
      unfolding w' by (auto elim: coherent_cases)
    have h: "feed_holds L R ?r v (if follows d v u \<and> ps \<noteq> []
        then take 1000 (\<lparr>fp_post_id = i, fp_text = t, fp_author = u\<rparr> # ps) else ps)"
      using on_post_created_holds [OF _ _ ps(1)] f ok' by (simp add: w')
    have "feed_of_db P v d = (if follows (master w) v u
        then take 1000 (feed_of_row ?q # feed_of_db P v (master w)) else feed_of_db P v (master w))"
      using feed_of_new_post [OF planning_axioms ok inj, of ?q v] newest by (simp add: d)
    with h ps(2) show ?thesis
      by (auto simp: feed_coherent_def fol feed_of_row_def split: if_splits)
  qed
  moreover have "inj_on po_created (set (posts d))"
    using inj newest by (fastforce simp: d inj_on_insert)
  ultimately show ?thesis
    using f ok' unfolding feed_inv_def run by (auto simp: w')
qed

lemma create_post_inv:
  assumes inv: "feed_inv L R P w" and clock: "clock_ok (Create_Post i now u body) w"
  shows "feed_inv L R P (feed_step L R P (Create_Post i now u body) w)"
proof -
  have f: "faults w = []" using inv by (simp add: feed_inv_def)
  note same = same_state_inv [OF inv f refl refl]
  show ?thesis
  proof (cases "has_member body ''text''")
    case False
    with same show ?thesis by (simp add: feed_step_def PostCreateHandler_def settle_quiet)
  next
    case True
    show ?thesis
    proof (cases "field_string (JObject body) ''text''")
      case (Inl e)
      with True same show ?thesis
        by (simp add: feed_step_def PostCreateHandler_def settle_quiet bind_def)
    next
      case fld: (Inr t)
      obtain x d where ins: "sql_insert_post i now u t (master w) = (x, d)" by fastforce
      show ?thesis
      proof (cases x)
        case (Inl e)
        with ins have "d = master w" by (auto simp: sql_insert_post_def split: if_splits)
        with True fld ins Inl f same show ?thesis
          by (simp add: feed_step_def PostCreateHandler_def settle_quiet bind_def)
      next
        case (Inr j)
        note new = new_post_inv [OF inv _ ins [unfolded Inr] refl]
        from True fld ins Inr f clock new show ?thesis
          by (simp add: feed_step_def PostCreateHandler_def bind_def Publish_def Let_def)
      qed
    qed
  qed
qed

lemma read_feed_coherent:
  assumes "faults w = []" and "\<And>v. coherent (slave w) (feed_redis w) v"
  shows "\<exists>r. snd (GetFeed L R P u offset limit w) = w\<lparr>feed_redis := r\<rparr> \<and> (\<forall>v. coherent (slave w) r v)"
proof -
  obtain ps where ps: "feed_holds L R (feed_redis w) u ps" "ps = [] \<or> ps = feed_of_db P u (slave w)"
    using assms(2) by (rule coherent_cases)
  show ?thesis
  proof (cases "ps = []")
    case True
    let ?r = "fill_cache L R u (feed_of_db P u (slave w)) (feed_redis w)"
    have "coherent (slave w) ?r v" for v
    proof (cases "v = u")
      case True
      then show ?thesis
        using holds_fill [OF ps(1) [unfolded \<open>ps = []\<close>], of "feed_of_db P u (slave w)"]
        by (auto simp: feed_coherent_def split: if_splits)
    next
      case False
      with assms(2) [of v] show ?thesis by (simp add: feed_coherent_def holds_fill_other)
    qed
    then show ?thesis
      by (intro exI [of _ ?r]) (simp add: get_feed_miss [OF assms(1) ps(1) [unfolded True]])
  next
    case False
    then show ?thesis
      using assms by (intro exI [of _ "feed_redis w"]) (simp add: get_feed_hit [OF assms(1) ps(1)])
  qed
qed

lemma read_feed_inv:
  assumes inv: "feed_inv L R P w"
  shows "feed_inv L R P (feed_step L R P (Read_Feed u req) w)"
proof -
  have f: "faults w = []" and sl: "slave w = master w" using inv by (simp_all add: feed_inv_def)
  show ?thesis
  proof (cases "sum_bind (feed_arg req ''offset'' 0) (\<lambda>offset.
           sum_bind (feed_arg req ''limit'' 10) (\<lambda>limit. Inr (offset, limit)))")
    case (Inl e)
    with same_state_inv [OF inv f refl refl] show ?thesis
      by (simp add: feed_step_def PostFeedHandler_def settle_quiet)
  next
    case (Inr page)
    obtain offset limit where page: "page = (offset, limit)" by fastforce
    obtain r where r: "snd (GetFeed L R P u offset limit w) = w\<lparr>feed_redis := r\<rparr>"
      and coh: "\<And>v. coherent (slave w) r v"
      using read_feed_coherent [OF f, of u offset limit] inv by (auto simp: feed_inv_def)
    have "snd (PostFeedHandler L R P u req w) = w\<lparr>feed_redis := r\<rparr>"
      using r Inr page by (cases "GetFeed L R P u offset limit w") (auto simp: PostFeedHandler_def bind_def split: sum.splits)
    with coh inv sl show ?thesis
      by (simp add: feed_step_def settle_quiet feed_inv_def)
  qed
qed

lemma feed_step_inv:
  assumes "feed_inv L R P w" and "clock_ok e w"
  shows "feed_inv L R P (feed_step L R P e w)"
  using assms add_friend_inv delete_friend_inv create_post_inv update_post_inv delete_post_inv read_feed_inv
  by (cases e) simp_all

lemma feed_reach_inv: "feed_reach L R P w \<Longrightarrow> feed_inv L R P w"
proof (induction rule: feed_reach.induct)
  case (init w)
  then have "feed_holds L R (feed_redis w) u []" for u
    using none_list [of "feed_redis w" "key u"] by (simp add: feed_holds_def feed_start_def)
  with init show ?case by (simp add: feed_inv_def feed_start_def coherent_clear)
next
  case (event w e)
  then show ?case by (intro feed_step_inv)
qed

end

section \<open>Interleavings that break the cache\<close>

context feed_env
begin

text \<open>An event consumed after a read has already put its post into the cache.\<close>

lemma late_event:
  assumes "faults w = []" and "db_ok (slave w)" and "feed_holds L R (feed_redis w) u []"
    and "feed_of_db P u (slave w) \<noteq> []" and "follows (slave w) u a"
  shows "feed_holds L R (feed_redis (snd (PostFeedConsumer_Process L R P (post_event L a i t)
           (snd (GetFeed L R P u offset limit w))))) u
      (take 1000 (\<lparr>fp_post_id = i, fp_text = t, fp_author = a\<rparr> # feed_of_db P u (slave w)))"
proof -
  let ?feed = "feed_of_db P u (slave w)"
  let ?w = "w\<lparr>feed_redis := fill_cache L R u ?feed (feed_redis w)\<rparr>"
  have "feed_holds L R (feed_redis ?w) u ?feed"
    using holds_fill [OF assms(3), of ?feed] assms(4) by simp
  from on_post_created_holds [OF _ _ this, where a = a] assms show ?thesis
    by (simp add: get_feed_miss [OF assms(1,3)] consumer_process bind_def on_post_created_run)
qed

lemma redelivered_event:
  fixes i :: uuid and t :: string and w :: "'r world"
  assumes "faults w = []" and "db_ok (slave w)" and "feed_holds L R (feed_redis w) u ps" and "ps \<noteq> []"
    and "follows (slave w) u a"
  defines "q \<equiv> \<lparr>fp_post_id = i, fp_text = t, fp_author = a\<rparr>"
  defines "process \<equiv> \<lambda>w. snd (PostFeedConsumer_Process L R P (post_event L a i t) w)"
  shows "feed_holds L R (feed_redis (process (process w))) u (take 1000 (q # take 1000 (q # ps)))"
proof -
  have step: "process v = v\<lparr>feed_redis := fold (push_front L R (SerializePost L q))
        (sql_followers P a (slave v)) (feed_redis v),
        published := published v @ [Publication ''ws-fanout'' [] (post_event L a i t)]\<rparr>"
    if "faults v = []" for v
    using that by (simp add: process_def q_def consumer_process bind_def on_post_created_run)
  have h: "feed_holds L R (feed_redis (process w)) u (take 1000 (q # ps))"
    using on_post_created_holds [OF assms(1-3), where a = a and p = q] assms(4,5) by (simp add: step [OF assms(1)])
  have "faults (process w) = []" "slave (process w) = slave w"
    using assms(1) by (simp_all add: step [OF assms(1)])
  with on_post_created_holds [OF _ _ h, where a = a and p = q] assms(2,5) show ?thesis
    by (simp add: step)
qed

text \<open>A feed read from the replica before it knows of a new friend.\<close>

lemma stale_read:
  fixes now o1 l1 :: int and w :: "'r world"
  assumes "faults w = []" and "gen L (path_arg req) = Some fid"
    and "u \<in> user_ids (master w)" and "fid \<in> user_ids (master w)"
    and "feed_of_db P u (slave w) \<noteq> []"
    and "0 \<le> offset" "0 < limit" "offset + limit < 2 ^ 31"
  defines "w1 \<equiv> snd (FriendAddHandler L R now u req w)"
  defines "w2 \<equiv> replicate_now (snd (GetFeed L R P u o1 l1 w1))"
  shows "follows (slave w2) u fid \<and> slave w2 = master w2
       \<and> fst (GetFeed L R P u offset limit w2) = Inr (slice_of (feed_of_db P u (slave w)) offset limit)"
proof -
  let ?st = "sql_insert_friendship u fid now (master w)" and ?feed = "feed_of_db P u (slave w)"
  have ok: "fst ?st = Inr ()" "follows (snd ?st) u fid"
    using assms(3,4) by (auto simp: sql_insert_friendship_def follows_def)
  have w1: "w1 = w\<lparr>master := snd ?st, feed_redis := r_del R (feed_redis w) [MakeKey L u]\<rparr>"
    using ok assms(1,2) unfolding w1_def
    by (simp add: FriendAddHandler_def string_generator_def bind_def invalidate_feed_run)
  have empty: "feed_holds L R (feed_redis w1) u []"
    using holds_del [of u "[u]"] by (simp add: w1)
  have f1: "faults w1 = []" and s1: "slave w1 = slave w" using assms(1) by (simp_all add: w1)
  have w2: "w2 = w1\<lparr>feed_redis := fill_cache L R u ?feed (feed_redis w1), slave := master w1\<rparr>"
    unfolding w2_def by (simp add: get_feed_miss [OF f1 empty] s1 replicate_now_def)
  have h: "feed_holds L R (feed_redis w2) u ?feed"
    using holds_fill [OF empty, of ?feed] assms(5) by (simp add: w2)
  have "faults w2 = []" using f1 by (simp add: w2)
  from get_feed_hit [OF this h assms(5)] slice_hit [OF assms(6-8)] ok(2) show ?thesis
    by (simp add: w2 w1)
qed

end

section \<open>Concrete runs\<close>

definition text_body :: "string \<Rightarrow> json_body" where
  "text_body t = [(''text'', JString t)]"

lemma sample_start: "feed_start ref_lib ref_redis (sample_world empty_keyspace)"
  using sample_db_ok
  by (simp add: feed_start_def sample_db_def ref_redis_def empty_keyspace_def)

text \<open>What the handlers do when no call fails, one equation per handler.\<close>

lemma create_run:
  assumes "faults w = []" and "field_string (JObject body) ''text'' = Inr t"
    and "u \<in> user_ids (master w)" and "i \<notin> set (map po_id (posts (master w)))"
  shows "PostCreateHandler L e i now u body w
    = (Inr (kOk, JObject [(''id'', JString (to_str L i))]),
       w\<lparr>master := (master w)\<lparr>posts := posts (master w) @ [\<lparr>po_id = i, po_author = u, po_text = t, po_created = now\<rparr>]\<rparr>,
         published := published w @ [Publication e (''post.created.'' @ to_str L u) (post_event L u i t)]\<rparr>)"
proof -
  have "has_member body ''text''"
    using assms(2) by (auto simp: has_member_def field_string_def split: option.splits)
  with assms show ?thesis
    by (simp add: PostCreateHandler_def sql_insert_post_def bind_def Publish_def)
qed

lemma get_run:
  assumes "library L" and "faults w = []" and "db_ok (master w)"
  shows "PostGetHandler L \<lparr>path_arg = to_str L i, args = as\<rparr> w
    = (Inr (case find (\<lambda>p. po_id p = i) (posts (master w)) of
         None \<Rightarrow> (kNotFound, [])
       | Some p \<Rightarrow> (kOk, json_dump L (JObject
           [(''id'', JString (to_str L i)), (''text'', JString (po_text p)),
            (''author_user_id'', JString (to_str L (po_author p)))]))), w)"
proof -
  have "sql_select_post i (master w) = (case find (\<lambda>p. po_id p = i) (posts (master w)) of None \<Rightarrow> [] | Some p \<Rightarrow> [p])"
    using assms(3) by (simp add: sql_select_post_def filter_key_find db_ok_def)
  then show ?thesis
    using assms(2) library.string_generator_to_str [OF assms(1), of i]
    by (auto simp: PostGetHandler_def bind_def split: option.splits dest: find_key_Some)
qed

lemma find_snoc: "find Q (xs @ [x]) = (case find Q xs of None \<Rightarrow> if Q x then Some x else None | Some y \<Rightarrow> Some y)"
  by (induction xs) auto

lemma find_updated:
  "find (\<lambda>p. po_id p = j) (map (\<lambda>p. if po_id p = i then p\<lparr>po_text := t\<rparr> else p) ps)
   = (if j = i then map_option (\<lambda>p. p\<lparr>po_text := t\<rparr>) (find (\<lambda>p. po_id p = j) ps) else find (\<lambda>p. po_id p = j) ps)"
  by (induction ps) auto

lemma find_removed:
  "find (\<lambda>p. po_id p = j) (filter (\<lambda>p. po_id p \<noteq> i) ps) = (if j = i then None else find (\<lambda>p. po_id p = j) ps)"
  by (induction ps) auto

lemma follows_insert:
  assumes "u \<in> user_ids d" and "f \<in> user_ids d"
  shows "follows (snd (sql_insert_friendship u f now d)) v a \<longleftrightarrow> (v = u \<and> a = f) \<or> follows d v a"
  using assms by (auto simp: follows_def sql_insert_friendship_def)

lemma follows_delete:
  "follows (snd (sql_delete_friendship u f d)) v a \<longleftrightarrow> \<not> (v = u \<and> a = f) \<and> follows d v a"
  by (auto simp: follows_def sql_delete_friendship_def)

context feed_env
begin

lemma change_run:
  fixes w :: "'r world"
  assumes "faults w = []" and "db_ok (master w)"
    and "result = map po_author (filter (\<lambda>p. po_id p = i) (posts (master w)))"
  shows "\<exists>r. bind (if result \<noteq> [] then bind (lift_sum (as_single_row result)) (InvalidateFeedsOfFollowersOf L R P)
           else ret ()) (\<lambda>_. ret y) (w\<lparr>master := d\<rparr>) = (Inr y, w\<lparr>master := d, feed_redis := r\<rparr>)"
proof (cases "find (\<lambda>p. po_id p = i) (posts (master w))")
  case None
  then show ?thesis
    using assms by (intro exI [of _ "feed_redis w"]) (simp add: authors_of_post)
next
  case (Some p)
  have "\<exists>r. InvalidateFeedsOfFollowersOf L R P (po_author p) (w\<lparr>master := d\<rparr>)
      = (Inr (), w\<lparr>master := d, feed_redis := r\<rparr>)"
    using assms(1) invalidate_followers_run [of "w\<lparr>master := d\<rparr>" "po_author p"]
    by (cases "sql_followers P (po_author p) (slave w) = []") (auto intro: exI [of _ "feed_redis w"])
  with Some assms show ?thesis
    by (auto simp: authors_of_post as_single_row_def bind_def)
qed

lemma update_run:
  fixes w :: "'r world"
  assumes "faults w = []" and "db_ok (master w)"
  shows "\<exists>r. PostUpdateHandler L R P [(''id'', JString (to_str L i)), (''text'', JString t)] w
      = (Inr (kOk, JObject []), w\<lparr>master := snd (sql_update_post i t (master w)), feed_redis := r\<rparr>)"
  using assms change_run [OF assms refl, of i "(kOk, JObject [])" "snd (sql_update_post i t (master w))"]
  by (simp add: PostUpdateHandler_def has_member_def field_string_def string_generator_to_str sql_update_post_def)

lemma delete_run:
  fixes w :: "'r world"
  assumes "faults w = []" and "db_ok (master w)"
  shows "\<exists>r. PostDeleteHandler L R P \<lparr>path_arg = to_str L i, args = as\<rparr> w
      = (Inr (kOk, []), w\<lparr>master := snd (sql_delete_post i (master w)), feed_redis := r\<rparr>)"
  using assms change_run [OF assms refl, of i "(kOk, [])" "snd (sql_delete_post i (master w))"]
  by (simp add: PostDeleteHandler_def string_generator_to_str sql_delete_post_def)

lemma add_friend_run:
  fixes w :: "'r world"
  assumes "faults w = []" and "gen L (path_arg req) = Some f" and "u \<in> user_ids (master w)"
    and "f \<in> user_ids (master w)"
  shows "FriendAddHandler L R now u req w
      = (Inr (kOk, []), w\<lparr>master := snd (sql_insert_friendship u f now (master w)),
           feed_redis := r_del R (feed_redis w) [MakeKey L u]\<rparr>)"
proof -
  have "fst (sql_insert_friendship u f now (master w)) = Inr ()"
    using assms(3,4) by (simp add: sql_insert_friendship_def)
  with assms(1,2) show ?thesis
    by (simp add: FriendAddHandler_def string_generator_def bind_def invalidate_feed_run)
qed

lemma add_friend_unknown:
  fixes w :: "'r world"
  assumes "faults w = []" and "db_ok (master w)" and "gen L (path_arg req) = Some f"
    and "u \<in> user_ids (master w)" and "f \<notin> user_ids (master w)"
  shows "FriendAddHandler L R now u req w = (Inl ConstraintViolation, w)"
  using assms
  by (auto simp: FriendAddHandler_def string_generator_def bind_def sql_insert_friendship_def db_ok_def)

lemma delete_friend_run:
  fixes w :: "'r world"
  assumes "faults w = []" and "gen L (path_arg req) = Some f"
  shows "FriendDeleteHandler L R u req w
      = (Inr (kOk, []), w\<lparr>master := snd (sql_delete_friendship u f (master w)),
           feed_redis := r_del R (feed_redis w) [MakeKey L u]\<rparr>)"
  using assms by (simp add: FriendDeleteHandler_def string_generator_def bind_def invalidate_feed_run
      sql_delete_friendship_def)

end

section \<open>Properties\<close>

text \<open>
  C1. The cache refines the database. In every state reached by handling requests one after the
  other (friends added and removed, posts created, updated and deleted, feeds read, with the
  replica caught up and the events consumed in between), a page of a user's feed is that page of
  the feed query on the master.
\<close>

theorem settled_feed_is_query:
  assumes "feed_env L R P" and "feed_reach L R P w"
    and "0 \<le> offset" and "0 < limit" and "offset + limit < 2 ^ 31"
  shows "fst (GetFeed L R P u offset limit w) = Inr (slice_of (feed_of_db P u (master w)) offset limit)"
proof -
  have inv: "feed_inv L R P w" using assms(1,2) by (rule feed_env.feed_reach_inv)
  then have "faults w = []" "feed_coherent L R P (slave w) (feed_redis w) u" "slave w = master w"
    by (auto simp: feed_inv_def)
  with feed_env.get_feed_page [OF assms(1) this(1,2) assms(3-5)] show ?thesis by (metis fst_conv)
qed

theorem settled_feed_is_query_witness:
  "let w = feed_step ref_lib ref_redis ref_planner (Create_Post (Uuid 12) 9 (Uuid 2) (text_body ''three''))
        (feed_step ref_lib ref_redis ref_planner (Read_Feed (Uuid 1) \<lparr>path_arg = [], args = []\<rparr>)
          (sample_world empty_keyspace))
   in fst (GetFeed ref_lib ref_redis ref_planner (Uuid 1) 0 10 w)
     = Inr (slice_of (feed_of_db ref_planner (Uuid 1) (master w)) 0 10)"
proof -
  let ?w1 = "feed_step ref_lib ref_redis ref_planner (Read_Feed (Uuid 1) \<lparr>path_arg = [], args = []\<rparr>)
          (sample_world empty_keyspace)"
  have reach: "feed_reach ref_lib ref_redis ref_planner ?w1"
    by (intro feed_reach.intros sample_start) simp
  have "master ?w1 = sample_db"
    by (simp add: feed_step_def settle_def PostFeedHandler_def feed_arg_def HasArg_def bind_def
        ref_feed.get_feed_miss empty_holds feed_slice_ok length_sample_feed sample_feed_of_db)
  then have "\<forall>p \<in> set (posts (master ?w1)). po_created p < 9"
    by (simp only:) (simp add: sample_db_def)
  then have "clock_ok (Create_Post (Uuid 12) 9 (Uuid 2) (text_body ''three'')) ?w1" by simp
  from settled_feed_is_query [OF ref_feed_axioms feed_reach.event [OF reach this], of 0 10]
  show ?thesis by (simp add: Let_def)
qed

text \<open>
  Late materialisation. A follower without a cached feed who reads it after the post reached
  the replica and before its event is consumed gets the post twice: once from the query and once
  from the event.
\<close>

lemma late_event_duplicates_post:
  assumes "feed_env L R P" and "faults w = []" and "db_ok (slave w)"
    and "feed_holds L R (feed_redis w) u []" and "follows (slave w) u author"
    and "\<lparr>fp_post_id = i, fp_text = t, fp_author = author\<rparr> \<in> set (feed_of_db P u (slave w))"
    and "length (feed_of_db P u (slave w)) < 1000"
  shows "\<exists>ps. feed_holds L R (feed_redis (snd (PostFeedConsumer_Process L R P (post_event L author i t)
           (snd (GetFeed L R P u offset limit w))))) u (\<lparr>fp_post_id = i, fp_text = t, fp_author = author\<rparr> # ps)
       \<and> \<lparr>fp_post_id = i, fp_text = t, fp_author = author\<rparr> \<in> set ps"
proof -
  have "feed_of_db P u (slave w) \<noteq> []" using assms(6) by auto
  from feed_env.late_event [OF assms(1-4) this assms(5)] assms(6,7) show ?thesis
    by (intro exI [of _ "feed_of_db P u (slave w)"]) simp
qed

lemma late_event_duplicates_post_example:
  "\<exists>ps. feed_holds ref_lib ref_redis (feed_redis (snd (PostFeedConsumer_Process ref_lib ref_redis ref_planner
       (post_event ref_lib (Uuid 2) (Uuid 11) ''two'')
       (snd (GetFeed ref_lib ref_redis ref_planner (Uuid 1) 0 10 (sample_world empty_keyspace)))))) (Uuid 1)
         (\<lparr>fp_post_id = Uuid 11, fp_text = ''two'', fp_author = Uuid 2\<rparr> # ps)
     \<and> \<lparr>fp_post_id = Uuid 11, fp_text = ''two'', fp_author = Uuid 2\<rparr> \<in> set ps"
  by (rule late_event_duplicates_post [OF ref_feed_axioms])
    (simp_all add: sample_db_ok empty_holds sample_follows sample_feed_of_db length_sample_feed, simp add: sample_feed_def)

text \<open>
  Redelivery. The consumer is not idempotent: an event that the broker delivers twice stands
  twice at the front of every cached feed of a follower.
\<close>

lemma redelivered_event_duplicates_post:
  fixes w :: "'r world"
  assumes "feed_env L R P" and "faults w = []" and "db_ok (slave w)"
    and "feed_holds L R (feed_redis w) u ps" and "ps \<noteq> []" and "follows (slave w) u author"
  shows "feed_holds L R (feed_redis
      (snd (PostFeedConsumer_Process L R P (post_event L author i t)
        (snd (PostFeedConsumer_Process L R P (post_event L author i t) w))))) u
      (take 1000 (\<lparr>fp_post_id = i, fp_text = t, fp_author = author\<rparr>
         # \<lparr>fp_post_id = i, fp_text = t, fp_author = author\<rparr> # ps))"
proof -
  let ?p = "\<lparr>fp_post_id = i, fp_text = t, fp_author = author\<rparr>"
  have "take 1000 (?p # take 1000 (?p # ps)) = take 1000 (?p # ?p # ps)"
    by (simp add: take_Cons' min_def)
  with feed_env.redelivered_event [OF assms, of i t] show ?thesis by (simp only:)
qed

lemma redelivered_event_duplicates_post_witness:
  "feed_holds ref_lib ref_redis (feed_redis
      (snd (PostFeedConsumer_Process ref_lib ref_redis ref_planner (post_event ref_lib (Uuid 2) (Uuid 12) ''x'')
        (snd (PostFeedConsumer_Process ref_lib ref_redis ref_planner (post_event ref_lib (Uuid 2) (Uuid 12) ''x'')
          (sample_world (cached_keyspace (Uuid 1) sample_feed))))))) (Uuid 1)
      (\<lparr>fp_post_id = Uuid 12, fp_text = ''x'', fp_author = Uuid 2\<rparr>
        # \<lparr>fp_post_id = Uuid 12, fp_text = ''x'', fp_author = Uuid 2\<rparr> # sample_feed)"
  using redelivered_event_duplicates_post [OF ref_feed_axioms,
      of "sample_world (cached_keyspace (Uuid 1) sample_feed)" "Uuid 1" sample_feed "Uuid 2" "Uuid 12" "''x''"]
    cached_holds [of "Uuid 1" sample_feed "Uuid 1"]
  by (simp add: sample_db_ok sample_follows) (simp add: sample_feed_def)

text \<open>
  Replication lag. A user who adds a friend and reads the feed before the replica knows of
  the friendship goes on reading the old feed from the cache after the replica has caught up.
\<close>

lemma stale_replica_feed_persists:
  fixes w :: "'r world"
  assumes "feed_env L R P" and "faults w = []" and "gen L (path_arg req) = Some fid"
    and "u \<in> user_ids (master w)" and "fid \<in> user_ids (master w)"
    and "feed_of_db P u (slave w) \<noteq> []"
    and "0 \<le> offset" and "0 < limit" and "offset + limit < 2 ^ 31"
    and "w' = replicate_now (snd (GetFeed L R P u o1 l1 (snd (FriendAddHandler L R now u req w))))"
  shows "follows (slave w') u fid \<and> slave w' = master w'
       \<and> fst (GetFeed L R P u offset limit w') = Inr (slice_of (feed_of_db P u (slave w)) offset limit)"
  using feed_env.stale_read [OF assms(1-9)] by (simp add: assms(10))

lemma stale_replica_feed_persists_witness:
  "fst (GetFeed ref_lib ref_redis ref_planner (Uuid 1) 0 10
      (replicate_now (snd (GetFeed ref_lib ref_redis ref_planner (Uuid 1) 0 10
        (snd (FriendAddHandler ref_lib ref_redis 3 (Uuid 1)
          \<lparr>path_arg = to_str ref_lib (Uuid 3), args = []\<rparr> (sample_world empty_keyspace)))))))
   = Inr sample_feed"
proof -
  have "slice_of sample_feed 0 10 = sample_feed" by (simp add: slice_of_def sample_feed_def)
  moreover have "sample_feed \<noteq> []" by (simp add: sample_feed_def)
  moreover have "{Uuid 1, Uuid 3} \<subseteq> user_ids sample_db" by (simp add: sample_db_def sample_user_def)
  ultimately show ?thesis
    using stale_replica_feed_persists [OF ref_feed_axioms, of "sample_world empty_keyspace"
        "\<lparr>path_arg = to_str ref_lib (Uuid 3), args = []\<rparr>" "Uuid 3" "Uuid 1" 0 10, OF _ _ _ _ _ _ _ _ refl]
    by (simp add: ref_library.gen_to_str sample_feed_of_db)
qed

text \<open>
  A lost event. When the broker does not take the event of a new post, the request fails, the
  post stays in the database and nothing is published: the cached feeds never learn of it.
\<close>

lemma unpublished_post_stays:
  assumes "faults w = [No_Fault, Fail_Before]" and "field_string (JObject body) ''text'' = Inr t"
    and "u \<in> user_ids (master w)" and "i \<notin> set (map po_id (posts (master w)))"
  shows "PostCreateHandler L e i now u body w
    = (Inl (ServiceError ''rabbitmq''),
       w\<lparr>faults := [], master := (master w)\<lparr>posts := posts (master w)
           @ [\<lparr>po_id = i, po_author = u, po_text = t, po_created = now\<rparr>]\<rparr>\<rparr>)"
proof -
  have "has_member body ''text''"
    using assms(2) by (auto simp: has_member_def field_string_def split: option.splits)
  with assms show ?thesis
    by (simp add: PostCreateHandler_def sql_insert_post_def bind_def Publish_def on_master_def publish_def ext_def)
qed

lemma unpublished_post_stays_witness:
  "fst (PostCreateHandler ref_lib ''feed-exchange'' (Uuid 12) 9 (Uuid 2) (text_body ''three'')
      ((sample_world empty_keyspace)\<lparr>faults := [No_Fault, Fail_Before]\<rparr>)) = Inl (ServiceError ''rabbitmq'')"
  by (subst unpublished_post_stays [where t = "''three''"])
    (simp_all add: text_body_def field_string_def sample_db_def sample_user_def)

text \<open>
  A created post is served. The request stores the post under its new identifier with the
  caller as its author and publishes one event; reading that identifier returns the text and the
  author.
\<close>

lemma created_post_is_served:
  assumes "library L" and "faults w = []" and "db_ok (master w)"
    and "field_string (JObject body) ''text'' = Inr t"
    and "u \<in> user_ids (master w)" and "i \<notin> set (map po_id (posts (master w)))"
  shows "fst (PostCreateHandler L e i now u body w) = Inr (kOk, JObject [(''id'', JString (to_str L i))])
       \<and> fst (PostGetHandler L \<lparr>path_arg = to_str L i, args = []\<rparr> (snd (PostCreateHandler L e i now u body w)))
         = Inr (kOk, json_dump L (JObject [(''id'', JString (to_str L i)), (''text'', JString t),
             (''author_user_id'', JString (to_str L u))]))
       \<and> published (snd (PostCreateHandler L e i now u body w))
         = published w @ [Publication e (''post.created.'' @ to_str L u) (post_event L u i t)]"
proof -
  let ?q = "\<lparr>po_id = i, po_author = u, po_text = t, po_created = now\<rparr>"
  let ?w = "w\<lparr>master := (master w)\<lparr>posts := posts (master w) @ [?q]\<rparr>,
         published := published w @ [Publication e (''post.created.'' @ to_str L u) (post_event L u i t)]\<rparr>"
  have "db_ok (snd (sql_insert_post i now u t (master w)))"
    using sql_insert_post_ok assms(3) by (rule preservesD)
  with assms(5,6) have ok: "db_ok (master ?w)" by (simp add: sql_insert_post_def)
  have "find (\<lambda>p. po_id p = i) (posts (master w)) = None"
    using assms(6) by (simp add: find_key_None)
  then have "find (\<lambda>p. po_id p = i) (posts (master ?w)) = Some ?q"
    by (simp add: find_snoc)
  with get_run [OF assms(1) _ ok, of i "[]"] assms(2) show ?thesis
    by (simp add: create_run [OF assms(2,4-6)])
qed

lemma created_post_is_served_example:
  "fst (PostGetHandler ref_lib \<lparr>path_arg = to_str ref_lib (Uuid 12), args = []\<rparr>
      (snd (PostCreateHandler ref_lib ''feed-exchange'' (Uuid 12) 9 (Uuid 2) (text_body ''three'')
        (sample_world empty_keyspace))))
   = Inr (kOk, json_dump ref_lib (JObject [(''id'', JString (to_str ref_lib (Uuid 12))),
       (''text'', JString ''three''), (''author_user_id'', JString (to_str ref_lib (Uuid 2)))]))"
  by (rule created_post_is_served [OF ref_library_axioms, THEN conjunct2, THEN conjunct1])
    (simp_all add: sample_db_ok text_body_def field_string_def, simp_all add: sample_db_def sample_user_def)

text \<open>
  C39. Posts change for any caller. Whoever sends the request, an update replaces the text of the
  post and keeps its author, a deletion removes the post, and both answer success; other posts
  are served as before.
\<close>

theorem post_change_ignores_caller:
  fixes w :: "'r world"
  assumes "feed_env L R P" and "faults w = []" and "db_ok (master w)"
    and "body = [(''id'', JString (to_str L i)), (''text'', JString t)]"
    and "req = \<lparr>path_arg = to_str L i, args = []\<rparr>"
    and "read = (\<lambda>j w. find (\<lambda>p. po_id p = j) (posts (master w)))"
  shows "fst (PostUpdateHandler L R P body w) = Inr (kOk, JObject [])
       \<and> read i (snd (PostUpdateHandler L R P body w)) = map_option (\<lambda>p. p\<lparr>po_text := t\<rparr>) (read i w)
       \<and> fst (PostDeleteHandler L R P req w) = Inr (kOk, [])
       \<and> read i (snd (PostDeleteHandler L R P req w)) = None
       \<and> (j \<noteq> i \<longrightarrow> read j (snd (PostUpdateHandler L R P body w)) = read j w
                \<and> read j (snd (PostDeleteHandler L R P req w)) = read j w)"
proof -
  obtain r where u: "PostUpdateHandler L R P body w
      = (Inr (kOk, JObject []), w\<lparr>master := snd (sql_update_post i t (master w)), feed_redis := r\<rparr>)"
    using feed_env.update_run [OF assms(1-3)] assms(4) by blast
  obtain r' where d: "PostDeleteHandler L R P req w
      = (Inr (kOk, []), w\<lparr>master := snd (sql_delete_post i (master w)), feed_redis := r'\<rparr>)"
    using feed_env.delete_run [OF assms(1-3)] assms(5) by blast
  show ?thesis
    by (simp add: u d assms(6) sql_update_post_def sql_delete_post_def find_updated find_removed)
qed

theorem post_change_ignores_caller_witness:
  "fst (PostDeleteHandler ref_lib ref_redis ref_planner \<lparr>path_arg = to_str ref_lib (Uuid 11), args = []\<rparr>
      (sample_world empty_keyspace)) = Inr (kOk, [])"
  using post_change_ignores_caller [OF ref_feed_axioms, of "sample_world empty_keyspace", OF _ _ refl refl refl]
    sample_db_ok by simp

text \<open>
  Friendships. Adding a friend makes the caller follow that user, removing one ends it, other
  pairs are untouched, and the caller's cached feed is dropped; a friend that does not exist
  violates a constraint and changes nothing.
\<close>

lemma friend_requests_are_exact:
  fixes w :: "'r world"
  assumes "feed_env L R P" and "faults w = []" and "db_ok (master w)"
    and "gen L (path_arg req) = Some f" and "u \<in> user_ids (master w)"
  shows "(f \<in> user_ids (master w) \<longrightarrow> fst (FriendAddHandler L R now u req w) = Inr (kOk, [])
          \<and> (\<forall>v a. follows (master (snd (FriendAddHandler L R now u req w))) v a
              \<longleftrightarrow> (v = u \<and> a = f) \<or> follows (master w) v a)
          \<and> feed_holds L R (feed_redis (snd (FriendAddHandler L R now u req w))) u [])
       \<and> (f \<notin> user_ids (master w) \<longrightarrow> FriendAddHandler L R now u req w = (Inl ConstraintViolation, w))
       \<and> fst (FriendDeleteHandler L R u req w) = Inr (kOk, [])
       \<and> (\<forall>v a. follows (master (snd (FriendDeleteHandler L R u req w))) v a
              \<longleftrightarrow> \<not> (v = u \<and> a = f) \<and> follows (master w) v a)
       \<and> feed_holds L R (feed_redis (snd (FriendDeleteHandler L R u req w))) u []"
  using feed_env.add_friend_run [OF assms(1,2,4,5)] feed_env.add_friend_unknown [OF assms]
    feed_env.delete_friend_run [OF assms(1,2,4)] feed_env.holds_del [OF assms(1), of u "[u]"]
    follows_insert [OF assms(5)]
  by (simp add: follows_delete)

lemma friend_requests_are_exact_example:
  "follows (master (snd (FriendAddHandler ref_lib ref_redis 3 (Uuid 1)
      \<lparr>path_arg = to_str ref_lib (Uuid 3), args = []\<rparr> (sample_world empty_keyspace)))) (Uuid 1) (Uuid 3)"
  using friend_requests_are_exact [OF ref_feed_axioms, of "sample_world empty_keyspace"
      "\<lparr>path_arg = to_str ref_lib (Uuid 3), args = []\<rparr>" "Uuid 3" "Uuid 1" 3] sample_db_ok
  by (simp add: ref_library.gen_to_str) (simp add: sample_db_def sample_user_def)

end
