(* ===== verification/Concurrency.thy ===== *)
theory Concurrency
  imports Prelude
begin

text \<open>
  Programs that can be interrupted between their calls: the resumption form of the handlers'
  effects, what running one alone means, and a rule for what holds in every interleaving.
\<close>

section \<open>Programs\<close>

text \<open>A program has a result, or makes a call, which changes the state and gives the rest.\<close>

datatype ('s, 'a) prog =
    Done "exn + 'a"
  | Call "'s \<Rightarrow> 's \<times> ('s, 'a) prog"

primrec run :: "('s, 'a) prog \<Rightarrow> ('s, 'a) eff" where
  "run (Done x) = (\<lambda>w. (x, w))"
| "run (Call f) = (\<lambda>w. case map_prod id run (f w) of (w', m) \<Rightarrow> m w')"

primrec pbind :: "('s, 'a) prog \<Rightarrow> ('a \<Rightarrow> ('s, 'b) prog) \<Rightarrow> ('s, 'b) prog" where
  "pbind (Done x) k = (case x of Inl e \<Rightarrow> Done (Inl e) | Inr a \<Rightarrow> k a)"
| "pbind (Call f) k = Call (\<lambda>w. map_prod id (\<lambda>p. pbind p k) (f w))"

definition pret :: "'a \<Rightarrow> ('s, 'a) prog" where
  "pret a = Done (Inr a)"

text \<open>One call that nothing interrupts.\<close>

definition atomic :: "('s, 'a) eff \<Rightarrow> ('s, 'a) prog" where
  "atomic m = Call (\<lambda>w. case m w of (x, w') \<Rightarrow> (w', Done x))"

fun pfor_each :: "'a list \<Rightarrow> ('a \<Rightarrow> ('s, unit) prog) \<Rightarrow> ('s, unit) prog" where
  "pfor_each [] f = pret ()"
| "pfor_each (x # xs) f = pbind (f x) (\<lambda>_. pfor_each xs f)"

lemma run_atomic [simp]: "run (atomic m) = m"
  by (simp add: atomic_def fun_eq_iff split: prod.split)

lemma run_done [simp]: "run (Done x) = lift_sum x" "run (pret a) = ret a"
  by (simp_all add: fun_eq_iff pret_def)

lemma run_pbind [simp]: "run (pbind p k) = bind (run p) (\<lambda>a. run (k a))"
proof (induction p)
  case (Done x)
  then show ?case by (cases x) (simp_all add: fun_eq_iff bind_def lift_sum_def)
next
  case (Call f)
  have "run (pbind (snd (f w)) k) = bind (run (snd (f w))) (\<lambda>a. run (k a))" for w
    by (rule Call [of "f w"]) (simp_all add: snds.simps)
  then show ?case by (simp add: fun_eq_iff bind_def split_beta)
qed

lemma pbind_assoc: "pbind (pbind p f) g = pbind p (\<lambda>a. pbind (f a) g)"
proof (induction p)
  case (Done x)
  then show ?case by (cases x) simp_all
next
  case (Call h)
  have "pbind (pbind (snd (h w)) f) g = pbind (snd (h w)) (\<lambda>a. pbind (f a) g)" for w
    by (rule Call [of "h w"]) (simp_all add: snds.simps)
  then show ?case by (simp add: fun_eq_iff map_prod_def split_beta)
qed

lemma pbind_pret [simp]: "pbind (pret a) c = c a"
  by (simp add: pret_def)

lemma pbind_if: "pbind (if b then p else p') c = (if b then pbind p c else pbind p' c)"
  by simp

lemma run_if [simp]: "run (if b then p else q) = (if b then run p else run q)"
  by simp

lemma run_pfor_each [simp]: "run (pfor_each xs f) = for_each xs (\<lambda>x. run (f x))"
  by (induction xs) simp_all

section \<open>What holds in every interleaving\<close>

text \<open>
  Every call of the program keeps \<open>I\<close> in any state that satisfies it, whatever happened since
  the call before, and a result satisfies \<open>Q\<close>.
\<close>

inductive ensures :: "('s \<Rightarrow> bool) \<Rightarrow> (exn + 'a \<Rightarrow> bool) \<Rightarrow> ('s, 'a) prog \<Rightarrow> bool"
  for I :: "'s \<Rightarrow> bool" and Q :: "exn + 'a \<Rightarrow> bool"
where
  result: "Q x \<Longrightarrow> ensures I Q (Done x)"
| call: "(\<And>w. I w \<Longrightarrow> I (fst (f w)) \<and> ensures I Q (snd (f w))) \<Longrightarrow> ensures I Q (Call f)"

inductive_simps ensures_done [simp]: "ensures I Q (Done x)"
inductive_simps ensures_call [simp]: "ensures I Q (Call f)"

named_theorems ensures_intros \<open>rules for what programs ensure\<close>

lemma ensures_atomic:
  assumes "\<And>w. I w \<Longrightarrow> I (snd (m w)) \<and> Q (fst (m w))"
  shows "ensures I Q (atomic m)"
  using assms by (auto simp: atomic_def split_beta)

lemma ensures_pbind:
  assumes "ensures I Q p" and "\<And>a. Q (Inr a) \<Longrightarrow> ensures I Q' (k a)" and "\<And>e. Q (Inl e) \<Longrightarrow> Q' (Inl e)"
  shows "ensures I Q' (pbind p k)"
  using assms(1)
proof (induction rule: ensures.induct)
  case (result x)
  with assms(2,3) show ?case by (cases x) simp_all
next
  case (call f)
  then show ?case by (simp add: split_beta)
qed

lemma ensures_if [ensures_intros]:
  "(b \<Longrightarrow> ensures I Q p) \<Longrightarrow> (\<not> b \<Longrightarrow> ensures I Q q) \<Longrightarrow> ensures I Q (if b then p else q)"
  by simp

lemma ensures_pret [ensures_intros]: "Q (Inr a) \<Longrightarrow> ensures I Q (pret a)"
  by (simp add: pret_def)

lemma ensures_pfor_each:
  assumes "\<And>x. x \<in> set xs \<Longrightarrow> ensures I Q (f x)" and "Q (Inr ())"
  shows "ensures I Q (pfor_each xs f)"
  using assms(1)
proof (induction xs)
  case Nil
  with assms(2) show ?case by (simp add: pret_def)
next
  case (Cons x xs)
  then have "ensures I Q (f x)" "ensures I Q (pfor_each xs f)" by simp_all
  then show ?case by (auto intro: ensures_pbind)
qed

lemma ensures_ext:
  assumes "\<And>w. I w \<Longrightarrow> I (snd (m w)) \<and> Q (fst (m w))" and "\<And>w fs. I w \<Longrightarrow> I (w\<lparr>faults := fs\<rparr>)" and "Q (Inl e)"
  shows "ensures I Q (atomic (ext e m))"
  using assms by (intro ensures_atomic) (auto simp: ext_def Let_def split: list.splits fault.splits)

section \<open>Exceptions and case distinctions\<close>

primrec ptry_catch :: "('s, 'a) prog \<Rightarrow> (exn \<Rightarrow> bool) \<Rightarrow> ('s, 'a) prog \<Rightarrow> ('s, 'a) prog" where
  "ptry_catch (Done x) caught h = (case x of Inl e \<Rightarrow> if caught e then h else Done (Inl e) | Inr a \<Rightarrow> pret a)"
| "ptry_catch (Call f) caught h = Call (\<lambda>w. map_prod id (\<lambda>p. ptry_catch p caught h) (f w))"

lemma run_ptry_catch [simp]: "run (ptry_catch p caught h) = try_catch (run p) caught (run h)"
proof (induction p)
  case (Done x)
  then show ?case by (cases x) (simp_all add: fun_eq_iff try_catch_def lift_sum_def)
next
  case (Call f)
  have "run (ptry_catch (snd (f w)) caught h) = try_catch (run (snd (f w))) caught (run h)" for w
    by (rule Call [of "f w"]) (simp_all add: snds.simps)
  then show ?case by (simp add: fun_eq_iff try_catch_def split_beta)
qed

lemma run_cases:
  "run (case l of [] \<Rightarrow> p | x # xs \<Rightarrow> q x xs) = (case l of [] \<Rightarrow> run p | x # xs \<Rightarrow> run (q x xs))"
  "run (case v of None \<Rightarrow> p' | Some x \<Rightarrow> q' x) = (case v of None \<Rightarrow> run p' | Some x \<Rightarrow> run (q' x))"
  "run (case s of Inl x \<Rightarrow> p'' x | Inr y \<Rightarrow> q'' y) = (case s of Inl x \<Rightarrow> run (p'' x) | Inr y \<Rightarrow> run (q'' y))"
  "run (case t of (x, y) \<Rightarrow> r x y) = (case t of (x, y) \<Rightarrow> run (r x y))"
  by (simp_all split: list.split option.split sum.split prod.split)

section \<open>What every call does\<close>

text \<open>
  A program that relies on \<open>known k\<close>, which no other program may break: every call it makes in a
  state with it is a step of \<open>G\<close>, and what the call tells may be relied on by the rest.
\<close>

inductive guarantees :: "('k \<Rightarrow> 's \<Rightarrow> bool) \<Rightarrow> ('s \<Rightarrow> 's \<Rightarrow> bool) \<Rightarrow> 'k \<Rightarrow> ('s, 'a) prog \<Rightarrow> bool"
  for known :: "'k \<Rightarrow> 's \<Rightarrow> bool" and G :: "'s \<Rightarrow> 's \<Rightarrow> bool"
where
  result: "guarantees known G k (Done x)"
| call: "(\<And>w. known k w \<Longrightarrow> G w (fst (f w)) \<and> (\<exists>k'. known k' (fst (f w)) \<and> guarantees known G k' (snd (f w)))) \<Longrightarrow>
    guarantees known G k (Call f)"

inductive_simps guarantees_call: "guarantees known G k (Call f)"

lemma guarantees_weaken:
  assumes "guarantees known G k p" and "\<And>w. known k' w \<Longrightarrow> known k w"
  shows "guarantees known G k' p"
  using assms by (cases rule: guarantees.cases) (auto intro: guarantees.intros)

lemma guarantees_pbind:
  assumes "guarantees known G k p" and "\<And>a k. guarantees known G k (c a)"
  shows "guarantees known G k (pbind p c)"
  using assms(1)
proof (induction rule: guarantees.induct)
  case (result k x)
  then show ?case using assms(2) by (cases x) (auto intro: guarantees.result)
next
  case (call k f)
  then show ?case by (simp add: split_beta guarantees_call) blast
qed

lemma guarantees_ptry_catch:
  assumes "guarantees known G k p" and "\<And>k. guarantees known G k h"
  shows "guarantees known G k (ptry_catch p caught h)"
  using assms(1)
proof (induction rule: guarantees.induct)
  case (result k x)
  then show ?case using assms(2) by (cases x) (auto simp: pret_def intro: guarantees.result)
next
  case (call k f)
  then show ?case by (simp add: split_beta guarantees_call) blast
qed

text \<open>A call whose result tells something that the rest of the program relies on.\<close>

lemma guarantees_atomic_pbind:
  assumes "\<And>w. known k w \<Longrightarrow> G w (snd (m w))"
    and "\<And>w a. known k w \<Longrightarrow> fst (m w) = Inr a \<Longrightarrow> \<exists>k'. known k' (snd (m w)) \<and> guarantees known G k' (c a)"
    and "\<And>w. \<exists>k'. known k' w"
  shows "guarantees known G k (pbind (atomic m) c)"
proof -
  have "\<exists>k'. known k' (snd (m w)) \<and> guarantees known G k' (case fst (m w) of Inl e \<Rightarrow> Done (Inl e) | Inr a \<Rightarrow> c a)"
    if "known k w" for w
    using assms(2) [OF that] assms(3) [of "snd (m w)"] by (cases "fst (m w)") (auto intro: guarantees.result)
  with assms(1) show ?thesis
    by (auto simp: atomic_def split_beta intro!: guarantees.call)
qed

named_theorems guarantees_intros \<open>rules for what every call of a program does\<close>

lemma guarantees_pret [guarantees_intros]: "guarantees known G k (pret a)" "guarantees known G k (Done x)"
  by (simp_all add: pret_def guarantees.result)

lemma guarantees_cases [guarantees_intros]:
  "(b \<Longrightarrow> guarantees known G k p) \<Longrightarrow> (\<not> b \<Longrightarrow> guarantees known G k q) \<Longrightarrow> guarantees known G k (if b then p else q)"
  "guarantees known G k p \<Longrightarrow> (\<And>x. guarantees known G k (r x)) \<Longrightarrow>
   guarantees known G k (case v of None \<Rightarrow> p | Some x \<Rightarrow> r x)"
  "guarantees known G k p \<Longrightarrow> (\<And>x xs. guarantees known G k (t x xs)) \<Longrightarrow>
   guarantees known G k (case l of [] \<Rightarrow> p | x # xs \<Rightarrow> t x xs)"
  "(\<And>x. guarantees known G k (r x)) \<Longrightarrow> (\<And>x. guarantees known G k (r' x)) \<Longrightarrow>
   guarantees known G k (case s of Inl x \<Rightarrow> r x | Inr x \<Rightarrow> r' x)"
  "(\<And>x y. guarantees known G k (t' x y)) \<Longrightarrow> guarantees known G k (case pr of (x, y) \<Rightarrow> t' x y)"
  by (simp_all split: option.split list.split sum.split prod.split)

lemma guarantees_pfor_each [guarantees_intros]:
  assumes "\<And>x k. x \<in> set xs \<Longrightarrow> guarantees known G k (f x)"
  shows "guarantees known G k (pfor_each xs f)"
  using assms
proof (induction xs arbitrary: k)
  case (Cons x xs)
  then have "\<And>k. guarantees known G k (f x)" "\<And>k. guarantees known G k (pfor_each xs f)" by simp_all
  then show ?case by (simp add: guarantees_pbind)
qed (simp add: guarantees_pret)

lemmas guarantees_composed [guarantees_intros] = guarantees_pbind guarantees_ptry_catch

lemma guarantees_atomic:
  assumes "\<And>w. G w (snd (m w))" and "\<And>w. \<exists>k'. known k' w"
  shows "guarantees known G k (atomic m)"
  using assms by (simp add: atomic_def split_beta guarantees_call) (blast intro: guarantees.result)

section \<open>How many calls a program makes\<close>

text \<open>The program makes at most \<open>n\<close> calls, whatever they answer.\<close>

inductive within :: "nat \<Rightarrow> ('s, 'a) prog \<Rightarrow> bool" where
  result: "within n (Done x)"
| call: "(\<And>w. within n (snd (f w))) \<Longrightarrow> within (Suc n) (Call f)"

inductive_simps within_call: "within n (Call f)"

named_theorems within_intros \<open>rules for the number of calls of a program\<close>

lemma within_mono: "within n p \<Longrightarrow> n \<le> m \<Longrightarrow> within m p"
proof (induction arbitrary: m rule: within.induct)
  case (call n f)
  then obtain m' where "m = Suc m'" "n \<le> m'" by (cases m) auto
  with call.IH show ?case by (auto intro: within.call)
qed (rule within.result)

lemma within_pbind:
  assumes "within m p" and "\<And>a. within n (k a)"
  shows "within (m + n) (pbind p k)"
  using assms(1)
proof (induction rule: within.induct)
  case (result m x)
  show ?case using within_mono [OF assms(2), of "m + n"] by (cases x) (auto intro: within.result)
next
  case (call m f)
  then show ?case by (auto intro!: within.call simp: split_beta)
qed

lemma within_ptry_catch:
  assumes "within m p" and "within n h"
  shows "within (m + n) (ptry_catch p caught h)"
  using assms(1)
proof (induction rule: within.induct)
  case (result m x)
  show ?case using within_mono [OF assms(2), of "m + n"] by (cases x) (auto simp: pret_def intro: within.result)
next
  case (call m f)
  then show ?case by (auto intro!: within.call simp: split_beta)
qed

lemma within_done [within_intros, simp]: "within n (Done x)" "within n (pret a)"
  by (simp_all add: pret_def within.result)

lemma within_atomic [within_intros]: "within (Suc n) (atomic m)"
  by (auto simp: atomic_def split_beta intro!: within.call within.result)

lemma within_cases [within_intros]:
  "(b \<Longrightarrow> within n p) \<Longrightarrow> (\<not> b \<Longrightarrow> within n q) \<Longrightarrow> within n (if b then p else q)"
  "within n p \<Longrightarrow> (\<And>x. within n (r x)) \<Longrightarrow> within n (case v of None \<Rightarrow> p | Some x \<Rightarrow> r x)"
  "within n p \<Longrightarrow> (\<And>x xs. within n (t x xs)) \<Longrightarrow> within n (case l of [] \<Rightarrow> p | x # xs \<Rightarrow> t x xs)"
  "(\<And>x. within n (r x)) \<Longrightarrow> (\<And>x. within n (r' x)) \<Longrightarrow> within n (case s of Inl x \<Rightarrow> r x | Inr x \<Rightarrow> r' x)"
  "(\<And>x y. within n (t' x y)) \<Longrightarrow> within n (case pr of (x, y) \<Rightarrow> t' x y)"
  by (simp_all split: option.split list.split sum.split prod.split)

text \<open>A sequence that begins with a call, one that begins with a result, and a loop.\<close>

lemma within_atomic_pbind [within_intros]: "(\<And>a. within n (k a)) \<Longrightarrow> within (Suc n) (pbind (atomic m) k)"
  using within_pbind [OF within_atomic [of 0], of n k] by simp

lemma within_done_pbind [within_intros]:
  "(\<And>a. within n (k a)) \<Longrightarrow> within n (pbind (Done x) k)" "within n (k b) \<Longrightarrow> within n (pbind (pret b) k)"
  by (cases x) (simp_all add: pret_def)

lemma within_pfor_each:
  assumes "\<And>x. within n (f x)"
  shows "within (n * length xs) (pfor_each xs f)"
  by (induction xs) (simp_all add: within_pbind assms)

end
