(* ===== verification/Feed_Concurrency.thy ===== *)
theory Feed_Concurrency
  imports Feed_Cache Concurrency
begin

text \<open>
  The feed cache when requests and events overlap: the operations of \<open>post_feed_cache.cpp\<close> as
  programs that can be interrupted between their calls, the system in which any number of them
  run at once, what every interleaving guarantees, and two races.
\<close>

section \<open>The operations, call by call\<close>

definition GetFeed_prog ::
  "lib \<Rightarrow> 'r redis \<Rightarrow> planner \<Rightarrow> uuid \<Rightarrow> int \<Rightarrow> int \<Rightarrow> (('r, 'z) world_scheme, feed_post list) prog"
where
  "GetFeed_prog L R P user_id offset limit =
     (let key = MakeKey L user_id in
      pbind (atomic (redis_get (\<lambda>r. r_exists R r key))) (\<lambda>found.
      if 0 < found
      then pbind (Done (sum_bind (int32_result (offset + limit)) (\<lambda>s. int32_result (s - 1)))) (\<lambda>stop.
           pbind (atomic (redis_get (\<lambda>r. r_lrange R r key offset stop))) (\<lambda>raw.
           Done (sum_list_map (DeserializePost L) raw)))
      else pbind (atomic (LoadFeedFromDb P user_id)) (\<lambda>db_feed.
           pbind (if db_feed \<noteq> []
                  then pbind (atomic (redis_put (\<lambda>r. r_rpush R r key (map (SerializePost L) db_feed)))) (\<lambda>_.
                       atomic (redis_put (\<lambda>r. r_ltrim R r key 0 (int kMaxFeedSize - 1))))
                  else pret ()) (\<lambda>_.
           Done (feed_slice db_feed offset limit)))))"

definition OnPostCreated_prog ::
  "lib \<Rightarrow> 'r redis \<Rightarrow> planner \<Rightarrow> uuid \<Rightarrow> uuid \<Rightarrow> string \<Rightarrow> (('r, 'z) world_scheme, unit) prog"
where
  "OnPostCreated_prog L R P author_id post_id text =
     pbind (atomic (GetFollowers P author_id)) (\<lambda>followers.
     let serialized = SerializePost L \<lparr>fp_post_id = post_id, fp_text = text, fp_author = author_id\<rparr> in
     pfor_each followers (\<lambda>follower_id.
       let key = MakeKey L follower_id in
       pbind (atomic (redis_get (\<lambda>r. r_exists R r key))) (\<lambda>found.
       if 0 < found
       then pbind (atomic (redis_put (\<lambda>r. r_lpush R r key serialized))) (\<lambda>_.
            atomic (redis_put (\<lambda>r. r_ltrim R r key 0 (int kMaxFeedSize - 1))))
       else pret ())))"

definition InvalidateFeedsOfFollowersOf_prog ::
  "lib \<Rightarrow> 'r redis \<Rightarrow> planner \<Rightarrow> uuid \<Rightarrow> (('r, 'z) world_scheme, unit) prog"
where
  "InvalidateFeedsOfFollowersOf_prog L R P author_id =
     pbind (atomic (GetFollowers P author_id)) (\<lambda>followers.
     if followers = [] then pret ()
     else atomic (redis_put (\<lambda>r. r_del R r (map (MakeKey L) followers))))"

definition InvalidateFeed_prog :: "lib \<Rightarrow> 'r redis \<Rightarrow> uuid \<Rightarrow> (('r, 'z) world_scheme, unit) prog" where
  "InvalidateFeed_prog L R user_id = atomic (redis_put (\<lambda>r. r_del R r [MakeKey L user_id]))"

text \<open>Run without interruption, the programs are the operations, whatever fails.\<close>

lemma run_feed_operations [simp]:
  "run (GetFeed_prog L R P u offset limit) = GetFeed L R P u offset limit"
  "run (OnPostCreated_prog L R P a i x) = OnPostCreated L R P a i x"
  "run (InvalidateFeedsOfFollowersOf_prog L R P a) = InvalidateFeedsOfFollowersOf L R P a"
  "run (InvalidateFeed_prog L R u) = InvalidateFeed L R u"
  by (simp_all add: GetFeed_prog_def GetFeed_def OnPostCreated_prog_def OnPostCreated_def
      InvalidateFeedsOfFollowersOf_prog_def InvalidateFeedsOfFollowersOf_def InvalidateFeed_prog_def InvalidateFeed_def
      Let_def cong: if_cong del: run.simps pbind.simps pbind_pret)

section \<open>Operations at once\<close>

datatype feed_request =
    Read_Feed uuid int int
  | Post_Created uuid uuid string
  | Author_Changed uuid
  | Friends_Changed uuid

fun request_prog ::
  "lib \<Rightarrow> 'r redis \<Rightarrow> planner \<Rightarrow> feed_request \<Rightarrow> (('r, 'z) world_scheme, feed_post list) prog"
where
  "request_prog L R P (Read_Feed u offset limit) = GetFeed_prog L R P u offset limit"
| "request_prog L R P (Post_Created a i text) = pbind (OnPostCreated_prog L R P a i text) (\<lambda>_. pret [])"
| "request_prog L R P (Author_Changed a) = pbind (InvalidateFeedsOfFollowersOf_prog L R P a) (\<lambda>_. pret [])"
| "request_prog L R P (Friends_Changed u) = pbind (InvalidateFeed_prog L R u) (\<lambda>_. pret [])"

type_synonym 'r feed_task = "feed_request \<times> ('r world, feed_post list) prog"

text \<open>The tasks of all instances and what they share.\<close>

type_synonym 'r feed_tasks = "(nat \<rightharpoonup> 'r feed_task) \<times> 'r world"

text \<open>
  A request arrives, a task makes one call, or something else happens: calls start or stop to
  fail, events are published, the databases change. The replica only takes states from \<open>D\<close>.
\<close>

inductive feed_conc_step :: "lib \<Rightarrow> 'r redis \<Rightarrow> planner \<Rightarrow> db set \<Rightarrow> 'r feed_tasks \<Rightarrow> 'r feed_tasks \<Rightarrow> bool"
  for L :: lib and R :: "'r redis" and P :: planner and D :: "db set"
where
  arrive: "tasks k = None \<Longrightarrow>
    feed_conc_step L R P D (tasks, w) (tasks(k \<mapsto> (q, request_prog L R P q)), w)"
| call: "tasks k = Some (q, Call f) \<Longrightarrow> f w = (w', p) \<Longrightarrow>
    feed_conc_step L R P D (tasks, w) (tasks(k \<mapsto> (q, p)), w')"
| elsewhere: "feed_redis w' = feed_redis w \<Longrightarrow> slave w' \<in> D \<Longrightarrow>
    feed_conc_step L R P D (tasks, w) (tasks, w')"

inductive_cases feed_conc_stepE: "feed_conc_step L R P D s t"

text \<open>One call of task \<open>k\<close>, as a function.\<close>

definition advance :: "nat \<Rightarrow> 'r feed_tasks \<Rightarrow> 'r feed_tasks" where
  "advance k s = (case s of (tasks, w) \<Rightarrow>
     (case tasks k of
        Some (q, Call f) \<Rightarrow> (case f w of (w', p) \<Rightarrow> (tasks(k \<mapsto> (q, p)), w'))
      | _ \<Rightarrow> (tasks, w)))"

lemma advance_step: "(feed_conc_step L R P D)\<^sup>*\<^sup>* s (advance k s)"
  by (cases s)
    (auto simp: advance_def split: option.splits prog.splits prod.splits intro: r_into_rtranclp feed_conc_step.call)

lemma schedule_steps: "(feed_conc_step L R P D)\<^sup>*\<^sup>* s (fold advance ks s)"
proof (induction ks arbitrary: s)
  case (Cons k ks)
  from rtranclp_trans [OF advance_step Cons.IH] show ?case by simp
qed simp

text \<open>A start without cached feeds and with a replica state of \<open>D\<close>.\<close>

definition feed_conc_start :: "lib \<Rightarrow> 'r redis \<Rightarrow> db set \<Rightarrow> 'r feed_tasks \<Rightarrow> bool" where
  "feed_conc_start L R D s \<longleftrightarrow> fst s = Map.empty \<and> slave (snd s) \<in> D
     \<and> (\<forall>u. r_type R (feed_redis (snd s)) (MakeKey L u) = TNone)"

section \<open>What every interleaving guarantees\<close>

text \<open>\<open>u\<close> follows \<open>a\<close> in one of the states the replica takes.\<close>

definition followed_in :: "db set \<Rightarrow> uuid \<Rightarrow> feed_post \<Rightarrow> bool" where
  "followed_in D u p \<longleftrightarrow> (\<exists>d \<in> D. follows d u (fp_author p))"

definition followed_cache :: "lib \<Rightarrow> 'r redis \<Rightarrow> db set \<Rightarrow> ('r, 'z) world_scheme \<Rightarrow> bool" where
  "followed_cache L R D w \<longleftrightarrow> slave w \<in> D
     \<and> (\<forall>u. \<exists>ps. feed_holds L R (feed_redis w) u ps \<and> (\<forall>p \<in> set ps. followed_in D u p))"

text \<open>
  How a call can fail: with its service. Only a read of a page that is out of range (the handler
  passes on any offset and limit) can also fail in its arithmetic.
\<close>

definition call_failure :: "bool \<Rightarrow> exn \<Rightarrow> bool" where
  "call_failure risky e \<longleftrightarrow> e \<in> {ServiceError ''redis'', ServiceError ''postgres''} \<or> risky \<and> e = Undefined_Behaviour"

definition page_in_range :: "int \<Rightarrow> int \<Rightarrow> bool" where
  "page_in_range offset limit \<longleftrightarrow> 0 \<le> offset \<and> 0 \<le> limit \<and> offset + limit < 2 ^ 31"

fun risky_page :: "feed_request \<Rightarrow> bool" where
  "risky_page (Read_Feed u offset limit) = (\<not> page_in_range offset limit)"
| "risky_page q = False"

text \<open>What a request may return.\<close>

definition returns :: "bool \<Rightarrow> ('a \<Rightarrow> bool) \<Rightarrow> exn + 'a \<Rightarrow> bool" where
  "returns risky V x \<longleftrightarrow> (case x of Inl e \<Rightarrow> call_failure risky e | Inr a \<Rightarrow> V a)"

lemma returns_simps [simp]: "returns risky V (Inr a) = V a" "returns risky V (Inl e) = call_failure risky e"
  by (simp_all add: returns_def)

fun page_allowed :: "db set \<Rightarrow> feed_request \<Rightarrow> feed_post list \<Rightarrow> bool" where
  "page_allowed D (Read_Feed u offset limit) page = (\<forall>p \<in> set page. followed_in D u p)"
| "page_allowed D q page = (page = [])"

lemma ensures_bind_returns:
  assumes "ensures I (returns risky V) p" and "\<And>a. V a \<Longrightarrow> ensures I (returns risky V') (k a)"
  shows "ensures I (returns risky V') (pbind p k)"
  using assms by (rule ensures_pbind) simp_all

context feed_env
begin

lemma followed_cacheI:
  assumes "followed_cache L R D w"
    and "\<And>u ps. feed_holds L R (feed_redis w) u ps \<Longrightarrow> \<forall>p \<in> set ps. followed_in D u p \<Longrightarrow>
      \<exists>qs. feed_holds L R r u qs \<and> (\<forall>p \<in> set qs. followed_in D u p)"
  shows "followed_cache L R D (w\<lparr>feed_redis := r\<rparr>)"
  using assms unfolding followed_cache_def by simp blast

lemma followed_trim:
  assumes "followed_cache L R D w"
  shows "followed_cache L R D (w\<lparr>feed_redis := r_ltrim R (feed_redis w) (key v) 0 (int kMaxFeedSize - 1)\<rparr>)"
proof (rule followed_cacheI [OF assms])
  fix u ps assume ps: "feed_holds L R (feed_redis w) u ps" "\<forall>p \<in> set ps. followed_in D u p"
  show "\<exists>qs. feed_holds L R (r_ltrim R (feed_redis w) (key v) 0 (int kMaxFeedSize - 1)) u qs
      \<and> (\<forall>p \<in> set qs. followed_in D u p)"
    using ps holds_trim [of "feed_redis w" v] holds_other(3) [of u v]
    by (cases "u = v") (blast dest: in_set_takeD)+
qed

lemma followed_rpush:
  assumes "followed_cache L R D w" and "qs \<noteq> []" and "\<forall>p \<in> set qs. followed_in D v p"
  shows "followed_cache L R D (w\<lparr>feed_redis := r_rpush R (feed_redis w) (key v) (map (SerializePost L) qs)\<rparr>)"
proof (rule followed_cacheI [OF assms(1)])
  fix u ps assume ps: "feed_holds L R (feed_redis w) u ps" "\<forall>p \<in> set ps. followed_in D u p"
  have "\<forall>p \<in> set (ps @ qs). followed_in D v p" if "u = v" using ps(2) assms(3) that by auto
  then show "\<exists>qs'. feed_holds L R (r_rpush R (feed_redis w) (key v) (map (SerializePost L) qs)) u qs'
      \<and> (\<forall>p \<in> set qs'. followed_in D u p)"
    using ps holds_rpush [OF _ assms(2)] holds_other(1) [of u v] by (cases "u = v") blast+
qed

lemma followed_lpush:
  assumes "followed_cache L R D w" and "followed_in D v p"
  shows "followed_cache L R D (w\<lparr>feed_redis := r_lpush R (feed_redis w) (key v) (SerializePost L p)\<rparr>)"
proof (rule followed_cacheI [OF assms(1)])
  fix u ps assume ps: "feed_holds L R (feed_redis w) u ps" "\<forall>p \<in> set ps. followed_in D u p"
  have "\<forall>q \<in> set (p # ps). followed_in D v q" if "u = v" using ps(2) assms(2) that by auto
  then show "\<exists>qs. feed_holds L R (r_lpush R (feed_redis w) (key v) (SerializePost L p)) u qs
      \<and> (\<forall>p \<in> set qs. followed_in D u p)"
    using ps holds_lpush holds_other(2) [of u v] by (cases "u = v") blast+
qed

lemma followed_del:
  assumes "followed_cache L R D w"
  shows "followed_cache L R D (w\<lparr>feed_redis := r_del R (feed_redis w) (map (MakeKey L) us)\<rparr>)"
proof (rule followed_cacheI [OF assms])
  fix u ps assume ps: "feed_holds L R (feed_redis w) u ps" "\<forall>p \<in> set ps. followed_in D u p"
  show "\<exists>qs. feed_holds L R (r_del R (feed_redis w) (map (MakeKey L) us)) u qs \<and> (\<forall>p \<in> set qs. followed_in D u p)"
    using ps holds_del [of u us] holds_del_other [of u us] by (cases "u \<in> set us") (fastforce, blast)
qed

text \<open>The calls, in any state that keeps the invariant.\<close>

lemma followed_faults [simp]: "followed_cache L R D (w\<lparr>faults := fs\<rparr>) = followed_cache L R D w"
  by (simp add: followed_cache_def)

lemma ensures_redis_put:
  assumes "\<And>w :: ('r, 'z) world_scheme. followed_cache L R D w \<Longrightarrow> followed_cache L R D (w\<lparr>feed_redis := f (feed_redis w)\<rparr>)" and "V ()"
  shows "ensures (followed_cache L R D) (returns risky V) (atomic (redis_put f :: (('r, 'z) world_scheme, unit) eff))"
  unfolding redis_put_def
  by (rule ensures_ext) (use assms in \<open>simp_all add: call_failure_def\<close>)

lemma ensures_redis_get:
  assumes "\<And>w :: ('r, 'z) world_scheme. followed_cache L R D w \<Longrightarrow> V (p (feed_redis w))"
  shows "ensures (followed_cache L R D) (returns risky V) (atomic (redis_get p :: (('r, 'z) world_scheme, 'a) eff))"
  unfolding redis_get_def
  by (rule ensures_ext) (use assms in \<open>simp_all add: call_failure_def\<close>)

lemma ensures_from_slave:
  assumes "\<And>w :: ('r, 'z) world_scheme. followed_cache L R D w \<Longrightarrow> V (q (slave w))"
  shows "ensures (followed_cache L R D) (returns risky V) (atomic (from_slave q :: (('r, 'z) world_scheme, 'a) eff))"
  unfolding from_slave_def
  by (rule ensures_ext) (use assms in \<open>simp_all add: call_failure_def\<close>)

lemma ensures_followers:
  "ensures (followed_cache L R D) (returns risky (\<lambda>us. \<forall>u \<in> set us. \<exists>d \<in> D. follows d u a)) (atomic (GetFollowers P a))"
  unfolding GetFollowers_def
  by (rule ensures_from_slave) (auto simp: set_sql_followers [OF planning_axioms] followed_cache_def)

lemma feed_rows_followed: "p \<in> set (feed_rows u d) \<Longrightarrow> follows d u (po_author p)"
  by (auto simp: feed_rows_def follows_def)

lemma load_feed_call:
  "LoadFeedFromDb P u = ext (ServiceError ''postgres'') (query (\<lambda>w. feed_of_db P u (slave w)))"
  by (auto simp: LoadFeedFromDb_def from_slave_def feed_of_db_def fun_eq_iff bind_def ext_def Let_def
      split: list.splits fault.splits)

lemma ensures_load:
  "ensures (followed_cache L R D) (returns risky (\<lambda>ps. length ps \<le> 1000 \<and> (\<forall>p \<in> set ps. followed_in D u p))) (atomic (LoadFeedFromDb P u))"
  unfolding load_feed_call
proof (rule ensures_ext)
  fix w assume "followed_cache L R D w"
  then have "slave w \<in> D" by (simp add: followed_cache_def)
  then have "\<forall>p \<in> set (feed_of_db P u (slave w)). followed_in D u p"
    using feed_rows_followed set_sql_feed [OF _ planning_axioms]
    by (fastforce simp: feed_of_db_def feed_of_row_def followed_in_def)
  with \<open>followed_cache L R D w\<close> show "followed_cache L R D (snd (query (\<lambda>w. feed_of_db P u (slave w)) w))
      \<and> returns risky (\<lambda>ps. length ps \<le> 1000 \<and> (\<forall>p \<in> set ps. followed_in D u p)) (fst (query (\<lambda>w. feed_of_db P u (slave w)) w))"
    by (simp add: length_feed_of_db)
qed (simp_all add: followed_cache_def call_failure_def)

lemma ensures_range:
  "ensures (followed_cache L R D) (returns risky (\<lambda>raw. \<exists>ps. raw = map (SerializePost L) ps \<and> (\<forall>p \<in> set ps. followed_in D u p)))
     (atomic (redis_get (\<lambda>r. r_lrange R r (key u) a b)))"
proof (rule ensures_redis_get)
  fix w assume "followed_cache L R D w"
  then obtain ps where ps: "feed_holds L R (feed_redis w) u ps" "\<forall>p \<in> set ps. followed_in D u p"
    unfolding followed_cache_def by blast
  then have "r_lrange R (feed_redis w) (key u) a b = map (SerializePost L) (redis_slice ps a b)"
    by (simp add: feed_holds_def lrange redis_slice_map)
  moreover have "set (redis_slice ps a b) \<subseteq> set ps"
    by (auto simp: redis_slice_def Let_def dest: in_set_takeD in_set_dropD)
  ultimately show "\<exists>ps. r_lrange R (feed_redis w) (key u) a b = map (SerializePost L) ps \<and> (\<forall>p \<in> set ps. followed_in D u p)"
    using ps(2) by blast
qed

lemma feed_slice_subset: "feed_slice ps offset limit = Inr page \<Longrightarrow> set page \<subseteq> set ps"
  by (auto simp: feed_slice_def Let_def split: if_splits dest: in_set_takeD in_set_dropD)

lemma ensures_get_feed:
  assumes "\<not> risky \<longrightarrow> page_in_range offset limit"
  shows "ensures (followed_cache L R D) (returns risky (\<lambda>page. \<forall>p \<in> set page. followed_in D u p)) (GetFeed_prog L R P u offset limit)"
  unfolding GetFeed_prog_def Let_def
proof (rule ensures_bind_returns [where V = "\<lambda>_. True"])
  show "ensures (followed_cache L R D) (returns risky (\<lambda>_. True)) (atomic (redis_get (\<lambda>r. r_exists R r (key u))))"
    by (rule ensures_redis_get) simp
next
  fix found
  have index: "ensures (followed_cache L R D) (returns risky (\<lambda>_. True)) (Done (sum_bind (int32_result (offset + limit)) (\<lambda>s. int32_result (s - 1))))"
  proof (cases risky)
    case True
    then show ?thesis
      by (auto simp: returns_def sum_bind_eq_Inl call_failure_def split: sum.split dest: int32_result_error)
  next
    case False
    with assms show ?thesis by (simp add: page_in_range_def int32_result_def in_int32_def)
  qed
  have hit: "ensures (followed_cache L R D) (returns risky (\<lambda>page. \<forall>p \<in> set page. followed_in D u p))
      (pbind (atomic (redis_get (\<lambda>r. r_lrange R r (key u) offset stop))) (\<lambda>raw. Done (sum_list_map (DeserializePost L) raw)))" for stop
    by (rule ensures_bind_returns [OF ensures_range]) (auto simp: deserialize_all)
  have miss: "ensures (followed_cache L R D) (returns risky (\<lambda>page. \<forall>p \<in> set page. followed_in D u p))
      (pbind (atomic (LoadFeedFromDb P u)) (\<lambda>db_feed.
        pbind (if db_feed \<noteq> []
               then pbind (atomic (redis_put (\<lambda>r. r_rpush R r (key u) (map (SerializePost L) db_feed)))) (\<lambda>_.
                    atomic (redis_put (\<lambda>r. r_ltrim R r (key u) 0 (int kMaxFeedSize - 1))))
               else pret ()) (\<lambda>_. Done (feed_slice db_feed offset limit))))"
  proof (rule ensures_bind_returns [OF ensures_load])
    fix db_feed assume "length db_feed \<le> 1000 \<and> (\<forall>p \<in> set db_feed. followed_in D u p)"
    then have short: "length db_feed \<le> 1000" and ok: "\<forall>p \<in> set db_feed. followed_in D u p" by simp_all
    have "ensures (followed_cache L R D) (returns risky (\<lambda>_. True))
        (if db_feed \<noteq> []
         then pbind (atomic (redis_put (\<lambda>r. r_rpush R r (key u) (map (SerializePost L) db_feed)))) (\<lambda>_.
              atomic (redis_put (\<lambda>r. r_ltrim R r (key u) 0 (int kMaxFeedSize - 1))))
         else pret ())"
      by (intro ensures_if ensures_pret ensures_bind_returns [where V = "\<lambda>_. True"] ensures_redis_put
          followed_rpush followed_trim ok) (simp_all add: ok)
    moreover have "ensures (followed_cache L R D) (returns risky (\<lambda>page. \<forall>p \<in> set page. followed_in D u p))
        (Done (feed_slice db_feed offset limit))"
    proof (cases "feed_slice db_feed offset limit")
      case (Inl e)
      with feed_slice_ok [of offset limit db_feed] short have "\<not> page_in_range offset limit" by (auto simp: page_in_range_def)
      with assms Inl feed_slice_error [OF Inl] show ?thesis by (simp add: call_failure_def)
    next
      case (Inr page)
      with ok feed_slice_subset [OF Inr] show ?thesis by auto
    qed
    ultimately show "ensures (followed_cache L R D) (returns risky (\<lambda>page. \<forall>p \<in> set page. followed_in D u p))
        (pbind (if db_feed \<noteq> []
               then pbind (atomic (redis_put (\<lambda>r. r_rpush R r (key u) (map (SerializePost L) db_feed)))) (\<lambda>_.
                    atomic (redis_put (\<lambda>r. r_ltrim R r (key u) 0 (int kMaxFeedSize - 1))))
               else pret ()) (\<lambda>_. Done (feed_slice db_feed offset limit)))"
      by (rule ensures_bind_returns)
  qed
  show "ensures (followed_cache L R D) (returns risky (\<lambda>page. \<forall>p \<in> set page. followed_in D u p))
     (if (0 :: int) < found
      then pbind (Done (sum_bind (int32_result (offset + limit)) (\<lambda>s. int32_result (s - 1)))) (\<lambda>stop.
           pbind (atomic (redis_get (\<lambda>r. r_lrange R r (key u) offset stop))) (\<lambda>raw.
           Done (sum_list_map (DeserializePost L) raw)))
      else pbind (atomic (LoadFeedFromDb P u)) (\<lambda>db_feed.
           pbind (if db_feed \<noteq> []
                  then pbind (atomic (redis_put (\<lambda>r. r_rpush R r (key u) (map (SerializePost L) db_feed)))) (\<lambda>_.
                       atomic (redis_put (\<lambda>r. r_ltrim R r (key u) 0 (int kMaxFeedSize - 1))))
                  else pret ()) (\<lambda>_. Done (feed_slice db_feed offset limit))))"
    by (intro ensures_if ensures_bind_returns [OF index] hit miss)
qed

lemma ensures_post_created:
  "ensures (followed_cache L R D) (returns risky (\<lambda>_. True)) (OnPostCreated_prog L R P a i x)"
  unfolding OnPostCreated_prog_def Let_def
proof (rule ensures_bind_returns [OF ensures_followers], rule ensures_pfor_each)
  fix us u assume "\<forall>u \<in> set us. \<exists>d \<in> D. follows d u a" and "u \<in> set us"
  then have ok: "followed_in D u \<lparr>fp_post_id = i, fp_text = x, fp_author = a\<rparr>" by (simp add: followed_in_def)
  show "ensures (followed_cache L R D) (returns risky (\<lambda>_. True))
      (pbind (atomic (redis_get (\<lambda>r. r_exists R r (key u)))) (\<lambda>found.
       if 0 < found
       then pbind (atomic (redis_put (\<lambda>r. r_lpush R r (key u) (SerializePost L \<lparr>fp_post_id = i, fp_text = x, fp_author = a\<rparr>)))) (\<lambda>_.
            atomic (redis_put (\<lambda>r. r_ltrim R r (key u) 0 (int kMaxFeedSize - 1))))
       else pret ()))"
    by (intro ensures_if ensures_pret ensures_bind_returns [where V = "\<lambda>_. True"] ensures_redis_put ensures_redis_get
        followed_lpush followed_trim ok) simp_all
qed simp

lemma ensures_invalidations:
  "ensures (followed_cache L R D) (returns risky (\<lambda>_. True)) (InvalidateFeedsOfFollowersOf_prog L R P a)"
  "ensures (followed_cache L R D) (returns risky (\<lambda>_. True)) (InvalidateFeed_prog L R u)"
proof -
  show "ensures (followed_cache L R D) (returns risky (\<lambda>_. True)) (InvalidateFeedsOfFollowersOf_prog L R P a)"
    unfolding InvalidateFeedsOfFollowersOf_prog_def
    by (intro ensures_bind_returns [OF ensures_followers] ensures_if ensures_pret ensures_redis_put followed_del) simp_all
  show "ensures (followed_cache L R D) (returns risky (\<lambda>_. True)) (InvalidateFeed_prog L R u)"
    unfolding InvalidateFeed_prog_def
    using followed_del [of D _ "[u]"] by (intro ensures_redis_put) simp_all
qed

lemma ensures_request: "ensures (followed_cache L R D) (returns (risky_page q) (page_allowed D q)) (request_prog L R P q)"
proof (cases q)
  case (Read_Feed u offset limit)
  have "page_allowed D q = (\<lambda>page. \<forall>p \<in> set page. followed_in D u p)" by (simp add: Read_Feed fun_eq_iff)
  with ensures_get_feed [of "risky_page q" offset limit D u] Read_Feed show ?thesis by simp
qed (auto intro!: ensures_bind_returns [where V = "\<lambda>_. True"] ensures_post_created ensures_invalidations ensures_pret)

lemma feed_conc_inv:
  assumes "feed_conc_start L R D s" and "(feed_conc_step L R P D)\<^sup>*\<^sup>* s t"
  shows "followed_cache L R D (snd t)
    \<and> (\<forall>k q p. fst t k = Some (q, p) \<longrightarrow> ensures (followed_cache L R D) (returns (risky_page q) (page_allowed D q)) p)"
  using assms(2)
proof (induction rule: rtranclp_induct)
  case base
  have "feed_holds L R (feed_redis (snd s)) u []" for u
    using assms(1) none_list [of "feed_redis (snd s)" "key u"] by (simp add: feed_conc_start_def feed_holds_def)
  then have "\<exists>ps. feed_holds L R (feed_redis (snd s)) u ps \<and> (\<forall>p \<in> set ps. followed_in D u p)" for u
    by (metis empty_iff empty_set)
  with assms(1) show ?case by (simp add: feed_conc_start_def followed_cache_def)
next
  case (step t t')
  from step.hyps(2) step.IH show ?case
  proof (induction rule: feed_conc_step.induct)
    case (arrive tasks k w q)
    then show ?case using ensures_request by auto
  next
    case (call tasks k q f w w' p)
    then have "ensures (followed_cache L R D) (returns (risky_page q) (page_allowed D q)) (Call f)" and "followed_cache L R D w"
      by (metis fst_conv, simp)
    with call.hyps(2) have "followed_cache L R D w'" "ensures (followed_cache L R D) (returns (risky_page q) (page_allowed D q)) p"
      by force+
    with call.prems show ?case by auto
  next
    case (elsewhere w' w tasks)
    then show ?case by (simp add: followed_cache_def)
  qed
qed

end

section \<open>Two races\<close>

lemma advance_atomic:
  "tasks k = Some (q, pbind (atomic m) c) \<Longrightarrow> m w = (x, w') \<Longrightarrow>
   advance k (tasks, w) = (tasks(k \<mapsto> (q, pbind (Done x) c)), w')"
  by (simp add: advance_def atomic_def)

lemma advance_redis:
  assumes "faults w = []"
  shows "tasks k = Some (q, pbind (atomic (redis_get p)) c) \<Longrightarrow>
      advance k (tasks, w) = (tasks(k \<mapsto> (q, c (p (feed_redis w)))), w)"
    and "tasks k = Some (q, pbind (atomic (redis_put f)) d) \<Longrightarrow>
      advance k (tasks, w) = (tasks(k \<mapsto> (q, d ())), w\<lparr>feed_redis := f (feed_redis w)\<rparr>)"
  using assms by (simp_all add: advance_def atomic_def)

text \<open>What is left of a read that missed, before it asks the replica and before it fills the cache.\<close>

definition fill_prog ::
  "lib \<Rightarrow> 'r redis \<Rightarrow> uuid \<Rightarrow> int \<Rightarrow> int \<Rightarrow> feed_post list \<Rightarrow> (('r, 'z) world_scheme, feed_post list) prog"
where
  "fill_prog L R u offset limit db_feed =
     pbind (atomic (redis_put (\<lambda>r. r_rpush R r (MakeKey L u) (map (SerializePost L) db_feed)))) (\<lambda>_.
     pbind (atomic (redis_put (\<lambda>r. r_ltrim R r (MakeKey L u) 0 (int kMaxFeedSize - 1)))) (\<lambda>_.
     Done (feed_slice db_feed offset limit)))"

definition load_prog ::
  "lib \<Rightarrow> 'r redis \<Rightarrow> planner \<Rightarrow> uuid \<Rightarrow> int \<Rightarrow> int \<Rightarrow> (('r, 'z) world_scheme, feed_post list) prog"
where
  "load_prog L R P u offset limit = pbind (atomic (LoadFeedFromDb P u)) (\<lambda>db_feed.
     if db_feed \<noteq> [] then fill_prog L R u offset limit db_feed else Done (feed_slice db_feed offset limit))"

lemma get_feed_stages:
  "\<exists>hit. GetFeed_prog L R P u offset limit =
     pbind (atomic (redis_get (\<lambda>r. r_exists R r (MakeKey L u)))) (\<lambda>found. if 0 < found then hit else load_prog L R P u offset limit)"
proof -
  have if_fill: "(pbind (if c then pbind p (\<lambda>_. r) else pret ()) (\<lambda>_. d) :: (('r, 'z) world_scheme, feed_post list) prog)
      = (if c then pbind p (\<lambda>_. pbind r (\<lambda>_. d)) else d)" for c d and p r :: "(('r, 'z) world_scheme, unit) prog"
    by (simp add: pbind_assoc)
  show ?thesis
    unfolding GetFeed_prog_def Let_def load_prog_def fill_prog_def
    by (intro exI [of _ "pbind (Done (sum_bind (int32_result (offset + limit)) (\<lambda>s. int32_result (s - 1)))) (\<lambda>stop.
           pbind (atomic (redis_get (\<lambda>r. r_lrange R r (MakeKey L u) offset stop))) (\<lambda>raw.
           Done (sum_list_map (DeserializePost L) raw)))"]) (simp only: if_fill)
qed

lemma advance_miss:
  assumes "faults w = []" and "tasks k = Some (q, GetFeed_prog L R P u offset limit)"
    and "\<not> 0 < r_exists R (feed_redis w) (MakeKey L u)"
  shows "advance k (tasks, w) = (tasks(k \<mapsto> (q, load_prog L R P u offset limit)), w)"
proof -
  obtain hit where "tasks k = Some (q, pbind (atomic (redis_get (\<lambda>r. r_exists R r (MakeKey L u))))
      (\<lambda>found. if 0 < found then hit else load_prog L R P u offset limit))"
    using assms(2) get_feed_stages [of L R P u offset limit] by auto
  from advance_redis(1) [of w tasks k, OF assms(1) this] assms(3) show ?thesis by simp
qed

lemma advance_load:
  assumes "faults w = []" and "tasks k = Some (q, load_prog L R P u offset limit)"
    and "feed_of_db P u (slave w) \<noteq> []"
  shows "advance k (tasks, w) = (tasks(k \<mapsto> (q, fill_prog L R u offset limit (feed_of_db P u (slave w)))), w)"
proof -
  have "LoadFeedFromDb P u w = (Inr (feed_of_db P u (slave w)), w)"
    using assms(1) by (simp add: LoadFeedFromDb_def bind_def feed_of_db_def)
  from advance_atomic [of tasks k, OF assms(2) [unfolded load_prog_def] this] assms(3) show ?thesis by simp
qed

lemma advance_fill:
  assumes "faults w = []" and "tasks k = Some (q, fill_prog L R u offset limit ps)" and "ps \<noteq> []"
  shows "advance k (advance k (tasks, w))
    = (tasks(k \<mapsto> (q, Done (feed_slice ps offset limit))), w\<lparr>feed_redis := fill_cache L R u ps (feed_redis w)\<rparr>)"
  unfolding advance_redis(2) [of w tasks k, OF assms(1) assms(2) [unfolded fill_prog_def]]
  using assms(1,3) by (simp add: advance_redis fill_cache_def)

context feed_env
begin

text \<open>Two reads miss at the same time and both fill the cache.\<close>

lemma concurrent_fill:
  assumes "faults w = []" and "feed_holds L R (feed_redis w) u []" and "i \<noteq> j"
    and "tasks i = Some (q, GetFeed_prog L R P u offset limit)"
    and "tasks j = Some (q', GetFeed_prog L R P u offset' limit')"
    and "feed_of_db P u (slave w) \<noteq> []"
  defines "ps \<equiv> feed_of_db P u (slave w)"
  shows "fold advance [i, j, i, j, i, i, j, j] (tasks, w)
    = (tasks(i \<mapsto> (q, Done (feed_slice ps offset limit)), j \<mapsto> (q', Done (feed_slice ps offset' limit'))),
       w\<lparr>feed_redis := fill_cache L R u ps (fill_cache L R u ps (feed_redis w))\<rparr>)"
proof -
  have none: "\<not> 0 < r_exists R (feed_redis w) (key u)"
    using holds_present [OF assms(2)] by (simp add: exists_pos)
  show ?thesis
    using assms(1,3-6) none
    by (simp add: advance_miss advance_load advance_fill ps_def fun_upd_twist [of i j])
qed

lemma cached_page:
  assumes "faults w = []" and "feed_holds L R (feed_redis w) u ps" and "ps \<noteq> []"
    and "0 \<le> offset" "0 < limit" "offset + limit < 2 ^ 31"
  shows "fst (GetFeed L R P u offset limit w) = Inr (slice_of ps offset limit)"
  using get_feed_hit [OF assms(1-3), of offset limit] slice_hit [OF assms(4-6), of ps] by simp

text \<open>An invalidation between the question whether a feed is cached and the push.\<close>

lemma push_stages:
  "request_prog L R P (Post_Created a n x) = pbind (atomic (GetFollowers P a)) (\<lambda>us.
     pbind (pfor_each us (\<lambda>u. pbind (atomic (redis_get (\<lambda>r. r_exists R r (key u)))) (\<lambda>found.
       if 0 < found
       then pbind (atomic (redis_put (\<lambda>r. r_lpush R r (key u)
              (SerializePost L \<lparr>fp_post_id = n, fp_text = x, fp_author = a\<rparr>)))) (\<lambda>_.
            atomic (redis_put (\<lambda>r. r_ltrim R r (key u) 0 (int kMaxFeedSize - 1))))
       else pret ()))) (\<lambda>_. pret []))"
  by (simp add: OnPostCreated_prog_def Let_def pbind_assoc)

lemma advance_post_created:
  assumes "faults w = []" and "tasks k = Some (q, request_prog L R P (Post_Created a n x))"
    and "sql_followers P a (slave w) = [u]" and "0 < r_exists R (feed_redis w) (key u)"
  defines "p \<equiv> \<lparr>fp_post_id = n, fp_text = x, fp_author = a\<rparr>"
  shows "advance k (advance k (tasks, w)) = (tasks(k \<mapsto> (q,
      pbind (atomic (redis_put (\<lambda>r. r_lpush R r (key u) (SerializePost L p)))) (\<lambda>_.
      pbind (atomic (redis_put (\<lambda>r. r_ltrim R r (key u) 0 (int kMaxFeedSize - 1)))) (\<lambda>_. pret []))) ), w)"
proof -
  have "GetFollowers P a w = (Inr [u], w)" using assms(1,3) by (simp add: GetFollowers_def)
  from advance_atomic [of tasks k, OF assms(2) [unfolded push_stages] this]
  show ?thesis
    using assms(4)
    by (simp add: pbind_assoc pbind_if p_def advance_redis(1) [OF assms(1)])
qed

lemma advance_push:
  assumes "faults w = []" and "tasks k = Some (q,
      pbind (atomic (redis_put (\<lambda>r. r_lpush R r (key u) s))) (\<lambda>_.
      pbind (atomic (redis_put (\<lambda>r. r_ltrim R r (key u) 0 (int kMaxFeedSize - 1)))) (\<lambda>_. pret [])))"
  shows "advance k (advance k (tasks, w)) = (tasks(k \<mapsto> (q, Done (Inr []))),
      w\<lparr>feed_redis := r_ltrim R (r_lpush R (feed_redis w) (key u) s) (key u) 0 (int kMaxFeedSize - 1)\<rparr>)"
  unfolding advance_redis(2) [of w tasks k, OF assms]
  using assms(1) by (simp add: advance_redis) (simp add: pret_def)

lemma advance_invalidate:
  assumes "faults w = []" and "tasks k = Some (q, request_prog L R P (Friends_Changed u))"
  shows "advance k (tasks, w) = (tasks(k \<mapsto> (q, Done (Inr []))), w\<lparr>feed_redis := r_del R (feed_redis w) [key u]\<rparr>)"
  using advance_redis(2) [of w tasks k, OF assms(1) assms(2) [unfolded request_prog.simps InvalidateFeed_prog_def]]
  by (simp add: pret_def)

lemma push_after_del:
  assumes "faults w = []" and "feed_holds L R (feed_redis w) u ps" and "ps \<noteq> []" and "i \<noteq> j"
    and "sql_followers P a (slave w) = [u]"
    and "tasks i = Some (q, request_prog L R P (Post_Created a n x))"
    and "tasks j = Some (q', request_prog L R P (Friends_Changed u))"
  defines "p \<equiv> \<lparr>fp_post_id = n, fp_text = x, fp_author = a\<rparr>"
  shows "fold advance [i, i, j, i, i] (tasks, w)
    = (tasks(i \<mapsto> (q, Done (Inr [])), j \<mapsto> (q', Done (Inr []))),
       w\<lparr>feed_redis := r_ltrim R (r_lpush R (r_del R (feed_redis w) [key u]) (key u) (SerializePost L p)) (key u) 0 (int kMaxFeedSize - 1)\<rparr>)"
proof -
  have some: "0 < r_exists R (feed_redis w) (key u)"
    using holds_present [OF assms(2)] assms(3) by (simp add: exists_pos)
  show ?thesis
    using assms(1,4,7) advance_post_created [of w tasks i, OF assms(1,6,5) some]
    by (simp add: advance_invalidate advance_push p_def fun_upd_twist [of i j] del: request_prog.simps)
qed

text \<open>A change and its invalidation between the load of a feed and the fill of the cache.\<close>

lemma fill_after_del:
  assumes "faults w = []" and "feed_holds L R (feed_redis w) u []" and "i \<noteq> j"
    and "tasks i = Some (q, GetFeed_prog L R P u offset limit)"
    and "tasks j = Some (q', request_prog L R P (Friends_Changed u))"
    and "ps = feed_of_db P u (slave w)" and "ps \<noteq> []" and "d \<in> D"
  shows "(feed_conc_step L R P D)\<^sup>*\<^sup>* (tasks, w)
    (tasks(i \<mapsto> (q, Done (feed_slice ps offset limit)), j \<mapsto> (q', Done (Inr []))),
     w\<lparr>slave := d, feed_redis := fill_cache L R u ps (r_del R (feed_redis w) [key u])\<rparr>)"
proof -
  let ?fill = "fill_prog L R u offset limit ps"
  let ?w = "w\<lparr>slave := d\<rparr>"
  have none: "\<not> 0 < r_exists R (feed_redis w) (key u)"
    using holds_present [OF assms(2)] by (simp add: exists_pos)
  have "fold advance [i, i] (tasks, w) = (tasks(i \<mapsto> (q, ?fill)), w)"
    using assms(1,4,6,7) none by (simp add: advance_miss advance_load)
  then have load: "(feed_conc_step L R P D)\<^sup>*\<^sup>* (tasks, w) (tasks(i \<mapsto> (q, ?fill)), w)"
    using schedule_steps [of L R P D "(tasks, w)" "[i, i]"] by simp
  have change: "feed_conc_step L R P D (tasks(i \<mapsto> (q, ?fill)), w) (tasks(i \<mapsto> (q, ?fill)), ?w)"
    by (rule feed_conc_step.elsewhere) (simp_all add: assms(8))
  have "fold advance [j, i, i] (tasks(i \<mapsto> (q, ?fill)), ?w)
      = (tasks(i \<mapsto> (q, Done (feed_slice ps offset limit)), j \<mapsto> (q', Done (Inr []))),
         ?w\<lparr>feed_redis := fill_cache L R u ps (r_del R (feed_redis w) [key u])\<rparr>)"
    using assms(1,3,5,7) by (simp add: advance_invalidate advance_fill fun_upd_twist [of i j] del: request_prog.simps)
  then have "(feed_conc_step L R P D)\<^sup>*\<^sup>* (tasks(i \<mapsto> (q, ?fill)), ?w)
      (tasks(i \<mapsto> (q, Done (feed_slice ps offset limit)), j \<mapsto> (q', Done (Inr []))),
         ?w\<lparr>feed_redis := fill_cache L R u ps (r_del R (feed_redis w) [key u])\<rparr>)"
    using schedule_steps [of L R P D "(tasks(i \<mapsto> (q, ?fill)), ?w)" "[j, i, i]"] by simp
  with rtranclp.rtrancl_into_rtrancl [OF load change] show ?thesis by (rule rtranclp_trans)
qed

lemma holds_after_del: "feed_holds L R
    (r_ltrim R (r_lpush R (r_del R r [key u]) (key u) (SerializePost L p)) (key u) 0 (int kMaxFeedSize - 1)) u [p]"
  using holds_trim [OF holds_lpush [OF holds_del [of u "[u]" r]], of p] by simp

end

section \<open>A concrete system\<close>

text \<open>Two reads of the feed of user 1 that arrive before either makes a call.\<close>

definition two_reads :: "keyspace feed_tasks" where
  "two_reads = ([0 \<mapsto> (Read_Feed (Uuid 1) 0 10, request_prog ref_lib ref_redis ref_planner (Read_Feed (Uuid 1) 0 10)),
                 1 \<mapsto> (Read_Feed (Uuid 1) 0 10, request_prog ref_lib ref_redis ref_planner (Read_Feed (Uuid 1) 0 10))],
                sample_world empty_keyspace)"

lemma empty_conc_start: "feed_conc_start ref_lib ref_redis {sample_db} (Map.empty, sample_world empty_keyspace)"
  by (simp add: feed_conc_start_def) (simp add: ref_redis_def empty_keyspace_def)

lemma two_reads_arrive:
  "(feed_conc_step ref_lib ref_redis ref_planner {sample_db})\<^sup>*\<^sup>* (Map.empty, sample_world empty_keyspace) two_reads"
proof -
  let ?q = "Read_Feed (Uuid 1) 0 10"
  let ?t = "([0 \<mapsto> (?q, request_prog ref_lib ref_redis ref_planner ?q)], sample_world empty_keyspace)"
  have "feed_conc_step ref_lib ref_redis ref_planner {sample_db} (Map.empty, sample_world empty_keyspace) ?t"
    by (rule feed_conc_step.arrive) simp
  moreover have "feed_conc_step ref_lib ref_redis ref_planner {sample_db} ?t two_reads"
    unfolding two_reads_def by (rule feed_conc_step.arrive) simp
  ultimately show ?thesis by simp
qed

lemma sample_slice: "feed_slice sample_feed 0 10 = Inr sample_feed"
  by (subst feed_slice_ok) (simp_all add: sample_feed_def slice_of_def)

section \<open>Properties\<close>

text \<open>
  C3. Whose posts a feed shows. However the calls of any number of reads, events and invalidations
  interleave, whatever fails and however the databases change in between: every cached feed
  decodes and holds only posts of authors whom its user followed in some state of the replica, so
  does every page that is returned. An operation fails only with a service, except that a read of a
  page with a negative offset or limit, or whose end is past the 32-bit integers, may also run into
  undefined behaviour.
\<close>

theorem concurrent_feeds_show_followed:
  assumes "feed_env L R P" and "feed_conc_start L R D s"
    and "(feed_conc_step L R P D)\<^sup>*\<^sup>* s (tasks, w)"
  shows "(\<forall>u. \<exists>ps. feed_holds L R (feed_redis w) u ps \<and> (\<forall>p \<in> set ps. \<exists>d \<in> D. follows d u (fp_author p)))
    \<and> (\<forall>k u offset limit page. tasks k = Some (Read_Feed u offset limit, Done (Inr page)) \<longrightarrow>
        (\<forall>p \<in> set page. \<exists>d \<in> D. follows d u (fp_author p)))
    \<and> (\<forall>k q e. tasks k = Some (q, Done (Inl e)) \<longrightarrow>
        e \<in> {ServiceError ''redis'', ServiceError ''postgres''}
      \<or> e = Undefined_Behaviour \<and> (\<exists>u offset limit. q = Read_Feed u offset limit
          \<and> \<not> (0 \<le> offset \<and> 0 \<le> limit \<and> offset + limit < 2 ^ 31)))"
proof -
  note inv = feed_env.feed_conc_inv [OF assms, simplified]
  have page: "returns (risky_page q) (page_allowed D q) x" if "tasks k = Some (q, Done x)" for k q x
    using inv that by fastforce
  show ?thesis
  proof (intro conjI allI impI)
    show "\<exists>ps. feed_holds L R (feed_redis w) u ps \<and> (\<forall>p \<in> set ps. \<exists>d \<in> D. follows d u (fp_author p))" for u
      using inv unfolding followed_cache_def followed_in_def by blast
    show "\<forall>p \<in> set r. \<exists>d \<in> D. follows d u (fp_author p)"
      if "tasks k = Some (Read_Feed u offset limit, Done (Inr r))" for k u offset limit r
      using page [OF that] by (simp add: followed_in_def)
    show "e \<in> {ServiceError ''redis'', ServiceError ''postgres''}
      \<or> e = Undefined_Behaviour \<and> (\<exists>u offset limit. q = Read_Feed u offset limit
          \<and> \<not> (0 \<le> offset \<and> 0 \<le> limit \<and> offset + limit < 2 ^ 31))"
      if "tasks k = Some (q, Done (Inl e))" for k q e
      using page [OF that] by (cases q) (auto simp: call_failure_def page_in_range_def)
  qed
qed

theorem concurrent_feeds_show_followed_witness:
  "\<exists>ps. feed_holds ref_lib ref_redis (feed_redis (snd (fold advance [0, 1, 0, 1, 0, 0, 1, 1] two_reads))) (Uuid 1) ps
    \<and> (\<forall>p \<in> set ps. follows sample_db (Uuid 1) (fp_author p))"
proof -
  have "(feed_conc_step ref_lib ref_redis ref_planner {sample_db})\<^sup>*\<^sup>* (Map.empty, sample_world empty_keyspace)
      (fst (fold advance [0, 1, 0, 1, 0, 0, 1, 1] two_reads), snd (fold advance [0, 1, 0, 1, 0, 0, 1, 1] two_reads))"
    unfolding prod.collapse by (rule rtranclp_trans [OF two_reads_arrive schedule_steps])
  from concurrent_feeds_show_followed [OF ref_feed_axioms empty_conc_start this]
  show ?thesis by simp
qed

text \<open>
  C35. Concurrent misses. Two reads of a feed that is not cached can overlap so that both return
  the right page and both fill the cache, which then holds the feed twice: the next read, at any
  later time, returns every post twice.
\<close>

theorem concurrent_misses_duplicate_feed:
  assumes "feed_env L R P" and "faults w = []" and "feed_holds L R (feed_redis w) u []" and "i \<noteq> j"
    and "ps = feed_of_db P u (slave w)" and "ps \<noteq> []"
    and "tasks i = Some (Read_Feed u offset limit, request_prog L R P (Read_Feed u offset limit))"
    and "tasks j = Some (Read_Feed u offset limit, request_prog L R P (Read_Feed u offset limit))"
    and "0 \<le> offset" and "0 < limit" and "offset + limit < 2 ^ 31"
  shows "\<exists>tasks' w'. (feed_conc_step L R P D)\<^sup>*\<^sup>* (tasks, w) (tasks', w')
    \<and> tasks' i = Some (Read_Feed u offset limit, Done (Inr (take (nat limit) (drop (nat offset) ps))))
    \<and> tasks' j = Some (Read_Feed u offset limit, Done (Inr (take (nat limit) (drop (nat offset) ps))))
    \<and> slave w' = slave w \<and> feed_holds L R (feed_redis w') u (take 1000 (ps @ ps))
    \<and> fst (GetFeed L R P u offset limit w') = Inr (take (nat limit) (drop (nat offset) (take 1000 (ps @ ps))))"
proof -
  let ?r = "fill_cache L R u ps (fill_cache L R u ps (feed_redis w))"
  have short: "length ps \<le> 1000" using length_feed_of_db [of P u "slave w"] assms(5) by simp
  have slice: "feed_slice ps offset limit = Inr (take (nat limit) (drop (nat offset) ps))"
    using feed_slice_ok [of offset limit ps] assms(9-11) short by (simp add: slice_of_def)
  have steps: "(feed_conc_step L R P D)\<^sup>*\<^sup>* (tasks, w)
      (tasks(i \<mapsto> (Read_Feed u offset limit, Done (feed_slice ps offset limit)),
             j \<mapsto> (Read_Feed u offset limit, Done (feed_slice ps offset limit))), w\<lparr>feed_redis := ?r\<rparr>)"
    using schedule_steps [of L R P D "(tasks, w)" "[i, j, i, j, i, i, j, j]"]
      feed_env.concurrent_fill [OF assms(1-4), of tasks "Read_Feed u offset limit" offset limit "Read_Feed u offset limit" offset limit]
      assms(5-8) by simp
  have twice: "feed_holds L R ?r u (take 1000 (ps @ ps))"
    using feed_env.holds_fill [OF assms(1) feed_env.holds_fill [OF assms(1,3), of ps], of ps] assms(6) short by simp
  have "fst (GetFeed L R P u offset limit (w\<lparr>feed_redis := ?r\<rparr>))
      = Inr (take (nat limit) (drop (nat offset) (take 1000 (ps @ ps))))"
    using feed_env.cached_page [OF assms(1), of "w\<lparr>feed_redis := ?r\<rparr>" u "take 1000 (ps @ ps)" offset limit]
      assms(2,6,9-11) twice by (simp add: slice_of_def)
  with steps twice slice assms(4) show ?thesis
    by (intro exI [of _ "tasks(i \<mapsto> (Read_Feed u offset limit, Done (feed_slice ps offset limit)),
             j \<mapsto> (Read_Feed u offset limit, Done (feed_slice ps offset limit)))"] exI [of _ "w\<lparr>feed_redis := ?r\<rparr>"]) simp
qed

theorem concurrent_misses_duplicate_feed_witness:
  "\<exists>tasks' w'. (feed_conc_step ref_lib ref_redis ref_planner {sample_db})\<^sup>*\<^sup>* two_reads (tasks', w')
    \<and> feed_holds ref_lib ref_redis (feed_redis w') (Uuid 1) (sample_feed @ sample_feed)"
  using concurrent_misses_duplicate_feed [OF ref_feed_axioms, of "sample_world empty_keyspace" "Uuid 1" 0 1
      sample_feed "fst two_reads" 0 10 "{sample_db}"] empty_holds sample_feed_of_db
  by (auto simp: two_reads_def sample_feed_def)

text \<open>
  C36. A push into an invalidated feed. When the author's only follower changes friends between the
  two calls with which the consumer finds the feed cached and pushes a post, the pushed post alone
  becomes the cached feed: from then on a read returns that one post, whatever the database holds.
\<close>

theorem push_into_invalidated_feed:
  assumes "feed_env L R P" and "faults w = []" and "feed_holds L R (feed_redis w) u ps" and "ps \<noteq> []" and "i \<noteq> j"
    and "sql_followers P a (slave w) = [u]" and "p = \<lparr>fp_post_id = n, fp_text = x, fp_author = a\<rparr>"
    and "tasks i = Some (Post_Created a n x, request_prog L R P (Post_Created a n x))"
    and "tasks j = Some (Friends_Changed u, request_prog L R P (Friends_Changed u))"
  shows "\<exists>tasks' w'. (feed_conc_step L R P D)\<^sup>*\<^sup>* (tasks, w) (tasks', w')
    \<and> tasks' i = Some (Post_Created a n x, Done (Inr [])) \<and> tasks' j = Some (Friends_Changed u, Done (Inr []))
    \<and> slave w' = slave w \<and> feed_holds L R (feed_redis w') u [p]
    \<and> fst (GetFeed L R P u 0 10 w') = Inr [p]"
proof -
  let ?r = "r_ltrim R (r_lpush R (r_del R (feed_redis w) [MakeKey L u]) (MakeKey L u) (SerializePost L p)) (MakeKey L u)
      0 (int kMaxFeedSize - 1)"
  have steps: "(feed_conc_step L R P D)\<^sup>*\<^sup>* (tasks, w)
      (tasks(i \<mapsto> (Post_Created a n x, Done (Inr [])), j \<mapsto> (Friends_Changed u, Done (Inr []))), w\<lparr>feed_redis := ?r\<rparr>)"
    using schedule_steps [of L R P D "(tasks, w)" "[i, i, j, i, i]"]
      feed_env.push_after_del [OF assms(1-6), of tasks _ n x, OF assms(8,9)] assms(7) by simp
  have one: "feed_holds L R ?r u [p]" by (rule feed_env.holds_after_del [OF assms(1)])
  have "fst (GetFeed L R P u 0 10 (w\<lparr>feed_redis := ?r\<rparr>)) = Inr [p]"
    using feed_env.cached_page [OF assms(1), of "w\<lparr>feed_redis := ?r\<rparr>" u "[p]" 0 10] assms(2) one
    by (simp add: slice_of_def)
  with steps one assms(5) show ?thesis
    by (intro exI [of _ "tasks(i \<mapsto> (Post_Created a n x, Done (Inr [])), j \<mapsto> (Friends_Changed u, Done (Inr [])))"]
        exI [of _ "w\<lparr>feed_redis := ?r\<rparr>"]) simp
qed

theorem push_into_invalidated_feed_witness:
  "\<exists>tasks' w'. (feed_conc_step ref_lib ref_redis ref_planner {sample_db})\<^sup>*\<^sup>*
      ([0 \<mapsto> (Post_Created (Uuid 2) (Uuid 12) ''new'', request_prog ref_lib ref_redis ref_planner (Post_Created (Uuid 2) (Uuid 12) ''new'')),
        1 \<mapsto> (Friends_Changed (Uuid 1), request_prog ref_lib ref_redis ref_planner (Friends_Changed (Uuid 1)))],
       sample_world (cached_keyspace (Uuid 1) sample_feed)) (tasks', w')
    \<and> slave w' = sample_db
    \<and> fst (GetFeed ref_lib ref_redis ref_planner (Uuid 1) 0 10 w')
        = Inr [\<lparr>fp_post_id = Uuid 12, fp_text = ''new'', fp_author = Uuid 2\<rparr>]"
proof -
  have follower: "sql_followers ref_planner (Uuid 2) sample_db = [Uuid 1]"
    by (simp add: sql_followers_def ref_planner_def sample_db_def)
  have held: "feed_holds ref_lib ref_redis (cached_keyspace (Uuid 1) sample_feed) (Uuid 1) sample_feed"
    using cached_holds [of "Uuid 1" sample_feed "Uuid 1"] by simp
  have cached: "sample_feed \<noteq> []" by (simp add: sample_feed_def)
  from push_into_invalidated_feed [OF ref_feed_axioms, of "sample_world (cached_keyspace (Uuid 1) sample_feed)" "Uuid 1" sample_feed
      0 1 "Uuid 2" _ "Uuid 12" "''new''" "[0 \<mapsto> (Post_Created (Uuid 2) (Uuid 12) ''new'', request_prog ref_lib ref_redis ref_planner (Post_Created (Uuid 2) (Uuid 12) ''new'')),
        1 \<mapsto> (Friends_Changed (Uuid 1), request_prog ref_lib ref_redis ref_planner (Friends_Changed (Uuid 1)))]", OF _ _ cached _ _ refl]
    held follower show ?thesis
    by (simp del: request_prog.simps) blast
qed

text \<open>
  C37. A fill that outlives the invalidation. A read that has loaded a feed before its user removes a
  friend, and fills the cache after the removal has dropped the cached feed, brings the old feed
  back: from then on every read returns the posts of the removed friend, although the replica knows
  of the removal.
\<close>

theorem stale_fill_outlives_invalidation:
  assumes "feed_env L R P" and "faults w = []" and "feed_holds L R (feed_redis w) u []" and "i \<noteq> j"
    and "ps = feed_of_db P u (slave w)" and "p \<in> set ps"
    and "d = snd (sql_delete_friendship u (fp_author p) (slave w))" and "d \<in> D"
    and "tasks i = Some (Read_Feed u offset limit, request_prog L R P (Read_Feed u offset limit))"
    and "tasks j = Some (Friends_Changed u, request_prog L R P (Friends_Changed u))"
    and "0 \<le> offset" and "0 < limit" and "offset + limit < 2 ^ 31"
  shows "\<exists>tasks' w'. (feed_conc_step L R P D)\<^sup>*\<^sup>* (tasks, w) (tasks', w')
    \<and> tasks' j = Some (Friends_Changed u, Done (Inr []))
    \<and> slave w' = d \<and> \<not> follows (slave w') u (fp_author p) \<and> feed_holds L R (feed_redis w') u ps
    \<and> fst (GetFeed L R P u offset limit w') = Inr (take (nat limit) (drop (nat offset) ps))"
proof -
  let ?w = "w\<lparr>slave := d, feed_redis := fill_cache L R u ps (r_del R (feed_redis w) [MakeKey L u])\<rparr>"
  have ne: "ps \<noteq> []" using assms(6) by auto
  have short: "length ps \<le> 1000" using length_feed_of_db [of P u "slave w"] assms(5) by simp
  have h: "feed_holds L R (feed_redis ?w) u ps"
    using feed_env.holds_fill [OF assms(1) feed_env.holds_del [OF assms(1)], of u "[u]" ps] ne short by simp
  have "fst (GetFeed L R P u offset limit ?w) = Inr (take (nat limit) (drop (nat offset) ps))"
    using feed_env.cached_page [OF assms(1) _ h ne assms(11-13)] assms(2) by (simp add: slice_of_def)
  moreover have "\<not> follows (slave ?w) u (fp_author p)"
    by (auto simp: assms(7) follows_def sql_delete_friendship_def)
  moreover note feed_env.fill_after_del [OF assms(1-4) assms(9) [unfolded request_prog.simps] assms(10,5) ne assms(8)]
  ultimately show ?thesis using h assms(4)
    by (intro exI [of _ "tasks(i \<mapsto> (Read_Feed u offset limit, Done (feed_slice ps offset limit)),
        j \<mapsto> (Friends_Changed u, Done (Inr [])))"] exI [of _ ?w]) simp
qed

theorem stale_fill_outlives_invalidation_witness:
  "\<exists>tasks' w'. (feed_conc_step ref_lib ref_redis ref_planner {snd (sql_delete_friendship (Uuid 1) (Uuid 2) sample_db)})\<^sup>*\<^sup>*
      ([0 \<mapsto> (Read_Feed (Uuid 1) 0 10, request_prog ref_lib ref_redis ref_planner (Read_Feed (Uuid 1) 0 10)),
        1 \<mapsto> (Friends_Changed (Uuid 1), request_prog ref_lib ref_redis ref_planner (Friends_Changed (Uuid 1)))],
       sample_world empty_keyspace) (tasks', w')
    \<and> \<not> follows (slave w') (Uuid 1) (Uuid 2) \<and> fst (GetFeed ref_lib ref_redis ref_planner (Uuid 1) 0 10 w') = Inr sample_feed"
proof -
  let ?p = "\<lparr>fp_post_id = Uuid 11, fp_text = ''two'', fp_author = Uuid 2\<rparr>"
  let ?D = "{snd (sql_delete_friendship (Uuid 1) (Uuid 2) sample_db)}"
  let ?t = "[0 \<mapsto> (Read_Feed (Uuid 1) 0 10, request_prog ref_lib ref_redis ref_planner (Read_Feed (Uuid 1) 0 10)),
        1 \<mapsto> (Friends_Changed (Uuid 1), request_prog ref_lib ref_redis ref_planner (Friends_Changed (Uuid 1)))]"
  have "?p \<in> set sample_feed" by (simp add: sample_feed_def)
  from stale_fill_outlives_invalidation [OF ref_feed_axioms, of "sample_world empty_keyspace" "Uuid 1" 0 1 sample_feed ?p
      "snd (sql_delete_friendship (Uuid 1) (Uuid 2) sample_db)" ?D ?t 0 10, OF _ _ _ _ this] empty_holds sample_feed_of_db
  show ?thesis by (auto simp: sample_feed_def simp del: request_prog.simps)
qed

end
