(* ===== verification/Users.thy ===== *)
theory Users
  imports Feed_System Password_Hasher
begin

text \<open>
  The user handlers (\<open>src/user/user_register_handler.cpp\<close>, \<open>user_get_handler.cpp\<close>,
  \<open>user_search_handler.cpp\<close>). Dates are day numbers; their text form is the library's
  (\<open>utils::datetime\<close>), a parameter.
\<close>

section \<open>Definitions\<close>

text \<open>\<open>DateFromRFC3339String\<close> (\<open>None\<close> when it throws) and \<open>datetime::ToString\<close>.\<close>

record dates =
  parse_date :: "string \<Rightarrow> int option"
  show_date :: "int \<Rightarrow> string"

definition DateFromRFC3339String :: "dates \<Rightarrow> string \<Rightarrow> exn + int" where
  "DateFromRFC3339String D s = (case parse_date D s of None \<Rightarrow> Inl RuntimeError | Some d \<Rightarrow> Inr d)"

definition register_fields :: "string list" where
  "register_fields = [''first_name'', ''second_name'', ''birthdate'', ''sex'', ''biography'', ''city'', ''password'']"

definition register_IsCorrectRequest :: "json_body \<Rightarrow> bool" where
  "register_IsCorrectRequest body = list_all (has_member body) register_fields"

definition UserRegisterHandler ::
  "lib \<Rightarrow> std_hash \<Rightarrow> dates \<Rightarrow> (nat \<Rightarrow> nat) \<Rightarrow> uuid \<Rightarrow> json_body \<Rightarrow> (('r, 'z) world_scheme, http_status \<times> json) eff"
where
  "UserRegisterHandler L H D dist new_id body =
     (if \<not> register_IsCorrectRequest body
      then ret (kBadRequest, error_json ''Expected body has `first_name`, `second_name`, `birthdate`, `sex`, `biography`, `city` and `password` fields'')
      else
        let field = (\<lambda>name. lift_sum (field_string (JObject body) name)) in
        bind (field ''password'') (\<lambda>password.
        let (salt, password_hash) = HashPassword H dist password default_iterations in
        bind (bind (field ''birthdate'') (\<lambda>s. lift_sum (DateFromRFC3339String D s))) (\<lambda>birthdate.
        bind (field ''first_name'') (\<lambda>first_name.
        bind (field ''second_name'') (\<lambda>second_name.
        bind (field ''sex'') (\<lambda>sex.
        bind (field ''biography'') (\<lambda>biography.
        bind (field ''city'') (\<lambda>city.
        bind (on_master (sql_insert_user
           \<lparr>ur_id = new_id, ur_first_name = first_name, ur_second_name = second_name, ur_birthdate = birthdate,
            ur_sex = sex, ur_biography = biography, ur_city = city,
            ur_password_hash = ToHex password_hash, ur_salt = ToHex salt\<rparr>)) (\<lambda>user_id.
        ret (kOk, JObject [(''user_id'', JString (to_str L user_id))]))))))))))"

definition UserGetHandler ::
  "lib \<Rightarrow> dates \<Rightarrow> http_request \<Rightarrow> (('r, 'z) world_scheme, http_status \<times> string) eff"
where
  "UserGetHandler L D req =
     parse_or_bad_request (string_generator L (path_arg req)) [] (\<lambda>user_id.
     bind (from_master (sql_select_user user_id)) (\<lambda>result.
     case result of
       [] \<Rightarrow> ret (kNotFound, [])
     | row # _ \<Rightarrow> ret (kOk, json_dump L (JObject
         [(''id'', JString (to_str L user_id)),
          (''first_name'', JString (ur_first_name row)),
          (''second_name'', JString (ur_second_name row)),
          (''birthdate'', JString (show_date D (ur_birthdate row))),
          (''sex'', JString (ur_sex row)),
          (''biography'', JString (ur_biography row)),
          (''city'', JString (ur_city row))]))))"

definition json_user :: "lib \<Rightarrow> dates \<Rightarrow> user_row \<Rightarrow> json" where
  "json_user L D row = JObject
     [(''id'', JString (to_str L (ur_id row))),
      (''first_name'', JString (ur_first_name row)),
      (''second_name'', JString (ur_second_name row)),
      (''birthday'', JString (show_date D (ur_birthdate row))),
      (''sex'', JString (ur_sex row)),
      (''biography'', JString (ur_biography row)),
      (''city'', JString (ur_city row))]"

text \<open>\<open>GetArg\<close> does not throw, so the catch clause around it is never entered.\<close>

definition UserSearchHandler ::
  "lib \<Rightarrow> dates \<Rightarrow> http_request \<Rightarrow> (('r, 'z) world_scheme, http_status \<times> string) eff"
where
  "UserSearchHandler L D req =
     (let first_name = GetArg req ''first_name'' @ ''%'';
          second_name = GetArg req ''last_name'' @ ''%''
      in bind (from_master (sql_search_users first_name second_name)) (\<lambda>result.
         if result = [] then ret (kNotFound, [])
         else ret (kOk, json_dump L (JArray (map (json_user L D) result)))))"

section \<open>LIKE patterns\<close>

text \<open>A text in which no character is special to LIKE.\<close>

definition plain :: "string \<Rightarrow> bool" where
  "plain p \<longleftrightarrow> list_all (\<lambda>c. c \<noteq> CHR ''%'' \<and> c \<noteq> CHR ''_'' \<and> of_char c \<noteq> (92 :: nat)) p"

lemma like_percent [simp]: "like ''%'' s"
  by (induction s) auto

lemma like_prefix: "plain p \<Longrightarrow> like (p @ ''%'') s \<longleftrightarrow> prefix p s"
proof (induction p arbitrary: s)
  case Nil
  then show ?case by (simp del: like.simps)
next
  case (Cons c p)
  then show ?case by (cases s) (auto simp: plain_def)
qed

lemma like_percent_prefix: "like (''%'' @ p) s \<longleftrightarrow> (\<exists>n \<le> length s. like p (drop n s))"
proof (induction s)
  case Nil
  then show ?case by simp
next
  case (Cons d t)
  have "like (''%'' @ p) (d # t) \<longleftrightarrow> like p (d # t) \<or> like (''%'' @ p) t" by simp
  also have "\<dots> \<longleftrightarrow> (\<exists>n \<le> length (d # t). like p (drop n (d # t)))"
    unfolding Cons
  proof
    assume "like p (d # t) \<or> (\<exists>n\<le>length t. like p (drop n t))"
    then show "\<exists>n \<le> length (d # t). like p (drop n (d # t))"
    proof
      assume "like p (d # t)"
      then show ?thesis by (intro exI [of _ 0]) simp
    next
      assume "\<exists>n\<le>length t. like p (drop n t)"
      then obtain n where "n \<le> length t" "like p (drop n t)" by blast
      then show ?thesis by (intro exI [of _ "Suc n"]) simp
    qed
  next
    assume "\<exists>n \<le> length (d # t). like p (drop n (d # t))"
    then obtain n where "n \<le> length (d # t)" "like p (drop n (d # t))" by blast
    then show "like p (d # t) \<or> (\<exists>n\<le>length t. like p (drop n t))"
      by (cases n) auto
  qed
  finally show ?case .
qed

section \<open>Runs of the handlers\<close>

text \<open>The row that registration stores.\<close>

definition registered_row :: "std_hash \<Rightarrow> dates \<Rightarrow> (nat \<Rightarrow> nat) \<Rightarrow> uuid \<Rightarrow> json_body \<Rightarrow> user_row \<Rightarrow> bool" where
  "registered_row H D dist new_id body row \<longleftrightarrow>
     (\<exists>password birth. ur_id row = new_id \<and>
        field_string (JObject body) ''password'' = Inr password \<and>
        field_string (JObject body) ''birthdate'' = Inr birth \<and> parse_date D birth = Some (ur_birthdate row) \<and>
        field_string (JObject body) ''first_name'' = Inr (ur_first_name row) \<and>
        field_string (JObject body) ''second_name'' = Inr (ur_second_name row) \<and>
        field_string (JObject body) ''sex'' = Inr (ur_sex row) \<and>
        field_string (JObject body) ''biography'' = Inr (ur_biography row) \<and>
        field_string (JObject body) ''city'' = Inr (ur_city row) \<and>
        ur_password_hash row = ToHex (snd (HashPassword H dist password default_iterations)) \<and>
        ur_salt row = ToHex (fst (HashPassword H dist password default_iterations)))"

lemma field_has_member: "field_string (JObject body) n = Inr s \<Longrightarrow> has_member body n"
  by (auto simp: has_member_def field_string_def split: option.splits)

lemma register_run:
  assumes "faults w = []" and "registered_row H D dist new_id body row"
    and "new_id \<notin> user_ids (master w)"
  shows "UserRegisterHandler L H D dist new_id body w
    = (Inr (kOk, JObject [(''user_id'', JString (to_str L new_id))]),
       w\<lparr>master := (master w)\<lparr>users := users (master w) @ [row]\<rparr>\<rparr>)"
proof -
  obtain password birth where row: "ur_id row = new_id"
    "field_string (JObject body) ''password'' = Inr password"
    "field_string (JObject body) ''birthdate'' = Inr birth" "parse_date D birth = Some (ur_birthdate row)"
    "field_string (JObject body) ''first_name'' = Inr (ur_first_name row)"
    "field_string (JObject body) ''second_name'' = Inr (ur_second_name row)"
    "field_string (JObject body) ''sex'' = Inr (ur_sex row)"
    "field_string (JObject body) ''biography'' = Inr (ur_biography row)"
    "field_string (JObject body) ''city'' = Inr (ur_city row)"
    "ur_password_hash row = ToHex (snd (HashPassword H dist password default_iterations))"
    "ur_salt row = ToHex (fst (HashPassword H dist password default_iterations))"
    using assms(2) unfolding registered_row_def by blast
  have members: "register_IsCorrectRequest body"
    using row field_has_member by (simp add: register_IsCorrectRequest_def register_fields_def)
  obtain salt hash where hp: "HashPassword H dist password default_iterations = (salt, hash)" by fastforce
  have "\<lparr>ur_id = new_id, ur_first_name = ur_first_name row, ur_second_name = ur_second_name row,
      ur_birthdate = ur_birthdate row, ur_sex = ur_sex row, ur_biography = ur_biography row,
      ur_city = ur_city row, ur_password_hash = ToHex hash, ur_salt = ToHex salt\<rparr> = row"
    using row hp by (intro user_row.equality) simp_all
  with row members hp assms(1,3) show ?thesis
    by (simp add: UserRegisterHandler_def Let_def DateFromRFC3339String_def bind_def sql_insert_user_def)
qed

lemma get_user_run:
  assumes "library L" and "faults w = []" and "db_ok (master w)"
  shows "UserGetHandler L D \<lparr>path_arg = to_str L i, args = as\<rparr> w
    = (Inr (case find (\<lambda>u. ur_id u = i) (users (master w)) of
         None \<Rightarrow> (kNotFound, [])
       | Some row \<Rightarrow> (kOk, json_dump L (JObject
         [(''id'', JString (to_str L i)),
          (''first_name'', JString (ur_first_name row)),
          (''second_name'', JString (ur_second_name row)),
          (''birthdate'', JString (show_date D (ur_birthdate row))),
          (''sex'', JString (ur_sex row)),
          (''biography'', JString (ur_biography row)),
          (''city'', JString (ur_city row))]))), w)"
proof -
  have "sql_select_user i (master w) = (case find (\<lambda>u. ur_id u = i) (users (master w)) of None \<Rightarrow> [] | Some u \<Rightarrow> [u])"
    using assms(3) by (simp add: sql_select_user_def filter_key_find db_ok_def)
  then show ?thesis
    using assms(2) library.string_generator_to_str [OF assms(1), of i]
    by (auto simp: UserGetHandler_def bind_def split: option.splits)
qed

text \<open>The rows a search selects, when the arguments are plain text.\<close>

lemma set_search:
  assumes "plain p" and "plain q"
  shows "set (sql_search_users (p @ ''%'') (q @ ''%'') d)
    = {u \<in> set (users d). prefix p (ur_first_name u) \<and> prefix q (ur_second_name u)}"
  using assms by (auto simp: sql_search_users_def like_prefix)

lemma sorted_search: "sorted (map ur_id (sql_search_users p q d))"
  by (simp add: sql_search_users_def)

lemma distinct_search:
  assumes "db_ok d"
  shows "distinct (map ur_id (sql_search_users p q d))"
proof -
  let ?sel = "filter (\<lambda>u. like p (ur_first_name u) \<and> like q (ur_second_name u)) (users d)"
  have "distinct (map ur_id ?sel)"
    using assms by (intro distinct_map_filter_pairs) (simp add: db_ok_def)
  moreover have "mset (map ur_id (sort_key ur_id ?sel)) = mset (map ur_id ?sel)" by simp
  ultimately show ?thesis
    unfolding sql_search_users_def by (metis mset_eq_imp_distinct_iff)
qed

lemma search_run:
  assumes "faults w = []"
  shows "UserSearchHandler L D req w =
    (let rows = sql_search_users (GetArg req ''first_name'' @ ''%'') (GetArg req ''last_name'' @ ''%'') (master w)
     in (Inr (if rows = [] then (kNotFound, []) else (kOk, json_dump L (JArray (map (json_user L D) rows)))), w))"
  using assms by (simp add: UserSearchHandler_def Let_def bind_def)

section \<open>Concrete data\<close>

definition sample_dates :: dates where
  "sample_dates = \<lparr>parse_date = (\<lambda>s. Some (int (length s))), show_date = show_int\<rparr>"

definition sample_registration :: "string \<Rightarrow> json_body" where
  "sample_registration pw = [(''first_name'', JString ''Eva''), (''second_name'', JString ''Ray''),
     (''birthdate'', JString ''1990-01-02''), (''sex'', JString ''f''), (''biography'', JString ''b''),
     (''city'', JString ''Rome''), (''password'', JString pw)]"

definition sample_row :: "std_hash \<Rightarrow> (nat \<Rightarrow> nat) \<Rightarrow> uuid \<Rightarrow> string \<Rightarrow> user_row" where
  "sample_row H dist i pw = \<lparr>ur_id = i, ur_first_name = ''Eva'', ur_second_name = ''Ray'', ur_birthdate = 10,
     ur_sex = ''f'', ur_biography = ''b'', ur_city = ''Rome'',
     ur_password_hash = ToHex (snd (HashPassword H dist pw default_iterations)),
     ur_salt = ToHex (fst (HashPassword H dist pw default_iterations))\<rparr>"

lemma sample_registered: "registered_row H sample_dates dist i (sample_registration pw) (sample_row H dist i pw)"
  unfolding registered_row_def
  by (rule exI [of _ pw], rule exI [of _ "''1990-01-02''"])
    (simp add: sample_registration_def sample_row_def sample_dates_def field_string_def)

section \<open>Properties\<close>

text \<open>
  Registration. A complete registration is stored under the new identifier and the profile
  served for that identifier shows the registered fields; password hash and salt are not part
  of it. No other row changes.
\<close>

lemma registered_user_is_served:
  assumes "library L" and "faults w = []" and "db_ok (master w)"
    and "registered_row H D dist i body row" and "i \<notin> user_ids (master w)"
  shows "fst (UserRegisterHandler L H D dist i body w) = Inr (kOk, JObject [(''user_id'', JString (to_str L i))])
       \<and> users (master (snd (UserRegisterHandler L H D dist i body w))) = users (master w) @ [row]
       \<and> fst (UserGetHandler L D \<lparr>path_arg = to_str L i, args = []\<rparr> (snd (UserRegisterHandler L H D dist i body w)))
         = Inr (kOk, json_dump L (JObject
             [(''id'', JString (to_str L i)), (''first_name'', JString (ur_first_name row)),
              (''second_name'', JString (ur_second_name row)), (''birthdate'', JString (show_date D (ur_birthdate row))),
              (''sex'', JString (ur_sex row)), (''biography'', JString (ur_biography row)),
              (''city'', JString (ur_city row))]))"
proof -
  let ?w = "w\<lparr>master := (master w)\<lparr>users := users (master w) @ [row]\<rparr>\<rparr>"
  have i: "ur_id row = i" using assms(4) by (auto simp: registered_row_def)
  have "db_ok (snd (sql_insert_user row (master w)))"
    using sql_insert_user_ok assms(3) by (rule preservesD)
  with i assms(5) have ok: "db_ok (master ?w)" by (simp add: sql_insert_user_def)
  have "find (\<lambda>u. ur_id u = i) (users (master w)) = None"
    using assms(5) by (simp add: find_key_None)
  then have "find (\<lambda>u. ur_id u = i) (users (master ?w)) = Some row"
    using i by (simp add: find_snoc)
  with get_user_run [OF assms(1) _ ok, of D i "[]"] assms(2) show ?thesis
    by (simp add: register_run [OF assms(2,4,5)])
qed

lemma registered_user_is_served_example:
  "users (master (snd (UserRegisterHandler ref_lib \<lparr>hash_string = (\<lambda>_. 7), hash_size = id\<rparr> sample_dates (\<lambda>_. 65)
      (Uuid 4) (sample_registration ''pw'') (sample_world empty_keyspace))))
   = users sample_db @ [sample_row \<lparr>hash_string = (\<lambda>_. 7), hash_size = id\<rparr> (\<lambda>_. 65) (Uuid 4) ''pw'']"
  using registered_user_is_served [OF ref_library_axioms, of "sample_world empty_keyspace",
      OF _ _ sample_registered] sample_db_ok
  by (simp add: sample_db_def sample_user_def)

text \<open>
  Search. With plain arguments the search returns exactly the users whose first and second
  names begin with them, ordered by identifier and without repetition; when there are none it
  answers not found.
\<close>

lemma search_is_by_prefix:
  assumes "faults w = []" and "db_ok (master w)"
    and "plain (GetArg req ''first_name'')" and "plain (GetArg req ''last_name'')"
  shows "\<exists>rows. fst (UserSearchHandler L D req w)
           = Inr (if rows = [] then (kNotFound, []) else (kOk, json_dump L (JArray (map (json_user L D) rows))))
       \<and> set rows = {u \<in> set (users (master w)). prefix (GetArg req ''first_name'') (ur_first_name u)
                        \<and> prefix (GetArg req ''last_name'') (ur_second_name u)}
       \<and> sorted (map ur_id rows) \<and> distinct (map ur_id rows)"
  using search_run [OF assms(1)] set_search [OF assms(3,4)] sorted_search distinct_search [OF assms(2)]
  by (intro exI [of _ "sql_search_users (GetArg req ''first_name'' @ ''%'') (GetArg req ''last_name'' @ ''%'') (master w)"])
    (simp add: Let_def)

lemma search_is_by_prefix_example:
  "\<exists>rows. fst (UserSearchHandler ref_lib sample_dates
        \<lparr>path_arg = [], args = [(''first_name'', ''A''), (''last_name'', ''L'')]\<rparr> (sample_world empty_keyspace))
      = Inr (kOk, json_dump ref_lib (JArray (map (json_user ref_lib sample_dates) rows)))
    \<and> set rows = {sample_user (Uuid 1), sample_user (Uuid 2), sample_user (Uuid 3)}"
proof -
  let ?req = "\<lparr>path_arg = [], args = [(''first_name'', ''A''), (''last_name'', ''L'')]\<rparr>"
  have all: "{u \<in> set (users sample_db). prefix ''A'' (ur_first_name u) \<and> prefix ''L'' (ur_second_name u)}
      = {sample_user (Uuid 1), sample_user (Uuid 2), sample_user (Uuid 3)}"
    by (auto simp: sample_db_def sample_user_def)
  obtain rows where rows: "fst (UserSearchHandler ref_lib sample_dates ?req (sample_world empty_keyspace))
      = Inr (if rows = [] then (kNotFound, []) else (kOk, json_dump ref_lib (JArray (map (json_user ref_lib sample_dates) rows))))"
    "set rows = {u \<in> set (users sample_db). prefix ''A'' (ur_first_name u) \<and> prefix ''L'' (ur_second_name u)}"
    using search_is_by_prefix [of "sample_world empty_keyspace" ?req ref_lib sample_dates] sample_db_ok
    by (auto simp: GetArg_def plain_def)
  with all have "rows \<noteq> []" by auto
  with rows all show ?thesis by auto
qed

text \<open>
  Wildcards reach the database. A first name of \<open>%\<close> followed by a plain text finds every
  user whose first name contains that text, and a search without arguments lists every user.
\<close>

lemma search_wildcards_unescaped:
  assumes "faults w = []" and "users (master w) \<noteq> []"
    and "req = \<lparr>path_arg = [], args = []\<rparr>"
    and "req' = \<lparr>path_arg = [], args = [(''first_name'', ''%'' @ p)]\<rparr>" and "plain p"
  shows "fst (UserSearchHandler L D req w)
      = Inr (kOk, json_dump L (JArray (map (json_user L D) (sort_key ur_id (users (master w))))))
    \<and> (let rows = sort_key ur_id (filter (\<lambda>u. \<exists>n \<le> length (ur_first_name u). prefix p (drop n (ur_first_name u))) (users (master w)))
       in fst (UserSearchHandler L D req' w)
         = Inr (if rows = [] then (kNotFound, []) else (kOk, json_dump L (JArray (map (json_user L D) rows)))))"
proof -
  have "like (CHR ''%'' # p @ ''%'') s \<longleftrightarrow> (\<exists>n \<le> length s. prefix p (drop n s))" for s
    using like_percent_prefix [of "p @ ''%''" s] by (simp add: like_prefix [OF assms(5)])
  moreover have "sort_key ur_id (users (master w)) \<noteq> []"
    using assms(2) by (metis length_0_conv length_sort)
  ultimately show ?thesis
    using search_run [OF assms(1), of L D req] search_run [OF assms(1), of L D req'] assms(3,4)
    by (simp add: GetArg_def sql_search_users_def Let_def del: like.simps)
qed

lemma search_wildcards_unescaped_witness:
  "fst (UserSearchHandler ref_lib sample_dates \<lparr>path_arg = [], args = []\<rparr> (sample_world empty_keyspace))
   = Inr (kOk, json_dump ref_lib (JArray (map (json_user ref_lib sample_dates) (sort_key ur_id (users sample_db)))))"
  using search_wildcards_unescaped [of "sample_world empty_keyspace", OF _ _ refl refl, of "[]" ref_lib sample_dates]
  by (simp add: plain_def) (simp add: sample_db_def)

end
