(* ===== verification/Auth.thy ===== *)
theory Auth
  imports Users "HOL-Library.Char_ord"
begin

text \<open>
  Login and authorization: \<open>src/auth/login.cpp\<close>, \<open>src/auth/auth_bearer.cpp\<close> and the token
  cache of \<open>src/auth/user_info_cache.hpp\<close>. The cache itself is the library's; the model has
  its content, what a full and an incremental update make of the token table of the replica, and
  the count of the updates that login requests.
\<close>

section \<open>The token cache\<close>

record user_db_info =
  ui_token :: string
  ui_user_id :: uuid
  ui_scopes :: "string list"

type_synonym auth_snapshot = "string \<rightharpoonup> user_db_info"

record 'r app = "'r world" +
  auth_cache :: auth_snapshot
  cache_invalidations :: nat

text \<open>The rows of the policy's query, keyed by the token.\<close>

definition info_of_row :: "token_row \<Rightarrow> user_db_info" where
  "info_of_row r = \<lparr>ui_token = tk_token r, ui_user_id = tk_user r, ui_scopes = tk_scopes r\<rparr>"

definition AuthCachePolicy_load :: "token_row list \<Rightarrow> auth_snapshot" where
  "AuthCachePolicy_load rows = map_of (map (\<lambda>r. (ui_token (info_of_row r), info_of_row r)) rows)"

text \<open>
  An update of the cache. The policy sets no host, so the query goes to a replica, the default of
  the library; a full update replaces the content, an incremental one adds the rows whose
  \<open>kUpdatedField\<close> is not earlier than a point in time that the library derives from the last
  update.
\<close>

datatype update_type = kFull | kIncremental int

definition update_auth_cache :: "update_type \<Rightarrow> ('r, 'z) app_scheme \<Rightarrow> ('r, 'z) app_scheme" where
  "update_auth_cache t w =
     (case t of
        kFull \<Rightarrow> w\<lparr>auth_cache := AuthCachePolicy_load (tokens (slave w))\<rparr>
      | kIncremental since \<Rightarrow>
          w\<lparr>auth_cache := auth_cache w ++ AuthCachePolicy_load (filter (\<lambda>r. since \<le> tk_updated r) (tokens (slave w)))\<rparr>)"

lemma update_auth_cache_frame [simp]:
  "faults (update_auth_cache t w) = faults w" "master (update_auth_cache t w) = master w"
  "slave (update_auth_cache t w) = slave w" "feed_redis (update_auth_cache t w) = feed_redis w"
  "published (update_auth_cache t w) = published w" "cache_invalidations (update_auth_cache t w) = cache_invalidations w"
  "app.more (update_auth_cache t w) = app.more w"
  by (cases t; simp add: update_auth_cache_def)+

section \<open>Checking a request\<close>

datatype auth_status = kTokenNotFound string | kAuthForbidden string | kAuthOk

text \<open>\<open>data() + pos + 1\<close> is read as a C string: it ends at the first NUL.\<close>

definition c_string :: "string \<Rightarrow> string" where
  "c_string s = takeWhile (\<lambda>c. of_char c \<noteq> (0 :: nat)) s"

definition quote_char :: char where
  "quote_char = char_of (39 :: nat)"

fun check_scopes :: "string list \<Rightarrow> string list \<Rightarrow> auth_status" where
  "check_scopes [] have_scopes = kAuthOk"
| "check_scopes (scope # required) have_scopes =
     (if scope \<notin> set have_scopes then kAuthForbidden (''No '' @ [quote_char] @ scope @ [quote_char] @ '' permission'')
      else check_scopes required have_scopes)"

text \<open>
  The status and, on success, the \<open>user_id\<close> put into the request context.
\<close>

definition CheckAuth :: "auth_snapshot \<Rightarrow> string list \<Rightarrow> string \<Rightarrow> auth_status \<times> uuid option" where
  "CheckAuth cache required_scopes auth_value =
     (if auth_value = [] then (kTokenNotFound ''Empty 'Authorization' header'', None)
      else
        let bearer_sep_pos = length (takeWhile (\<lambda>c. c \<noteq> CHR '' '') auth_value) in
        if bearer_sep_pos = length auth_value \<or> take bearer_sep_pos auth_value \<noteq> ''Bearer''
        then (kTokenNotFound ([quote_char] @ ''Authorization' header should have 'Bearer some-token' format''), None)
        else
          let token = c_string (drop (bearer_sep_pos + 1) auth_value) in
          case cache token of
            None \<Rightarrow> (kAuthForbidden [], None)
          | Some info \<Rightarrow>
              (case check_scopes required_scopes (ui_scopes info) of
                 kAuthOk \<Rightarrow> (kAuthOk, Some (ui_user_id info))
               | refused \<Rightarrow> (refused, None)))"

text \<open>\<open>auth_config["scopes"].As<UserScopes>({})\<close>: no scopes when the handler configures none.\<close>

definition MakeAuthChecker :: "string list option \<Rightarrow> auth_snapshot \<Rightarrow> string \<Rightarrow> auth_status \<times> uuid option" where
  "MakeAuthChecker configured cache = CheckAuth cache (case configured of None \<Rightarrow> [] | Some scopes \<Rightarrow> scopes)"

section \<open>Bearer tokens\<close>

definition token_charset :: string where
  "token_charset = ''0123456789ABCDEFGHIJKLMNOPQRSTUVWXYZabcdefghijklmnopqrstuvwxyz''"

text \<open>
  \<open>std::sample\<close> from forward iterators: selection sampling. The \<open>i\<close>-th element is taken
  when the draw below the number of elements left is below the number still wanted.
\<close>

fun std_sample :: "(nat \<Rightarrow> nat \<Rightarrow> nat) \<Rightarrow> nat \<Rightarrow> nat \<Rightarrow> 'a list \<Rightarrow> 'a list" where
  "std_sample draw i n [] = []"
| "std_sample draw i n (x # xs) =
     (if n = 0 then []
      else if draw i (length (x # xs)) < n then x # std_sample draw (Suc i) (n - 1) xs
      else std_sample draw (Suc i) n xs)"

definition token_length :: nat where
  "token_length = 32"

definition GenerateBearerToken :: "(nat \<Rightarrow> nat \<Rightarrow> nat) \<Rightarrow> nat \<Rightarrow> string" where
  "GenerateBearerToken draw len = std_sample draw 0 len token_charset"

section \<open>Login\<close>

definition login_IsCorrectRequest :: "json_body \<Rightarrow> bool" where
  "login_IsCorrectRequest body \<longleftrightarrow> has_member body ''id'' \<and> has_member body ''password''"

definition GenerateToken ::
  "(nat \<Rightarrow> nat \<Rightarrow> nat) \<Rightarrow> int \<Rightarrow> uuid \<Rightarrow> (('r, 'z) app_scheme, string \<times> bool) eff"
where
  "GenerateToken draw now user_id =
     (let token = GenerateBearerToken draw token_length;
          scopes = [''read'', ''user'']
      in bind (on_master (sql_insert_token token user_id scopes now)) (\<lambda>result.
         if result = [] then ret ([], False)
         else bind (modify (\<lambda>w. w\<lparr>cache_invalidations := Suc (cache_invalidations w)\<rparr>)) (\<lambda>_.
              ret (token, True))))"

text \<open>The decoding of both columns and the comparison, as the condition of the second early return has it.\<close>

definition check_credentials :: "std_hash \<Rightarrow> string \<Rightarrow> string \<times> string \<Rightarrow> exn + bool" where
  "check_credentials H password row =
     (case row of (hash, salt) \<Rightarrow>
        sum_bind (FromHex salt) (\<lambda>s.
        sum_bind (FromHex hash) (\<lambda>h.
        Inr (VerifyPassword H password s h default_iterations))))"

definition Login ::
  "lib \<Rightarrow> std_hash \<Rightarrow> (nat \<Rightarrow> nat \<Rightarrow> nat) \<Rightarrow> int \<Rightarrow> json_body \<Rightarrow> (('r, 'z) app_scheme, http_status \<times> json) eff"
where
  "Login L H draw now body =
     (if \<not> login_IsCorrectRequest body
      then ret (kBadRequest, error_json ''Expected body has `id` and `password` fields'')
      else
        bind (lift_sum (sum_bind (field_string (JObject body) ''id'') (string_generator L))) (\<lambda>user_id.
        bind (from_master (sql_select_credentials user_id)) (\<lambda>result.
        case result of
          [] \<Rightarrow> ret (kNotFound, JObject [])
        | row # _ \<Rightarrow>
            bind (lift_sum (sum_bind (field_string (JObject body) ''password'')
                    (\<lambda>password. check_credentials H password row))) (\<lambda>verified.
            if \<not> verified then ret (kNotFound, JObject [])
            else bind (GenerateToken draw now user_id) (\<lambda>(token, success).
                 if \<not> success then ret (kInternalServerError, JObject [])
                 else ret (kOk, JObject [(''token'', JString token)]))))))"

section \<open>Tokens\<close>

lemma subseq_sample: "subseq (std_sample draw i n xs) xs"
proof (induction xs arbitrary: i n)
  case Nil
  then show ?case by simp
next
  case (Cons x xs)
  then show ?case by (auto intro: subseq_Cons')
qed

text \<open>Draws below their bound: exactly the wanted number of elements is taken.\<close>

lemma length_sample:
  assumes "\<And>i m. 0 < m \<Longrightarrow> draw i m < m" and "n \<le> length xs"
  shows "length (std_sample draw i n xs) = n"
  using assms(2)
proof (induction xs arbitrary: i n)
  case Nil
  then show ?case by simp
next
  case (Cons x xs)
  show ?case
  proof (cases "n = 0")
    case True
    then show ?thesis by simp
  next
    case False
    note n = this
    show ?thesis
    proof (cases "draw i (length (x # xs)) < n")
      case True
      with n Cons.IH [of "n - 1" "Suc i"] Cons.prems show ?thesis by simp
    next
      case False
      moreover have "draw i (length (x # xs)) < length (x # xs)" by (intro assms(1)) simp
      ultimately have "n \<le> length xs" by simp
      with n False Cons.IH [of n "Suc i"] show ?thesis by simp
    qed
  qed
qed

lemma length_charset: "length token_charset = 62"
  by (simp add: token_charset_def)

lemma charset_sorted: "sorted_wrt (<) token_charset"
  by (simp add: token_charset_def less_char_def)

lemma charset_no_nul: "c \<in> set token_charset \<Longrightarrow> of_char c \<noteq> (0 :: nat)"
  by (auto simp: token_charset_def)

lemma token_chars: "c \<in> set (GenerateBearerToken draw n) \<Longrightarrow> c \<in> set token_charset"
  using subseq_sample [of draw 0 n token_charset]
  by (auto simp: GenerateBearerToken_def dest: list_emb_set)

lemma sorted_wrt_subseq: "subseq xs ys \<Longrightarrow> sorted_wrt R ys \<Longrightarrow> sorted_wrt R xs"
proof (induction rule: list_emb.induct)
  case (list_emb_Cons2 x y xs ys)
  then show ?case by (auto dest: list_emb_set)
qed auto

text \<open>A token is determined by its set of characters.\<close>

lemma tokens_choose:
  "card {t. subseq t token_charset \<and> length t = n} \<le> 62 choose n"
proof -
  let ?T = "{t. subseq t token_charset \<and> length t = n}"
  have strict: "sorted_wrt (<) t" if "t \<in> ?T" for t
    using that sorted_wrt_subseq [OF _ charset_sorted] by blast
  have inj: "inj_on set ?T"
  proof (rule inj_onI)
    fix s t assume "s \<in> ?T" "t \<in> ?T" "set s = set t"
    with strict show "s = t"
      by (intro sorted_distinct_set_unique) (auto simp: strict_sorted_iff)
  qed
  have "set ` ?T \<subseteq> {S. S \<subseteq> set token_charset \<and> card S = n}"
  proof (intro image_subsetI CollectI conjI)
    fix t assume t: "t \<in> ?T"
    then show "set t \<subseteq> set token_charset" by (auto dest: list_emb_set)
    from strict [OF t] t show "card (set t) = n" by (simp add: strict_sorted_iff distinct_card)
  qed
  then have "card (set ` ?T) \<le> card {S. S \<subseteq> set token_charset \<and> card S = n}"
    by (intro card_mono) (auto intro: finite_subset [of _ "Pow (set token_charset)"])
  also have "\<dots> = card (set token_charset) choose n" by (simp add: n_subsets)
  also have "card (set token_charset) = 62"
    using charset_sorted length_charset by (simp add: strict_sorted_iff distinct_card)
  finally show ?thesis by (simp add: card_image [OF inj])
qed

section \<open>Checks\<close>

lemma check_scopes_ok: "check_scopes required granted = kAuthOk \<longleftrightarrow> set required \<subseteq> set granted"
  by (induction required) auto

lemma check_scopes_no_token: "check_scopes required granted \<noteq> kTokenNotFound reason"
  by (induction required) auto

lemma bearer_split:
  "takeWhile (\<lambda>c. c \<noteq> CHR '' '') s = ''Bearer'' \<and> length s \<noteq> 6 \<longleftrightarrow> (\<exists>r. s = ''Bearer '' @ r)"
proof
  assume l: "takeWhile (\<lambda>c. c \<noteq> CHR '' '') s = ''Bearer'' \<and> length s \<noteq> 6"
  have s: "s = ''Bearer'' @ dropWhile (\<lambda>c. c \<noteq> CHR '' '') s"
    using l takeWhile_dropWhile_id [of "\<lambda>c. c \<noteq> CHR '' ''" s] by metis
  have "dropWhile (\<lambda>c. c \<noteq> CHR '' '') s \<noteq> []"
  proof
    assume "dropWhile (\<lambda>c. c \<noteq> CHR '' '') s = []"
    with s have "s = ''Bearer''" by (metis append_Nil2)
    with l show False by simp
  qed
  then obtain c r where cr: "dropWhile (\<lambda>c. c \<noteq> CHR '' '') s = c # r"
    by (cases "dropWhile (\<lambda>c. c \<noteq> CHR '' '') s") auto
  then have "c = CHR '' ''" by (simp add: dropWhile_eq_Cons_conv)
  with cr have "dropWhile (\<lambda>c. c \<noteq> CHR '' '') s = CHR '' '' # r" by simp
  with s show "\<exists>r. s = ''Bearer '' @ r" by (intro exI [of _ r]) simp
qed auto

lemma check_auth_cases:
  "CheckAuth cache required s =
    (if \<exists>r. s = ''Bearer '' @ r
     then (case cache (c_string (drop 7 s)) of
             None \<Rightarrow> (kAuthForbidden [], None)
           | Some info \<Rightarrow> (case check_scopes required (ui_scopes info) of
                 kAuthOk \<Rightarrow> (kAuthOk, Some (ui_user_id info)) | refused \<Rightarrow> (refused, None)))
     else (kTokenNotFound (if s = [] then ''Empty 'Authorization' header''
             else [quote_char] @ ''Authorization' header should have 'Bearer some-token' format''), None))"
proof -
  let ?n = "length (takeWhile (\<lambda>c. c \<noteq> CHR '' '') s)"
  have take: "take ?n s = takeWhile (\<lambda>c. c \<noteq> CHR '' '') s"
    by (metis takeWhile_eq_take)
  have iff: "(?n = length s \<or> take ?n s \<noteq> ''Bearer'') \<longleftrightarrow> \<not> (\<exists>r. s = ''Bearer '' @ r)"
    unfolding take bearer_split [symmetric] by auto
  have "?n = 6" if "s = ''Bearer '' @ r" for r
    using that by simp
  with iff show ?thesis
    unfolding CheckAuth_def Let_def by auto
qed

lemma load_cache_snoc:
  assumes "tk_token r \<notin> set (map tk_token rows)"
  shows "AuthCachePolicy_load (rows @ [r]) (tk_token r) = Some (info_of_row r)"
proof -
  have "map_of (map (\<lambda>r. (ui_token (info_of_row r), info_of_row r)) rows) (tk_token r) = None"
    using assms by (auto simp: map_of_eq_None_iff info_of_row_def)
  then show ?thesis
    by (simp add: AuthCachePolicy_load_def map_add_def) (simp add: info_of_row_def)
qed

lemma c_string_token: "c_string (GenerateBearerToken draw n) = GenerateBearerToken draw n"
  unfolding c_string_def takeWhile_eq_all_conv using charset_no_nul token_chars by blast

section \<open>The credentials contract\<close>

text \<open>
  What login relies on: the check accepts the password a stored pair was made from, and always
  decides on stored pairs.
\<close>

locale credential_scheme =
  fixes store :: "string \<Rightarrow> string \<times> string"
    and check :: "string \<Rightarrow> string \<times> string \<Rightarrow> exn + bool"
    and same :: "string \<Rightarrow> string \<Rightarrow> bool"
  assumes check_store: "check p (store q) = Inr (same p q)"
    and same_refl: "same p p"
begin

lemma accepts: "check p (store p) = Inr True"
  by (simp add: check_store same_refl)

lemma never_throws: "check p (store q) \<noteq> Inl e"
  by (simp add: check_store)

lemma rejects: "\<not> same p q \<Longrightarrow> check p (store q) = Inr False"
  by (simp add: check_store)

end

text \<open>The columns that registration stores, and the passwords the slow hash does not separate.\<close>

definition stored_credentials :: "std_hash \<Rightarrow> (nat \<Rightarrow> nat) \<Rightarrow> string \<Rightarrow> string \<times> string" where
  "stored_credentials H dist password =
     (case HashPassword H dist password default_iterations of (salt, hash) \<Rightarrow> (ToHex hash, ToHex salt))"

definition same_slow_hash :: "std_hash \<Rightarrow> (nat \<Rightarrow> nat) \<Rightarrow> string \<Rightarrow> string \<Rightarrow> bool" where
  "same_slow_hash H dist p q \<longleftrightarrow>
     SlowHash H (p @ GenerateSalt dist salt_length) default_iterations
     = SlowHash H (q @ GenerateSalt dist salt_length) default_iterations"

interpretation passwords: credential_scheme "stored_credentials H dist" "check_credentials H" "same_slow_hash H dist"
  by unfold_locales
    (auto simp: stored_credentials_def check_credentials_def same_slow_hash_def HashPassword_parts VerifyPassword_iff)

lemma registered_credentials:
  assumes "registered_row H D dist i body row" and "field_string (JObject body) ''password'' = Inr p"
  shows "(ur_password_hash row, ur_salt row) = stored_credentials H dist p"
  using assms by (auto simp: registered_row_def stored_credentials_def split: prod.splits)

section \<open>Runs of login\<close>

lemma credentials_of_user:
  assumes "db_ok d" and "row \<in> set (users d)"
  shows "sql_select_credentials (ur_id row) d = [(ur_password_hash row, ur_salt row)]"
proof -
  have "find (\<lambda>u. ur_id u = ur_id row) (users d) = Some row"
  proof (cases "find (\<lambda>u. ur_id u = ur_id row) (users d)")
    case None
    with assms(2) show ?thesis by (auto simp: find_None_iff)
  next
    case (Some r)
    from find_key_Some [OF this] assms have "r = row"
      by (auto simp: db_ok_def distinct_map inj_on_def)
    with Some show ?thesis by simp
  qed
  then show ?thesis
    using filter_key_find [of ur_id "users d" "ur_id row"] assms(1)
    by (simp add: sql_select_credentials_def db_ok_def)
qed

lemma no_credentials: "i \<notin> user_ids d \<Longrightarrow> sql_select_credentials i d = []"
  by (auto simp: sql_select_credentials_def filter_empty_conv)

definition login_body :: "lib \<Rightarrow> uuid \<Rightarrow> string \<Rightarrow> json_body" where
  "login_body L i pw = [(''id'', JString (to_str L i)), (''password'', JString pw)]"

lemma login_body_fields:
  "login_IsCorrectRequest (login_body L i pw)"
  "field_string (JObject (login_body L i pw)) ''id'' = Inr (to_str L i)"
  "field_string (JObject (login_body L i pw)) ''password'' = Inr pw"
  by (simp_all add: login_body_def login_IsCorrectRequest_def has_member_def field_string_def)

lemma login_run:
  assumes "library L" and "faults w = []" and "db_ok (master w)" and "row \<in> set (users (master w))"
    and "(ur_password_hash row, ur_salt row) = stored_credentials H dist q"
    and "GenerateBearerToken draw token_length \<notin> set (map tk_token (tokens (master w)))"
  shows "Login L H draw now (login_body L (ur_id row) p) w =
    (if same_slow_hash H dist p q
     then (Inr (kOk, JObject [(''token'', JString (GenerateBearerToken draw token_length))]),
       w\<lparr>master := (master w)\<lparr>tokens := tokens (master w) @
           [\<lparr>tk_token = GenerateBearerToken draw token_length, tk_user = ur_id row,
             tk_scopes = [''read'', ''user''], tk_updated = now\<rparr>]\<rparr>,
         cache_invalidations := Suc (cache_invalidations w)\<rparr>)
     else (Inr (kNotFound, JObject []), w))"
  using assms(2,6) passwords.check_store [of H p dist q]
    library.string_generator_to_str [OF assms(1), of "ur_id row"]
  by (simp add: Login_def login_body_fields credentials_of_user [OF assms(3,4)] assms(5) bind_def
      GenerateToken_def Let_def sql_insert_token_def)

lemma login_reject:
  assumes "library L" and "faults w = []" and "db_ok (master w)" and "row \<in> set (users (master w))"
    and "(ur_password_hash row, ur_salt row) = stored_credentials H dist q" and "\<not> same_slow_hash H dist p q"
  shows "Login L H draw now (login_body L (ur_id row) p) w = (Inr (kNotFound, JObject []), w)"
  using assms(2) passwords.rejects [OF assms(6)] library.string_generator_to_str [OF assms(1), of "ur_id row"]
  by (simp add: Login_def login_body_fields credentials_of_user [OF assms(3,4)] assms(5) bind_def)

lemma register_login_run:
  fixes w :: "('r, 'z) app_scheme"
  assumes "library L" and "faults w = []" and "db_ok (master w)"
    and "registered_row H D dist i body row" and "i \<notin> user_ids (master w)"
    and "field_string (JObject body) ''password'' = Inr pw"
    and "token = GenerateBearerToken draw token_length" and "token \<notin> set (map tk_token (tokens (master w)))"
  shows "Login L H draw now (login_body L i pw) (snd (UserRegisterHandler L H D dist i body w))
      = (Inr (kOk, JObject [(''token'', JString token)]),
         w\<lparr>master := (master w)\<lparr>users := users (master w) @ [row], tokens := tokens (master w) @
             [\<lparr>tk_token = token, tk_user = i, tk_scopes = [''read'', ''user''], tk_updated = now\<rparr>]\<rparr>,
           cache_invalidations := Suc (cache_invalidations w)\<rparr>)"
proof -
  let ?w = "w\<lparr>master := (master w)\<lparr>users := users (master w) @ [row]\<rparr>\<rparr>"
  have i: "ur_id row = i" using assms(4) by (auto simp: registered_row_def)
  have "db_ok (snd (sql_insert_user row (master w)))"
    using sql_insert_user_ok assms(3) by (rule preservesD)
  with i assms(5) have ok: "db_ok (master ?w)" by (simp add: sql_insert_user_def)
  have same: "same_slow_hash H dist pw pw" by (rule passwords.same_refl)
  have "Login L H draw now (login_body L (ur_id row) pw) ?w =
     (Inr (kOk, JObject [(''token'', JString token)]),
       ?w\<lparr>master := (master ?w)\<lparr>tokens := tokens (master w) @ [\<lparr>tk_token = token, tk_user = ur_id row,
             tk_scopes = [''read'', ''user''], tk_updated = now\<rparr>]\<rparr>,
         cache_invalidations := Suc (cache_invalidations w)\<rparr>)"
    using login_run [OF assms(1) _ ok _ registered_credentials [OF assms(4,6)], of draw now pw] assms(2,7,8) same
    by simp
  then show ?thesis unfolding register_run [OF assms(2,4,5)] snd_conv i by simp
qed

lemma load_cache_None: "token \<notin> set (map tk_token rows) \<Longrightarrow> AuthCachePolicy_load rows token = None"
  by (auto simp: AuthCachePolicy_load_def map_of_eq_None_iff info_of_row_def)

section \<open>Properties\<close>

definition sample_app :: "keyspace app" where
  "sample_app = \<lparr>faults = [], master = sample_db, slave = sample_db, feed_redis = empty_keyspace,
     published = [], auth_cache = Map.empty, cache_invalidations = 0\<rparr>"

lemma sample_app_simps [simp]:
  "faults sample_app = []" "master sample_app = sample_db" "auth_cache sample_app = Map.empty"
  by (simp_all add: sample_app_def)

text \<open>
  C25. The authorization decision. A request is authorized as a user exactly when its header is
  \<open>Bearer\<close>, one space and a text whose part before the first NUL is a cached token of that
  user whose scopes contain all required ones; every other header of that form is forbidden, and
  every other request lacks a token.
\<close>

theorem check_auth_decides:
  "(CheckAuth cache required header = (kAuthOk, Some u) \<longleftrightarrow>
      (\<exists>text info. header = ''Bearer '' @ text \<and> cache (c_string text) = Some info
         \<and> set required \<subseteq> set (ui_scopes info) \<and> ui_user_id info = u))
   \<and> (snd (CheckAuth cache required header) \<noteq> None \<longleftrightarrow> fst (CheckAuth cache required header) = kAuthOk)
   \<and> ((\<exists>reason. fst (CheckAuth cache required header) = kTokenNotFound reason) \<longleftrightarrow>
        \<not> (\<exists>text. header = ''Bearer '' @ text))"
proof (cases "\<exists>text. header = ''Bearer '' @ text")
  case False
  then show ?thesis by (simp add: check_auth_cases)
next
  case True
  then obtain t where header: "header = ''Bearer '' @ t" by blast
  show ?thesis
  proof (cases "cache (c_string t)")
    case None
    with header show ?thesis by (simp add: check_auth_cases)
  next
    case (Some info)
    with header check_scopes_ok [of required "ui_scopes info"] show ?thesis
      by (cases "check_scopes required (ui_scopes info)") (auto simp: check_auth_cases check_scopes_no_token)
  qed
qed

text \<open>
  C18. Register, log in, be authorized. A registered user who logs in with the password gets a
  token. No update of the cache makes it accepted while the replica lags behind, neither the one
  that login requests nor a full one; once the replica has caught up, a full update and every
  incremental one from a time up to the login do, for the scopes \<open>read\<close> and \<open>user\<close> of that user.
\<close>

theorem register_login_authorize:
  fixes w :: "('r, 'z) app_scheme"
  assumes "library L" and "faults w = []" and "db_ok (master w)"
    and "registered_row H D dist i body row" and "i \<notin> user_ids (master w)"
    and "field_string (JObject body) ''password'' = Inr pw"
    and "token = GenerateBearerToken draw token_length" and "token \<notin> set (map tk_token (tokens (master w)))"
    and "auth_cache w token = None" and "token \<notin> set (map tk_token (tokens (slave w)))"
    and "w' = snd (Login L H draw now (login_body L i pw) (snd (UserRegisterHandler L H D dist i body w)))"
  shows "fst (Login L H draw now (login_body L i pw) (snd (UserRegisterHandler L H D dist i body w)))
      = Inr (kOk, JObject [(''token'', JString token)])
    \<and> CheckAuth (auth_cache (update_auth_cache t w')) [''read''] (''Bearer '' @ token) = (kAuthForbidden [], None)
    \<and> CheckAuth (auth_cache (update_auth_cache kFull (replicate_now w'))) [''read''] (''Bearer '' @ token) = (kAuthOk, Some i)
    \<and> (since \<le> now \<longrightarrow> CheckAuth (auth_cache (update_auth_cache (kIncremental since) (replicate_now w')))
          [''read'', ''user''] (''Bearer '' @ token) = (kAuthOk, Some i))
    \<and> cache_invalidations w' = Suc (cache_invalidations w)"
proof -
  let ?t = "\<lparr>tk_token = token, tk_user = i, tk_scopes = [''read'', ''user''], tk_updated = now\<rparr>"
  have run: "fst (Login L H draw now (login_body L i pw) (snd (UserRegisterHandler L H D dist i body w)))
      = Inr (kOk, JObject [(''token'', JString token)])"
    "w' = w\<lparr>master := (master w)\<lparr>users := users (master w) @ [row], tokens := tokens (master w) @ [?t]\<rparr>,
      cache_invalidations := Suc (cache_invalidations w)\<rparr>"
    using register_login_run [OF assms(1-8), of now] by (simp_all add: assms(11))
  have c: "c_string token = token" unfolding assms(7) by (rule c_string_token)
  have load: "AuthCachePolicy_load (rows @ [?t]) token = Some (info_of_row ?t)" if "set rows \<subseteq> set (tokens (master w))" for rows
    using load_cache_snoc [of ?t rows] assms(8) that by auto
  have late: "AuthCachePolicy_load rows token = None" if "set rows \<subseteq> set (tokens (slave w))" for rows
    using load_cache_None [of token rows] assms(10) that by auto
  have "CheckAuth (auth_cache (update_auth_cache t w')) [''read''] (''Bearer '' @ token) = (kAuthForbidden [], None)"
    using assms(9) late by (cases t) (simp_all add: run(2) check_auth_cases c update_auth_cache_def map_add_def)
  moreover have "CheckAuth (auth_cache (update_auth_cache kFull (replicate_now w'))) [''read''] (''Bearer '' @ token) = (kAuthOk, Some i)"
    using load by (simp add: run(2) replicate_now_def update_auth_cache_def check_auth_cases c info_of_row_def)
  moreover have "CheckAuth (auth_cache (update_auth_cache (kIncremental since) (replicate_now w')))
      [''read'', ''user''] (''Bearer '' @ token) = (kAuthOk, Some i)" if "since \<le> now"
    using load [of "filter (\<lambda>r. since \<le> tk_updated r) (tokens (master w))"] that
    by (simp add: run(2) replicate_now_def update_auth_cache_def check_auth_cases c info_of_row_def)
  ultimately show ?thesis using run by simp
qed

theorem register_login_authorize_witness:
  "let H = \<lparr>hash_string = (\<lambda>_. 7), hash_size = id\<rparr>; draw = (\<lambda>i m. 0);
       token = GenerateBearerToken draw token_length;
       w' = snd (Login ref_lib H draw 50 (login_body ref_lib (Uuid 4) ''pw'')
              (snd (UserRegisterHandler ref_lib H sample_dates (\<lambda>_. 65) (Uuid 4) (sample_registration ''pw'') sample_app)))
   in CheckAuth (auth_cache (update_auth_cache (kIncremental 40) w')) [''read''] (''Bearer '' @ token) = (kAuthForbidden [], None)
    \<and> CheckAuth (auth_cache (update_auth_cache (kIncremental 40) (replicate_now w'))) [''read'', ''user''] (''Bearer '' @ token)
      = (kAuthOk, Some (Uuid 4))"
proof -
  have f: "faults sample_app = []" "db_ok (master sample_app)" "Uuid 4 \<notin> user_ids (master sample_app)"
    "auth_cache sample_app (GenerateBearerToken (\<lambda>i m. 0) token_length) = None"
    "GenerateBearerToken (\<lambda>i m. 0) token_length \<notin> set (map tk_token (tokens (master sample_app)))"
    "GenerateBearerToken (\<lambda>i m. 0) token_length \<notin> set (map tk_token (tokens (slave sample_app)))"
    by (simp_all add: sample_db_ok) (simp_all add: sample_app_def sample_db_def sample_user_def)
  have p: "field_string (JObject (sample_registration ''pw'')) ''password'' = Inr ''pw''"
    by (simp add: sample_registration_def field_string_def)
  from register_login_authorize [where H = "\<lparr>hash_string = (\<lambda>_. 7), hash_size = id\<rparr>" and dist = "\<lambda>_. 65" and now = 50
      and t = "kIncremental 40" and since = 40, OF ref_library_axioms f(1,2) sample_registered f(3) p refl f(5,4,6) refl]
  show ?thesis by (simp add: Let_def)
qed

text \<open>
  Refused logins. An identifier that is no UUID is not answered as a bad request but leaves the
  handler as an exception; an unknown user and a password with another slow hash are answered
  alike; none of them changes the state.
\<close>

lemma login_refusals:
  fixes w :: "('r, 'z) app_scheme"
  assumes "library L" and "faults w = []" and "db_ok (master w)"
  shows "(gen L text = None \<longrightarrow>
        Login L H draw now [(''id'', JString text), (''password'', JString p)] w = (Inl RuntimeError, w))
    \<and> (i \<notin> user_ids (master w) \<longrightarrow> Login L H draw now (login_body L i p) w = (Inr (kNotFound, JObject []), w))
    \<and> (row \<in> set (users (master w)) \<and> (ur_password_hash row, ur_salt row) = stored_credentials H dist q
         \<and> \<not> same_slow_hash H dist p q
       \<longrightarrow> Login L H draw now (login_body L (ur_id row) p) w = (Inr (kNotFound, JObject []), w))"
proof (intro conjI impI)
  assume "gen L text = None"
  then show "Login L H draw now [(''id'', JString text), (''password'', JString p)] w = (Inl RuntimeError, w)"
    by (simp add: Login_def login_IsCorrectRequest_def has_member_def field_string_def string_generator_def bind_def)
next
  assume "i \<notin> user_ids (master w)"
  then show "Login L H draw now (login_body L i p) w = (Inr (kNotFound, JObject []), w)"
    using assms(2) library.string_generator_to_str [OF assms(1), of i]
    by (simp add: Login_def login_body_fields no_credentials bind_def)
next
  assume "row \<in> set (users (master w)) \<and> (ur_password_hash row, ur_salt row) = stored_credentials H dist q
         \<and> \<not> same_slow_hash H dist p q"
  then show "Login L H draw now (login_body L (ur_id row) p) w = (Inr (kNotFound, JObject []), w)"
    using login_reject [OF assms, of row H dist q p draw now] by simp
qed

lemma login_refusals_example:
  "Login ref_lib \<lparr>hash_string = \<lambda>s. 7, hash_size = \<lambda>n. n\<rparr> (\<lambda>i m. 0) 5
      (login_body ref_lib (Uuid 9) ''secret'') sample_app = (Inr (kNotFound, JObject []), sample_app)
   \<and> Login ref_lib \<lparr>hash_string = \<lambda>s. 7, hash_size = \<lambda>n. n\<rparr> (\<lambda>i m. 0) 5
      [(''id'', JString ''nobody''), (''password'', JString ''secret'')] sample_app = (Inl RuntimeError, sample_app)"
proof -
  have "gen ref_lib ''nobody'' = None" by code_simp
  moreover have "Uuid 9 \<notin> user_ids (master sample_app)" and "db_ok (master sample_app)" and "faults sample_app = []"
    using sample_db_ok by (simp_all add: sample_db_def sample_user_def)
  ultimately show ?thesis
    using login_refusals [OF ref_library_axioms, of sample_app "''nobody''"
        "\<lparr>hash_string = \<lambda>s. 7, hash_size = \<lambda>n. n\<rparr>" "\<lambda>i m. 0" 5 "''secret''" "Uuid 9"]
    by blast
qed

text \<open>
  C40. How many tokens there are. Sampling keeps the order of the character set and takes every
  character at most once: a token has 32 characters in strictly ascending order, and there are
  fewer than \<open>2 ^ 59\<close> of them, not \<open>62 ^ 32\<close>.
\<close>

theorem token_space_is_small:
  assumes "\<And>i m. 0 < m \<Longrightarrow> draw i m < m"
  shows "length (GenerateBearerToken draw token_length) = 32
    \<and> sorted_wrt (<) (GenerateBearerToken draw token_length)
    \<and> subseq (GenerateBearerToken draw token_length) token_charset
    \<and> card {t. subseq t token_charset \<and> length t = token_length} < 2 ^ 59"
proof (intro conjI)
  show "length (GenerateBearerToken draw token_length) = 32"
    unfolding GenerateBearerToken_def token_length_def
    by (rule length_sample) (simp_all add: assms length_charset)
  show sub: "subseq (GenerateBearerToken draw token_length) token_charset"
    unfolding GenerateBearerToken_def by (rule subseq_sample)
  show "sorted_wrt (<) (GenerateBearerToken draw token_length)"
    using sub charset_sorted by (rule sorted_wrt_subseq)
  have "card {t. subseq t token_charset \<and> length t = token_length} \<le> 62 choose 32"
    using tokens_choose [of 32] by (simp add: token_length_def)
  also have "(62 choose 32 :: nat) < 2 ^ 59"
    by (simp add: binomial_fact' fact_numeral)
  finally show "card {t. subseq t token_charset \<and> length t = token_length} < 2 ^ 59" .
qed

theorem token_space_is_small_witness:
  "sorted_wrt (<) (GenerateBearerToken (\<lambda>i m. m - 1) token_length)
   \<and> length (GenerateBearerToken (\<lambda>i m. m - 1) token_length) = 32"
  using token_space_is_small [of "\<lambda>i m. m - 1"] by simp

end
