(* ===== verification/Web_Socket.thy ===== *)
theory Web_Socket
  imports Feed_System
begin

text \<open>
  Live notifications: the session registry (\<open>src/post/post_feed_ws_manager.cpp\<close>), the
  WebSocket handler (\<open>src/post/post_feed_ws_handler.cpp\<close>) as a state machine of its two tasks,
  and the per-instance fan-out consumer (\<open>src/post/ws_fanout_consumer.cpp\<close>). A session is a
  heap object named by a number; the registry holds weak references, so a session lives as long
  as its handler does.
\<close>

section \<open>The registry\<close>

datatype ws_phase = At_Head | In_Pop | Leaving | Finished | Aborted

record ws_handler =
  wh_user :: uuid
  wh_disconnected :: bool
  wh_cancelled :: bool
  wh_recv_done :: bool
  wh_phase :: ws_phase
  wh_sent :: "string list"
  wh_lost :: "string list"

text \<open>
  \<open>live\<close> are the sessions that some shared pointer owns, \<open>push_log\<close> observes what was
  pushed to each queue.
\<close>

record 'r node = "'r world" +
  sessions :: "uuid \<Rightarrow> nat list option"
  live :: "nat set"
  queues :: "nat \<Rightarrow> string list"
  next_session :: nat
  push_log :: "nat \<Rightarrow> string list"
  handlers :: "nat \<Rightarrow> ws_handler option"

definition Subscribe :: "uuid \<Rightarrow> ('r, 'z) node_scheme \<Rightarrow> nat \<times> ('r, 'z) node_scheme" where
  "Subscribe user_id w =
     (let session = next_session w;
          list = (case sessions w user_id of None \<Rightarrow> [] | Some l \<Rightarrow> l)
      in (session,
          w\<lparr>next_session := Suc session, live := insert session (live w), queues := (queues w)(session := []),
            sessions := (sessions w)(user_id \<mapsto> list @ [session])\<rparr>))"

definition Unsubscribe :: "uuid \<Rightarrow> nat \<Rightarrow> ('r, 'z) node_scheme \<Rightarrow> ('r, 'z) node_scheme" where
  "Unsubscribe user_id session w =
     (case sessions w user_id of
        None \<Rightarrow> w
      | Some list \<Rightarrow>
          (let list' = filter (\<lambda>wp. \<not> (wp \<notin> live w \<or> wp = session)) list
           in if list' = [] then w\<lparr>sessions := (sessions w)(user_id := None)\<rparr>
              else w\<lparr>sessions := (sessions w)(user_id \<mapsto> list')\<rparr>))"

definition PushNoblock :: "nat \<Rightarrow> string \<Rightarrow> ('r, 'z) node_scheme \<Rightarrow> ('r, 'z) node_scheme" where
  "PushNoblock s msg w = w\<lparr>queues := (queues w)(s := queues w s @ [msg]), push_log := (push_log w)(s := push_log w s @ [msg])\<rparr>"

definition notify_user :: "string \<Rightarrow> uuid \<Rightarrow> ('r, 'z) node_scheme \<Rightarrow> ('r, 'z) node_scheme" where
  "notify_user msg fid w =
     (case sessions w fid of
        None \<Rightarrow> w
      | Some list \<Rightarrow> fold (\<lambda>wp w. if wp \<in> live w then PushNoblock wp msg w else w) list w)"

definition WsManager_GetFollowers :: "planner \<Rightarrow> uuid \<Rightarrow> (('r, 'z) world_scheme, uuid list) eff" where
  "WsManager_GetFollowers P author_id = from_slave (sql_followers P author_id)"

definition NotifyFollowers ::
  "lib \<Rightarrow> planner \<Rightarrow> uuid \<Rightarrow> uuid \<Rightarrow> string \<Rightarrow> (('r, 'z) node_scheme, unit) eff"
where
  "NotifyFollowers L P author_id post_id text =
     (let msg = json_dump L (JObject
            [(''postId'', JString (to_str L post_id)),
             (''postText'', JString text),
             (''author_user_id'', JString (to_str L author_id))])
      in bind (WsManager_GetFollowers P author_id) (\<lambda>followers.
         for_each followers (\<lambda>fid. modify (notify_user msg fid))))"

definition WsFanoutConsumer_Process :: "lib \<Rightarrow> planner \<Rightarrow> string \<Rightarrow> (('r, 'z) node_scheme, unit) eff" where
  "WsFanoutConsumer_Process L P message =
     bind (lift_sum (sum_bind (json_from_string L message) (\<lambda>json.
       sum_bind (sum_bind (field_string json ''author_user_id'') (string_generator L)) (\<lambda>author_id.
       sum_bind (sum_bind (field_string json ''postId'') (string_generator L)) (\<lambda>post_id.
       sum_bind (field_string json ''postText'') (\<lambda>text. Inr (author_id, post_id, text)))))))
     (\<lambda>(author_id, post_id, text). NotifyFollowers L P author_id post_id text)"

section \<open>The handler\<close>

definition new_handler :: "uuid \<Rightarrow> ws_handler" where
  "new_handler u = \<lparr>wh_user = u, wh_disconnected = False, wh_cancelled = False, wh_recv_done = False,
     wh_phase = At_Head, wh_sent = [], wh_lost = []\<rparr>"

definition set_handler :: "nat \<Rightarrow> ws_handler \<Rightarrow> ('r, 'z) node_scheme \<Rightarrow> ('r, 'z) node_scheme" where
  "set_handler s h w = w\<lparr>handlers := (handlers w)(s \<mapsto> h)\<rparr>"

definition drop_session :: "nat \<Rightarrow> ('r, 'z) node_scheme \<Rightarrow> ('r, 'z) node_scheme" where
  "drop_session s w = w\<lparr>live := live w - {s}\<rparr>"

definition pop_queue :: "nat \<Rightarrow> ('r, 'z) node_scheme \<Rightarrow> ('r, 'z) node_scheme" where
  "pop_queue s w = w\<lparr>queues := (queues w)(s := tl (queues w s))\<rparr>"

text \<open>
  One step of one task: the receiving task sees a close frame or an I/O error, or ends in another
  way; the main task evaluates the loop condition, pops with a deadline, sends, leaves the loop,
  and finally unsubscribes and drops its session. An exception that the handler does not catch
  aborts it: one out of \<open>Pop\<close> or \<open>SendText\<close>, or, once the task is cancelled, the one
  of \<open>recv_task.Wait()\<close>. The fan-out consumer and the databases act at any time.
\<close>

inductive ws_step :: "lib \<Rightarrow> planner \<Rightarrow> 'r node \<Rightarrow> 'r node \<Rightarrow> bool"
  for L :: lib and P :: planner
where
  connect: "Subscribe u w = (s, w') \<Longrightarrow> ws_step L P w (set_handler s (new_handler u) w')"
| client_gone: "handlers w s = Some h \<Longrightarrow> \<not> wh_recv_done h \<Longrightarrow>
    ws_step L P w (set_handler s (h\<lparr>wh_disconnected := True, wh_recv_done := True\<rparr>) w)"
| recv_end: "handlers w s = Some h \<Longrightarrow> \<not> wh_recv_done h \<Longrightarrow>
    ws_step L P w (set_handler s (h\<lparr>wh_recv_done := True\<rparr>) w)"
| cancel: "handlers w s = Some h \<Longrightarrow> ws_step L P w (set_handler s (h\<lparr>wh_cancelled := True\<rparr>) w)"
| enter: "handlers w s = Some h \<Longrightarrow> wh_phase h = At_Head \<Longrightarrow> \<not> wh_disconnected h \<Longrightarrow> \<not> wh_cancelled h \<Longrightarrow>
    ws_step L P w (set_handler s (h\<lparr>wh_phase := In_Pop\<rparr>) w)"
| leave: "handlers w s = Some h \<Longrightarrow> wh_phase h = At_Head \<Longrightarrow> wh_disconnected h \<or> wh_cancelled h \<Longrightarrow>
    ws_step L P w (set_handler s (h\<lparr>wh_phase := Leaving\<rparr>) w)"
| pop_timeout: "handlers w s = Some h \<Longrightarrow> wh_phase h = In_Pop \<Longrightarrow>
    ws_step L P w (set_handler s (h\<lparr>wh_phase := At_Head\<rparr>) w)"
| pop_send: "handlers w s = Some h \<Longrightarrow> wh_phase h = In_Pop \<Longrightarrow> queues w s = m # q \<Longrightarrow>
    ws_step L P w (set_handler s (h\<lparr>wh_phase := At_Head, wh_sent := wh_sent h @ [m]\<rparr>) (pop_queue s w))"
| pop_send_error: "handlers w s = Some h \<Longrightarrow> wh_phase h = In_Pop \<Longrightarrow> queues w s = m # q \<Longrightarrow>
    ws_step L P w (set_handler s (h\<lparr>wh_phase := Leaving, wh_lost := [m]\<rparr>) (pop_queue s w))"
| finish: "handlers w s = Some h \<Longrightarrow> wh_phase h = Leaving \<Longrightarrow> wh_recv_done h \<Longrightarrow>
    ws_step L P w (drop_session s (set_handler s (h\<lparr>wh_phase := Finished\<rparr>) (Unsubscribe (wh_user h) s w)))"
| abort: "handlers w s = Some h \<Longrightarrow> wh_phase h = In_Pop \<or> wh_phase h = Leaving \<and> wh_cancelled h \<Longrightarrow>
    ws_step L P w (drop_session s (set_handler s (h\<lparr>wh_phase := Aborted\<rparr>) w))"
| fanout: "WsFanoutConsumer_Process L P message w = (r, w') \<Longrightarrow> ws_step L P w w'"
| databases: "ws_step L P w (w\<lparr>faults := fs, master := m, slave := d\<rparr>)"

definition ws_start :: "('r, 'z) node_scheme \<Rightarrow> bool" where
  "ws_start w \<longleftrightarrow> sessions w = (\<lambda>_. None) \<and> live w = {} \<and> handlers w = (\<lambda>_. None) \<and> push_log w = (\<lambda>_. [])"

inductive ws_reach :: "lib \<Rightarrow> planner \<Rightarrow> 'r node \<Rightarrow> bool" for L :: lib and P :: planner where
  start: "ws_start w \<Longrightarrow> ws_reach L P w"
| step: "ws_reach L P w \<Longrightarrow> ws_step L P w w' \<Longrightarrow> ws_reach L P w'"

section \<open>The invariant\<close>

definition open_phase :: "ws_phase \<Rightarrow> bool" where
  "open_phase p \<longleftrightarrow> p \<noteq> Finished \<and> p \<noteq> Aborted"

text \<open>
  Every list of the registry is non-empty and repeats nothing, its sessions belong to that user;
  the live sessions are those of open handlers, and each is registered; what was pushed to a
  session was sent, lost by the one failing send, or is still queued, in this order.
\<close>

definition ws_inv :: "('r, 'z) node_scheme \<Rightarrow> bool" where
  "ws_inv w \<longleftrightarrow>
     (\<forall>u l. sessions w u = Some l \<longrightarrow> l \<noteq> [] \<and> distinct l \<and>
        (\<forall>s \<in> set l. s < next_session w \<and> (\<exists>h. handlers w s = Some h \<and> wh_user h = u))) \<and>
     (\<forall>s. s \<in> live w \<longleftrightarrow> (\<exists>h. handlers w s = Some h \<and> open_phase (wh_phase h))) \<and>
     (\<forall>s h. handlers w s = Some h \<longrightarrow> s < next_session w \<and>
        (open_phase (wh_phase h) \<longrightarrow> (\<exists>l. sessions w (wh_user h) = Some l \<and> s \<in> set l)) \<and>
        (wh_phase h = At_Head \<or> wh_phase h = In_Pop \<longrightarrow> wh_lost h = []) \<and> length (wh_lost h) \<le> 1 \<and>
        wh_sent h @ wh_lost h @ queues w s = push_log w s) \<and>
     (\<forall>s. next_session w \<le> s \<longrightarrow> handlers w s = None \<and> push_log w s = [])"

lemma ws_inv_parts:
  assumes "ws_inv w"
  shows "sessions w u = Some l \<Longrightarrow> l \<noteq> [] \<and> distinct l"
    and "sessions w u = Some l \<Longrightarrow> s \<in> set l \<Longrightarrow> s < next_session w \<and> (\<exists>h. handlers w s = Some h \<and> wh_user h = u)"
    and "s \<in> live w \<longleftrightarrow> (\<exists>h. handlers w s = Some h \<and> open_phase (wh_phase h))"
    and "handlers w s = Some h \<Longrightarrow> open_phase (wh_phase h) \<Longrightarrow> \<exists>l. sessions w (wh_user h) = Some l \<and> s \<in> set l"
    and "handlers w s = Some h \<Longrightarrow> s < next_session w \<and> length (wh_lost h) \<le> 1
          \<and> wh_sent h @ wh_lost h @ queues w s = push_log w s"
    and "handlers w s = Some h \<Longrightarrow> wh_phase h = At_Head \<or> wh_phase h = In_Pop \<Longrightarrow> wh_lost h = []"
    and "next_session w \<le> s \<Longrightarrow> handlers w s = None \<and> push_log w s = []"
  using assms unfolding ws_inv_def by blast+

lemma ws_inv_cong:
  assumes "sessions w' = sessions w" "live w' = live w" "handlers w' = handlers w"
    and "next_session w' = next_session w" "queues w' = queues w" "push_log w' = push_log w"
  shows "ws_inv w' \<longleftrightarrow> ws_inv w"
  using assms by (simp add: ws_inv_def)

lemma push_inv:
  assumes inv: "ws_inv w" and "s \<in> live w"
  shows "ws_inv (PushNoblock s m w)"
proof -
  obtain h where "handlers w s = Some h" using assms ws_inv_parts(3) [OF inv] by blast
  with inv show ?thesis unfolding ws_inv_def PushNoblock_def
    by (simp add: fun_upd_def) (metis append_assoc not_less)
qed

lemma notify_user_inv:
  assumes "ws_inv w"
  shows "ws_inv (notify_user msg fid w)"
proof -
  have "ws_inv (fold (\<lambda>wp w. if wp \<in> live w then PushNoblock wp msg w else w) l w)" for l
    using assms by (induction l arbitrary: w) (auto simp: push_inv)
  then show ?thesis using assms by (simp add: notify_user_def split: option.split)
qed

lemma fanout_inv: "preserves ws_inv (WsFanoutConsumer_Process L P message)"
proof -
  have "preserves ws_inv (WsManager_GetFollowers P a)" for a
    unfolding WsManager_GetFollowers_def from_slave_def
    by (rule preserves_ext, rule preserves_query) (simp add: ws_inv_def)
  then have "preserves ws_inv (NotifyFollowers L P a i t)" for a i t
    unfolding NotifyFollowers_def Let_def
    by (intro preserves_bind preserves_for_each preserves_modify notify_user_inv)
  then show ?thesis
    unfolding WsFanoutConsumer_Process_def
    by (intro preserves_bind preserves_lift_sum) (auto split: prod.split)
qed

text \<open>A step of one handler that keeps its user and whether it is open.\<close>

lemma handler_step_inv:
  assumes inv: "ws_inv w" and h: "handlers w s = Some h"
    and h': "wh_user h' = wh_user h" "open_phase (wh_phase h') = open_phase (wh_phase h)"
    and lost: "wh_phase h' = At_Head \<or> wh_phase h' = In_Pop \<longrightarrow> wh_lost h' = []" "length (wh_lost h') \<le> 1"
    and log: "wh_sent h' @ wh_lost h' @ q = push_log w s"
  shows "ws_inv (set_handler s h' (w\<lparr>queues := (queues w)(s := q)\<rparr>))"
proof -
  have "s < next_session w" using ws_inv_parts(5) [OF inv h] by blast
  with inv h h' lost log show ?thesis
    unfolding ws_inv_def set_handler_def by (simp add: fun_upd_def) (metis not_less option.inject)
qed

lemma handler_flag_inv:
  assumes "ws_inv w" and "handlers w s = Some h"
    and "wh_user h' = wh_user h" "open_phase (wh_phase h') = open_phase (wh_phase h)"
    and "wh_lost h' = wh_lost h" "wh_sent h' = wh_sent h"
    and "wh_phase h' = At_Head \<or> wh_phase h' = In_Pop \<longrightarrow> wh_phase h = At_Head \<or> wh_phase h = In_Pop"
  shows "ws_inv (set_handler s h' w)"
  using handler_step_inv [OF assms(1-4), of "queues w s"] ws_inv_parts(5,6) [OF assms(1,2)] assms(5-7)
  by simp

lemma connect_inv:
  assumes inv: "ws_inv w" and "Subscribe u w = (s, w')"
  shows "ws_inv (set_handler s (new_handler u) w')"
proof -
  let ?n = "next_session w"
  let ?l = "case sessions w u of None \<Rightarrow> [] | Some l \<Rightarrow> l"
  have s: "s = ?n" and w': "w' = w\<lparr>next_session := Suc ?n, live := insert ?n (live w),
      queues := (queues w)(?n := []), sessions := (sessions w)(u \<mapsto> ?l @ [?n])\<rparr>"
    using assms(2) by (auto simp: Subscribe_def Let_def)
  have new: "handlers w ?n = None" "push_log w ?n = []"
    using ws_inv_parts(7) [OF inv] by blast+
  have old: "s \<noteq> ?n \<and> s < ?n" if "handlers w s = Some h" for s h
    using ws_inv_parts(5) [OF inv that] by simp
  have l: "distinct ?l" "\<And>s. s \<in> set ?l \<Longrightarrow> s < ?n \<and> (\<exists>h. handlers w s = Some h \<and> wh_user h = u)"
    using ws_inv_parts(1,2) [OF inv, of u] by (cases "sessions w u"; auto)+
  let ?w = "set_handler s (new_handler u) w'"
  have f: "sessions ?w = (sessions w)(u \<mapsto> ?l @ [?n])" "live ?w = insert ?n (live w)"
    "handlers ?w = (handlers w)(?n \<mapsto> new_handler u)" "next_session ?w = Suc ?n"
    "queues ?w = (queues w)(?n := [])" "push_log ?w = push_log w"
    by (simp_all add: set_handler_def s w')
  have hd: "wh_user (new_handler u) = u" "wh_phase (new_handler u) = At_Head" "wh_sent (new_handler u) = []"
    "wh_lost (new_handler u) = []" "open_phase At_Head"
    by (simp_all add: new_handler_def open_phase_def)
  show ?thesis
    unfolding ws_inv_def f
  proof (intro conjI allI impI)
    fix v l assume v: "((sessions w)(u \<mapsto> ?l @ [?n])) v = Some l"
    have "?n \<notin> set ?l" using l(2) [of ?n] by blast
    then show "l \<noteq> []" "distinct l"
      using v l(1) ws_inv_parts(1) [OF inv, of v] by (simp_all split: if_splits) auto
    show "\<forall>s\<in>set l. s < Suc ?n \<and> (\<exists>h. ((handlers w)(?n \<mapsto> new_handler u)) s = Some h \<and> wh_user h = v)"
      using v l(2) ws_inv_parts(2) [OF inv, of v] hd(1) by (fastforce simp: less_Suc_eq split: if_splits)
  next
    fix t show "t \<in> insert ?n (live w) \<longleftrightarrow> (\<exists>h. ((handlers w)(?n \<mapsto> new_handler u)) t = Some h \<and> open_phase (wh_phase h))"
      using ws_inv_parts(3) [OF inv, of t] hd new by auto
  next
    fix t h assume t: "((handlers w)(?n \<mapsto> new_handler u)) t = Some h"
    show "t < Suc ?n" using t old by (auto simp: less_Suc_eq split: if_splits)
    show "\<exists>l. ((sessions w)(u \<mapsto> ?l @ [?n])) (wh_user h) = Some l \<and> t \<in> set l" if "open_phase (wh_phase h)"
      using t that ws_inv_parts(4) [OF inv, of t h] hd by (auto split: if_splits)
    show "wh_lost h = []" if "wh_phase h = At_Head \<or> wh_phase h = In_Pop"
      using t that ws_inv_parts(6) [OF inv, of t h] hd by (auto split: if_splits)
    show "length (wh_lost h) \<le> 1" "wh_sent h @ wh_lost h @ ((queues w)(?n := [])) t = push_log w t"
      using t ws_inv_parts(5) [OF inv, of t h] hd new by (auto split: if_splits)
  next
    fix t assume "Suc ?n \<le> t"
    then show "((handlers w)(?n \<mapsto> new_handler u)) t = None" "push_log w t = []"
      using ws_inv_parts(7) [OF inv, of t] by auto
  qed
qed

text \<open>A handler that ends: its session dies; with \<open>Unsubscribe\<close> it also leaves the registry.\<close>

lemma end_handler_inv:
  assumes inv: "ws_inv w" and h: "handlers w s = Some h"
    and h': "wh_user h' = wh_user h" "\<not> open_phase (wh_phase h')" "wh_lost h' = wh_lost h" "wh_sent h' = wh_sent h"
  shows "ws_inv (drop_session s (set_handler s h' w))"
proof -
  let ?w = "drop_session s (set_handler s h' w)"
  have f: "sessions ?w = sessions w" "live ?w = live w - {s}"
    "handlers ?w = (handlers w)(s \<mapsto> h')" "next_session ?w = next_session w"
    "queues ?w = queues w" "push_log ?w = push_log w"
    by (simp_all add: set_handler_def drop_session_def)
  have closed: "wh_phase h' \<noteq> At_Head" "wh_phase h' \<noteq> In_Pop"
    using h'(2) by (auto simp: open_phase_def)
  show ?thesis
    unfolding ws_inv_def f
  proof (intro conjI allI impI)
    fix v l assume v: "sessions w v = Some l"
    then show "l \<noteq> []" "distinct l" using ws_inv_parts(1) [OF inv] by blast+
    show "\<forall>t\<in>set l. t < next_session w \<and> (\<exists>g. ((handlers w)(s \<mapsto> h')) t = Some g \<and> wh_user g = v)"
      using ws_inv_parts(2) [OF inv v] h h'(1) by fastforce
  next
    fix t show "t \<in> live w - {s} \<longleftrightarrow> (\<exists>g. ((handlers w)(s \<mapsto> h')) t = Some g \<and> open_phase (wh_phase g))"
      using ws_inv_parts(3) [OF inv, of t] h'(2) by auto
  next
    fix t g assume t: "((handlers w)(s \<mapsto> h')) t = Some g"
    show "t < next_session w" using t ws_inv_parts(5) [OF inv] h by (auto split: if_splits)
    show "\<exists>l. sessions w (wh_user g) = Some l \<and> t \<in> set l" if "open_phase (wh_phase g)"
      using t that ws_inv_parts(4) [OF inv, of t g] h'(2) by (auto split: if_splits)
    show "wh_lost g = []" if "wh_phase g = At_Head \<or> wh_phase g = In_Pop"
      using t that ws_inv_parts(6) [OF inv, of t g] closed by (auto split: if_splits)
    show "length (wh_lost g) \<le> 1" "wh_sent g @ wh_lost g @ queues w t = push_log w t"
      using t ws_inv_parts(5) [OF inv, of t] h h'(3,4) by (auto split: if_splits)
  next
    fix t assume "next_session w \<le> t"
    then show "((handlers w)(s \<mapsto> h')) t = None" "push_log w t = []"
      using ws_inv_parts(5) [OF inv h] ws_inv_parts(7) [OF inv, of t] by auto
  qed
qed

lemma unsubscribe_commute:
  "drop_session s (set_handler s h (Unsubscribe u s w)) = Unsubscribe u s (drop_session s (set_handler s h w))"
proof -
  have "filter (\<lambda>wp. \<not> (wp \<notin> live w \<or> wp = s)) l = filter (\<lambda>wp. \<not> (wp \<notin> live w - {s} \<or> wp = s)) l" for l
    by (rule filter_cong) auto
  then show ?thesis
    unfolding Unsubscribe_def drop_session_def set_handler_def
    by (simp add: Let_def split: option.split)
qed

lemma unsubscribe_inv:
  assumes inv: "ws_inv w" and s: "s \<notin> live w"
  shows "ws_inv (Unsubscribe u s w)"
proof (cases "sessions w u")
  case None
  with inv show ?thesis by (simp add: Unsubscribe_def)
next
  case (Some l)
  let ?l = "filter (\<lambda>wp. \<not> (wp \<notin> live w \<or> wp = s)) l"
  let ?w = "Unsubscribe u s w"
  have f: "sessions ?w = (sessions w)(u := if ?l = [] then None else Some ?l)" "live ?w = live w"
    "handlers ?w = handlers w" "next_session ?w = next_session w" "queues ?w = queues w" "push_log ?w = push_log w"
    using Some by (auto simp: Unsubscribe_def Let_def)
  show ?thesis
    unfolding ws_inv_def f
  proof (intro conjI allI impI)
    fix v l' assume v: "((sessions w)(u := if ?l = [] then None else Some ?l)) v = Some l'"
    show "l' \<noteq> []" "distinct l'"
      using v Some ws_inv_parts(1) [OF inv, of v] by (auto split: if_splits)
    show "\<forall>t\<in>set l'. t < next_session w \<and> (\<exists>h. handlers w t = Some h \<and> wh_user h = v)"
      using v Some ws_inv_parts(2) [OF inv, of v] by (auto split: if_splits)
  next
    fix t show "t \<in> live w \<longleftrightarrow> (\<exists>h. handlers w t = Some h \<and> open_phase (wh_phase h))"
      by (rule ws_inv_parts(3) [OF inv])
  next
    fix t h assume t: "handlers w t = Some h"
    show "t < next_session w" "length (wh_lost h) \<le> 1" "wh_sent h @ wh_lost h @ queues w t = push_log w t"
      using ws_inv_parts(5) [OF inv t] by simp_all
    show "wh_lost h = []" if "wh_phase h = At_Head \<or> wh_phase h = In_Pop"
      using ws_inv_parts(6) [OF inv t that] .
    show "\<exists>l. ((sessions w)(u := if ?l = [] then None else Some ?l)) (wh_user h) = Some l \<and> t \<in> set l"
      if o: "open_phase (wh_phase h)"
    proof -
      have live: "t \<in> live w" using t o ws_inv_parts(3) [OF inv] by blast
      with s have "t \<noteq> s" by blast
      obtain k where k: "sessions w (wh_user h) = Some k" "t \<in> set k"
        using ws_inv_parts(4) [OF inv t o] by blast
      show ?thesis
      proof (cases "wh_user h = u")
        case True
        with k Some live \<open>t \<noteq> s\<close> have "t \<in> set ?l" by simp
        with True show ?thesis by (auto simp: filter_empty_conv)
      next
        case False
        with k show ?thesis by simp
      qed
    qed
  next
    fix t assume "next_session w \<le> t"
    then show "handlers w t = None" "push_log w t = []" using ws_inv_parts(7) [OF inv] by blast+
  qed
qed

lemma ws_step_inv: "ws_step L P w w' \<Longrightarrow> ws_inv w \<Longrightarrow> ws_inv w'"
proof (induction rule: ws_step.induct)
  case (connect u w s w')
  then show ?case by (intro connect_inv)
next
  case (pop_send w s h m q)
  then have "ws_inv (set_handler s (h\<lparr>wh_phase := At_Head, wh_sent := wh_sent h @ [m]\<rparr>) (w\<lparr>queues := (queues w)(s := q)\<rparr>))"
    using ws_inv_parts(5,6) [of w s h] by (intro handler_step_inv [of w s h]) (auto simp: open_phase_def)
  with pop_send show ?case by (simp add: pop_queue_def)
next
  case (pop_send_error w s h m q)
  then have "ws_inv (set_handler s (h\<lparr>wh_phase := Leaving, wh_lost := [m]\<rparr>) (w\<lparr>queues := (queues w)(s := q)\<rparr>))"
    using ws_inv_parts(5,6) [of w s h] by (intro handler_step_inv [of w s h]) (auto simp: open_phase_def)
  with pop_send_error show ?case by (simp add: pop_queue_def)
next
  case (finish w s h)
  have "ws_inv (drop_session s (set_handler s (h\<lparr>wh_phase := Finished\<rparr>) w))"
    using finish by (intro end_handler_inv [of w s h]) (simp_all add: open_phase_def)
  then show ?case
    unfolding unsubscribe_commute by (rule unsubscribe_inv) (simp add: drop_session_def)
next
  case (abort w s h)
  then show ?case by (intro end_handler_inv [of w s h]) (simp_all add: open_phase_def)
next
  case (fanout message w r w')
  from preservesD [OF fanout_inv fanout(2), of L P message] fanout(1) show ?case by simp
next
  case (databases w fs m d)
  then show ?case by (simp add: ws_inv_def)
qed (auto intro!: handler_flag_inv simp: open_phase_def)

lemma ws_reach_inv: "ws_reach L P w \<Longrightarrow> ws_inv w"
proof (induction rule: ws_reach.induct)
  case (start w)
  then show ?case by (auto simp: ws_start_def ws_inv_def)
next
  case (step w w')
  then show ?case by (blast intro: ws_step_inv)
qed

section \<open>Delivery\<close>

text \<open>One user's sessions, then all followers: every live session gets the message once.\<close>

lemma push_fold:
  "distinct l \<Longrightarrow>
   let w' = fold (\<lambda>wp w. if wp \<in> live w then PushNoblock wp msg w else w) l w in
     push_log w' s = push_log w s @ (if s \<in> set l \<and> s \<in> live w then [msg] else [])
     \<and> live w' = live w \<and> sessions w' = sessions w"
proof (induction l arbitrary: w)
  case Nil
  then show ?case by simp
next
  case (Cons x l)
  let ?w = "if x \<in> live w then PushNoblock x msg w else w"
  have f: "live ?w = live w" "sessions ?w = sessions w"
    "push_log ?w s = push_log w s @ (if s = x \<and> s \<in> live w then [msg] else [])"
    by (auto simp: PushNoblock_def)
  show ?case
    using Cons.IH [of ?w] Cons.prems by (auto simp: f Let_def)
qed

lemma notify_user_log:
  assumes "\<And>l. sessions w fid = Some l \<Longrightarrow> distinct l"
  shows "push_log (notify_user msg fid w) s
      = push_log w s @ (if s \<in> live w \<and> (\<exists>l. sessions w fid = Some l \<and> s \<in> set l) then [msg] else [])"
    and "live (notify_user msg fid w) = live w" and "sessions (notify_user msg fid w) = sessions w"
  using assms push_fold [of "the (sessions w fid)" msg w s]
  by (auto simp: notify_user_def Let_def split: option.splits)

lemma notify_all_log:
  assumes "distinct fids" and "\<And>u l. sessions w u = Some l \<Longrightarrow> distinct l"
    and "\<And>u v l k. sessions w u = Some l \<Longrightarrow> sessions w v = Some k \<Longrightarrow> s \<in> set l \<Longrightarrow> s \<in> set k \<Longrightarrow> u = v"
  shows "\<exists>w'. for_each fids (\<lambda>fid. modify (notify_user msg fid)) w = (Inr (), w')
      \<and> push_log w' s = push_log w s @
          (if s \<in> live w \<and> (\<exists>fid \<in> set fids. \<exists>l. sessions w fid = Some l \<and> s \<in> set l) then [msg] else [])"
  using assms
proof (induction fids arbitrary: w)
  case Nil
  then show ?case by simp
next
  case (Cons f fids)
  have n: "push_log (notify_user msg f w) s
      = push_log w s @ (if s \<in> live w \<and> (\<exists>l. sessions w f = Some l \<and> s \<in> set l) then [msg] else [])"
    "live (notify_user msg f w) = live w" "sessions (notify_user msg f w) = sessions w"
    using notify_user_log [of w f] Cons.prems(2) by blast+
  have "distinct fids" using Cons.prems(1) by simp
  moreover have "distinct l" if "sessions (notify_user msg f w) u = Some l" for u l
    using that Cons.prems(2) n(3) by simp
  moreover have "u = v" if "sessions (notify_user msg f w) u = Some l" "sessions (notify_user msg f w) v = Some k"
    "s \<in> set l" "s \<in> set k" for u v l k
    using that Cons.prems(3) n(3) by simp
  ultimately have ih: "\<exists>w'. for_each fids (\<lambda>fid. modify (notify_user msg fid)) (notify_user msg f w) = (Inr (), w')
      \<and> push_log w' s = push_log (notify_user msg f w) s @ (if s \<in> live (notify_user msg f w)
          \<and> (\<exists>fid \<in> set fids. \<exists>l. sessions (notify_user msg f w) fid = Some l \<and> s \<in> set l) then [msg] else [])"
    by (rule Cons.IH)
  let ?has = "\<lambda>fid. \<exists>l. sessions w fid = Some l \<and> s \<in> set l"
  obtain w' where w': "for_each fids (\<lambda>fid. modify (notify_user msg fid)) (notify_user msg f w) = (Inr (), w')"
    "push_log w' s = push_log (notify_user msg f w) s @ (if s \<in> live w \<and> (\<exists>fid \<in> set fids. ?has fid) then [msg] else [])"
    using ih [unfolded n(2,3)] by blast
  have one: "\<not> (?has f \<and> (\<exists>fid \<in> set fids. ?has fid))"
    using Cons.prems(1,3) by fastforce
  have "for_each (f # fids) (\<lambda>fid. modify (notify_user msg fid)) w = (Inr (), w')"
    using w'(1) by (simp add: bind_def)
  moreover have "push_log w' s = push_log w s @ (if s \<in> live w \<and> (\<exists>fid \<in> set (f # fids). ?has fid) then [msg] else [])"
    unfolding w'(2) n(1) using one by (cases "?has f") simp_all
  ultimately show ?case by blast
qed

context library
begin

lemma fanout_event_round:
  "sum_bind (json_from_string L (post_event L a i t)) (\<lambda>json.
       sum_bind (sum_bind (field_string json ''author_user_id'') (string_generator L)) (\<lambda>author_id.
       sum_bind (sum_bind (field_string json ''postId'') (string_generator L)) (\<lambda>post_id.
       sum_bind (field_string json ''postText'') (\<lambda>text. Inr (author_id, post_id, text)))))
   = Inr (a, i, t)"
proof -
  let ?fs = "[(''postId'', JString (to_str L i)), (''postText'', JString t),
      (''author_user_id'', JString (to_str L a))]"
  have "flat_object ?fs" by (simp add: flat_object_def)
  from json_round [OF this] obtain gs
    where gs: "json_load L (post_event L a i t) = Some (JObject gs)" "map_of gs = map_of ?fs"
    by (auto simp: post_event_def)
  show ?thesis
    by (simp add: json_from_string_def gs(1) field_string_cong [OF gs(2)])
      (simp add: field_string_def string_generator_to_str)
qed

lemma fanout_run:
  assumes "faults w = []"
  shows "WsFanoutConsumer_Process L P (post_event L a i t) w
    = for_each (sql_followers P a (slave w)) (\<lambda>fid. modify (notify_user (post_event L a i t) fid)) w"
  using assms
  by (simp add: WsFanoutConsumer_Process_def fanout_event_round bind_def NotifyFollowers_def
      WsManager_GetFollowers_def) (simp add: post_event_def)

end

section \<open>Properties\<close>

text \<open>
  Live delivery. In every reachable state, an event that the fan-out consumer processes is
  pushed exactly once to each open connection of a follower of its author, and to no other
  session.
\<close>

lemma fanout_reaches_open_connections:
  assumes "library L" and "planning P" and "ws_reach L P w" and "faults w = []" and "db_ok (slave w)"
    and "handlers w s = Some h"
  shows "\<exists>w'. WsFanoutConsumer_Process L P (post_event L a i t) w = (Inr (), w')
      \<and> push_log w' s = push_log w s @
          (if open_phase (wh_phase h) \<and> follows (slave w) (wh_user h) a then [post_event L a i t] else [])"
proof -
  have inv: "ws_inv w" using assms(3) by (rule ws_reach_inv)
  have user: "u = wh_user h" if "sessions w u = Some l" "s \<in> set l" for u l
    using ws_inv_parts(2) [OF inv that] assms(6) by auto
  have live: "s \<in> live w \<longleftrightarrow> open_phase (wh_phase h)"
    using ws_inv_parts(3) [OF inv, of s] assms(6) by simp
  have reg: "\<exists>l. sessions w (wh_user h) = Some l \<and> s \<in> set l" if "open_phase (wh_phase h)"
    using ws_inv_parts(4) [OF inv assms(6) that] .
  let ?fids = "sql_followers P a (slave w)"
  have "(s \<in> live w \<and> (\<exists>fid \<in> set ?fids. \<exists>l. sessions w fid = Some l \<and> s \<in> set l))
      \<longleftrightarrow> open_phase (wh_phase h) \<and> follows (slave w) (wh_user h) a"
    using live user reg by (auto simp: set_sql_followers [OF assms(2)])
  moreover have "\<exists>w'. for_each ?fids (\<lambda>fid. modify (notify_user (post_event L a i t) fid)) w = (Inr (), w')
      \<and> push_log w' s = push_log w s @
          (if s \<in> live w \<and> (\<exists>fid \<in> set ?fids. \<exists>l. sessions w fid = Some l \<and> s \<in> set l) then [post_event L a i t] else [])"
    using planning.distinct_followers [OF assms(2,5)] ws_inv_parts(1) [OF inv] user
    by (intro notify_all_log) blast+
  ultimately show ?thesis
    unfolding library.fanout_run [OF assms(1,4)] by simp
qed

definition sample_node :: "keyspace node" where
  "sample_node = \<lparr>faults = [], master = sample_db, slave = sample_db, feed_redis = empty_keyspace, published = [],
     sessions = (\<lambda>_. None), live = {}, queues = (\<lambda>_. []), next_session = 0, push_log = (\<lambda>_. []),
     handlers = (\<lambda>_. None)\<rparr>"

definition connected_node :: "keyspace node" where
  "connected_node = set_handler 0 (new_handler (Uuid 1)) (snd (Subscribe (Uuid 1) sample_node))"

lemma connected_reach: "ws_reach ref_lib ref_planner connected_node"
proof -
  have start: "ws_reach ref_lib ref_planner sample_node"
    by (rule ws_reach.start) (simp add: ws_start_def sample_node_def)
  have "Subscribe (Uuid 1) sample_node = (0, snd (Subscribe (Uuid 1) sample_node))"
    by (simp add: Subscribe_def Let_def) (simp add: sample_node_def)
  from ws_reach.step [OF start ws_step.connect [OF this]] show ?thesis
    unfolding connected_node_def .
qed

lemma fanout_reaches_open_connections_example:
  "\<exists>w'. WsFanoutConsumer_Process ref_lib ref_planner (post_event ref_lib (Uuid 2) (Uuid 12) ''x'') connected_node = (Inr (), w')
      \<and> push_log w' 0 = [post_event ref_lib (Uuid 2) (Uuid 12) ''x'']"
proof -
  have s: "faults connected_node = []" "slave connected_node = sample_db" "push_log connected_node 0 = []"
    "handlers connected_node 0 = Some (new_handler (Uuid 1))"
    by (simp_all add: connected_node_def set_handler_def Subscribe_def Let_def sample_node_def)
  from fanout_reaches_open_connections [OF ref_library_axioms ref_planning_axioms connected_reach s(1) _ s(4),
      of "Uuid 2" "Uuid 12" "''x''"]
  show ?thesis
    by (simp add: s sample_db_ok) (simp add: new_handler_def open_phase_def sample_follows)
qed

text \<open>
  C29. Order and loss. In every reachable state, what was pushed to a session is what was sent to
  its client, then at most one message that a failing send lost, then what is still queued: a
  client sees the events in order, none twice, and none missing before the connection ends.
\<close>

theorem client_sees_events_in_order:
  assumes "ws_reach L P w" and "handlers w s = Some h"
  shows "push_log w s = wh_sent h @ wh_lost h @ queues w s \<and> length (wh_lost h) \<le> 1
       \<and> (wh_phase h = At_Head \<or> wh_phase h = In_Pop \<longrightarrow> wh_lost h = [])"
  using ws_inv_parts(5,6) [OF ws_reach_inv [OF assms(1)] assms(2)] by auto

theorem client_sees_events_in_order_witness:
  "wh_sent (new_handler (Uuid 1)) @ queues connected_node 0 = push_log connected_node 0"
proof -
  have "handlers connected_node 0 = Some (new_handler (Uuid 1))"
    by (simp add: connected_node_def set_handler_def)
  from client_sees_events_in_order [OF connected_reach this] show ?thesis
    by (simp add: new_handler_def)
qed

text \<open>
  The registry. In every reachable state the registry has no empty list and no session twice;
  an open handler's session is alive and registered under its user; a handler that finished has
  no live session.
\<close>

lemma registry_is_consistent:
  assumes "ws_reach L P w"
  shows "(\<forall>u l. sessions w u = Some l \<longrightarrow> l \<noteq> [] \<and> distinct l)
       \<and> (\<forall>s h. handlers w s = Some h \<longrightarrow>
            (if open_phase (wh_phase h)
             then s \<in> live w \<and> (\<exists>l. sessions w (wh_user h) = Some l \<and> s \<in> set l)
             else s \<notin> live w))"
proof -
  have inv: "ws_inv w" using assms by (rule ws_reach_inv)
  show ?thesis
    using ws_inv_parts(1) [OF inv] ws_inv_parts(3) [OF inv] ws_inv_parts(4) [OF inv] by auto
qed

lemma registry_is_consistent_example: "0 \<in> live connected_node"
proof -
  have "handlers connected_node 0 = Some (new_handler (Uuid 1))"
    by (simp add: connected_node_def set_handler_def)
  with registry_is_consistent [OF connected_reach] show ?thesis
    by (fastforce simp: new_handler_def open_phase_def split: if_splits)
qed

end
