(* ===== verification/Notification_Liveness.thy ===== *)
theory Notification_Liveness
  imports Web_Socket
begin

text \<open>
  Liveness of the WebSocket handler: once its client is gone, or its task is cancelled, a handler
  takes at most six more steps of its own; each of them brings it closer to its end, one is always
  possible, and in every fair run it ends, its session is freed and, if it ended by leaving its
  loop, taken out of the registry.
\<close>

section \<open>The way to the end\<close>

fun phase_rank :: "ws_phase \<Rightarrow> nat" where
  "phase_rank In_Pop = 3"
| "phase_rank At_Head = 2"
| "phase_rank Leaving = 1"
| "phase_rank Finished = 0"
| "phase_rank Aborted = 0"

definition closing :: "ws_handler \<Rightarrow> bool" where
  "closing h \<longleftrightarrow> wh_disconnected h \<or> wh_cancelled h"

text \<open>What is left to do: the phases before the end, the receiving task, a cancellation.\<close>

definition steps_left :: "ws_handler \<Rightarrow> nat" where
  "steps_left h = phase_rank (wh_phase h) + (if wh_recv_done h then 0 else 1) + (if wh_cancelled h then 0 else 1)
     + (if wh_disconnected h then 0 else 1)"

lemma open_rank: "open_phase p \<longleftrightarrow> 0 < phase_rank p"
  by (cases p) (simp_all add: open_phase_def)

lemma notify_user_frame:
  "handlers (notify_user msg fid w) = handlers w" "sessions (notify_user msg fid w) = sessions w"
proof -
  have "handlers (fold (\<lambda>wp w. if wp \<in> live w then PushNoblock wp msg w else w) l w) = handlers w
      \<and> sessions (fold (\<lambda>wp w. if wp \<in> live w then PushNoblock wp msg w else w) l w) = sessions w" for l
    by (induction l arbitrary: w) (auto simp: PushNoblock_def)
  then show "handlers (notify_user msg fid w) = handlers w" "sessions (notify_user msg fid w) = sessions w"
    by (simp_all add: notify_user_def split: option.split)
qed

lemma fanout_frame:
  "preserves (\<lambda>w. handlers w = hs \<and> sessions w = ss) (WsFanoutConsumer_Process L P message)"
proof -
  let ?I = "\<lambda>w. handlers w = hs \<and> sessions w = ss"
  have "preserves ?I (WsManager_GetFollowers P a)" for a
    unfolding WsManager_GetFollowers_def from_slave_def by (rule preserves_ext, rule preserves_query) simp
  then have "preserves ?I (NotifyFollowers L P a i t)" for a i t
    unfolding NotifyFollowers_def Let_def
    by (intro preserves_bind preserves_for_each preserves_modify) (simp_all add: notify_user_frame)
  then show ?thesis
    unfolding WsFanoutConsumer_Process_def
    by (intro preserves_bind preserves_lift_sum) (auto split: prod.split)
qed

lemma fanout_keeps:
  assumes "WsFanoutConsumer_Process L P message w = (r, w')"
  shows "handlers w' = handlers w" and "sessions w' = sessions w"
  using preservesD [OF fanout_frame [of "handlers w" "sessions w" L P message], of w] assms by simp_all

lemma unsubscribe_handlers [simp]: "handlers (Unsubscribe u s w) = handlers w"
  by (simp add: Unsubscribe_def Let_def split: option.split)

lemma ws_frame [simp]:
  "handlers (drop_session s w) = handlers w" "handlers (pop_queue s w) = handlers w"
  "sessions (drop_session s w) = sessions w" "sessions (pop_queue s w) = sessions w"
  "handlers (set_handler s h w) = (handlers w)(s \<mapsto> h)" "sessions (set_handler s h w) = sessions w"
  by (simp_all add: drop_session_def pop_queue_def set_handler_def)

lemma subscribe_new:
  assumes "Subscribe u w = (s, w')" and "ws_inv w"
  shows "handlers w' = handlers w" and "handlers w s = None"
proof -
  have s: "s = next_session w" using assms(1) by (auto simp: Subscribe_def Let_def)
  show "handlers w' = handlers w" using assms(1) by (auto simp: Subscribe_def Let_def)
  show "handlers w s = None" using ws_inv_parts(7) [OF assms(2), of s] by (simp add: s)
qed

lemma closing_moved:
  assumes "handlers w t = Some g" and "\<And>t'. t' \<noteq> t \<Longrightarrow> handlers w' t' = handlers w t'"
    and "closing g \<Longrightarrow> \<exists>g'. handlers w' t = Some g' \<and> closing g' \<and> wh_user g' = wh_user g
      \<and> (g' = g \<or> steps_left g' < steps_left g)"
    and "handlers w s = Some h" and "closing h"
  shows "\<exists>h'. handlers w' s = Some h' \<and> closing h' \<and> wh_user h' = wh_user h \<and> (h' = h \<or> steps_left h' < steps_left h)"
  using assms by (cases "s = t") auto

text \<open>
  A step of the node leaves a closing handler as it is or brings it closer to its end, and it
  stays closing.
\<close>

lemma closing_step:
  assumes "ws_step L P w w'" and "ws_inv w" and "handlers w s = Some h" and "closing h"
  shows "\<exists>h'. handlers w' s = Some h' \<and> closing h' \<and> wh_user h' = wh_user h \<and> (h' = h \<or> steps_left h' < steps_left h)"
  using assms
proof (induction rule: ws_step.induct)
  case (connect u w s' w')
  from subscribe_new [OF connect.hyps connect.prems(1)] connect.prems show ?case by auto
next
  case (cancel w t g)
  show ?case
  proof (rule closing_moved [OF cancel.hyps _ _ cancel.prems(2,3)])
    show "\<exists>g'. handlers (set_handler t (g\<lparr>wh_cancelled := True\<rparr>) w) t = Some g' \<and> closing g' \<and> wh_user g' = wh_user g
      \<and> (g' = g \<or> steps_left g' < steps_left g)"
      by (cases "wh_cancelled g") (simp_all add: closing_def steps_left_def)
  qed simp
next
  case (databases w fs m d)
  then show ?case by simp
next
  case (fanout message w r w')
  from fanout_keeps [OF fanout.hyps] fanout.prems show ?case by simp
next
  case (abort w t g)
  show ?case
  proof (rule closing_moved [OF abort.hyps(1) _ _ abort.prems(2,3)])
    show "\<exists>g'. handlers (drop_session t (set_handler t (g\<lparr>wh_phase := Aborted\<rparr>) w)) t = Some g' \<and> closing g'
      \<and> wh_user g' = wh_user g \<and> (g' = g \<or> steps_left g' < steps_left g)" if "closing g"
      using abort.hyps(2) that by (auto simp: closing_def steps_left_def)
  qed simp
qed (rule closing_moved, assumption, simp, simp add: closing_def steps_left_def, assumption, assumption)+

lemma closing_progress:
  assumes "handlers w s = Some h" and "closing h" and "open_phase (wh_phase h)"
  shows "\<exists>w' h'. ws_step L P w w' \<and> handlers w' s = Some h' \<and> steps_left h' < steps_left h"
proof (cases "wh_recv_done h")
  case False
  from ws_step.recv_end [OF assms(1) this] False show ?thesis
    by (intro exI conjI) (assumption, auto simp: steps_left_def)
next
  case True
  consider (head) "wh_phase h = At_Head" | (pop) "wh_phase h = In_Pop" | (leaving) "wh_phase h = Leaving"
    using assms(3) by (cases "wh_phase h") (auto simp: open_phase_def)
  then show ?thesis
  proof cases
    case head
    from ws_step.leave [OF assms(1) head] assms(2) head show ?thesis
      by (intro exI conjI) (assumption | force simp: steps_left_def closing_def)+
  next
    case pop
    from ws_step.pop_timeout [OF assms(1) pop] pop show ?thesis
      by (intro exI conjI) (assumption, auto simp: steps_left_def)
  next
    case leaving
    from ws_step.finish [OF assms(1) leaving True] leaving show ?thesis
      by (intro exI conjI) (assumption, auto simp: steps_left_def)
  qed
qed

section \<open>Runs\<close>

definition ws_run :: "lib \<Rightarrow> planner \<Rightarrow> (nat \<Rightarrow> 'r node) \<Rightarrow> bool" where
  "ws_run L P run \<longleftrightarrow> ws_start (run 0) \<and> (\<forall>i. ws_step L P (run i) (run (Suc i)))"

text \<open>
  Fairness for one handler: while it is open, its tasks are scheduled again and again, that is,
  some later step changes it.
\<close>

definition fair_to :: "nat \<Rightarrow> (nat \<Rightarrow> 'r node) \<Rightarrow> bool" where
  "fair_to s run \<longleftrightarrow> (\<forall>i h. handlers (run i) s = Some h \<longrightarrow> open_phase (wh_phase h) \<longrightarrow>
     (\<exists>j \<ge> i. handlers (run (Suc j)) s \<noteq> handlers (run j) s))"

lemma run_reach: "ws_run L P run \<Longrightarrow> ws_reach L P (run i)"
  by (induction i) (auto simp: ws_run_def intro: ws_reach.intros)

lemma closing_run:
  assumes "ws_run L P run" and "handlers (run i) s = Some h" and "closing h"
  shows "\<exists>h'. handlers (run (i + n)) s = Some h' \<and> closing h' \<and> wh_user h' = wh_user h \<and> (h' = h \<or> steps_left h' < steps_left h)"
proof (induction n)
  case 0
  then show ?case using assms by simp
next
  case (Suc n)
  then obtain h' where h': "handlers (run (i + n)) s = Some h'" "closing h'" "wh_user h' = wh_user h"
    "h' = h \<or> steps_left h' < steps_left h" by blast
  have "ws_step L P (run (i + n)) (run (Suc (i + n)))" using assms(1) by (simp add: ws_run_def)
  from closing_step [OF this ws_reach_inv [OF run_reach [OF assms(1)]] h'(1,2)] h'(3,4)
  show ?case by (auto dest: less_trans)
qed

lemma closing_ends:
  assumes "ws_run L P run" and "fair_to s run" and "handlers (run i) s = Some h" and "closing h"
  shows "\<exists>j \<ge> i. \<exists>h'. handlers (run j) s = Some h' \<and> wh_user h' = wh_user h \<and> \<not> open_phase (wh_phase h')"
  using assms(3,4)
proof (induction "steps_left h" arbitrary: i h rule: less_induct)
  case less
  show ?case
  proof (cases "open_phase (wh_phase h)")
    case False
    with less.prems show ?thesis by blast
  next
    case True
    with assms(2) less.prems(1) obtain j where j: "i \<le> j" "handlers (run (Suc j)) s \<noteq> handlers (run j) s"
      unfolding fair_to_def by blast
    obtain h1 where h1: "handlers (run j) s = Some h1" "closing h1" "wh_user h1 = wh_user h" "h1 = h \<or> steps_left h1 < steps_left h"
      using closing_run [OF assms(1) less.prems, of "j - i"] j(1) by auto
    have "ws_step L P (run j) (run (Suc j))" using assms(1) by (simp add: ws_run_def)
    from closing_step [OF this ws_reach_inv [OF run_reach [OF assms(1)]] h1(1,2)] j(2) h1
    obtain h2 where h2: "handlers (run (Suc j)) s = Some h2" "closing h2" "wh_user h2 = wh_user h1"
      "steps_left h2 < steps_left h1" by auto
    with h1(4) have "steps_left h2 < steps_left h" by auto
    from less.hyps [OF this h2(1,2)] j(1) h1(3) h2(3) show ?thesis by (metis Suc_leD le_trans)
  qed
qed

text \<open>A handler that finished has taken its session out of the registry.\<close>

definition ws_gone :: "('r, 'z) node_scheme \<Rightarrow> bool" where
  "ws_gone w \<longleftrightarrow> (\<forall>s h u l. handlers w s = Some h \<longrightarrow> wh_phase h = Finished \<longrightarrow> sessions w u = Some l \<longrightarrow> s \<notin> set l)"

lemma unsubscribe_sessions:
  "sessions (Unsubscribe u s w) v = Some l \<Longrightarrow>
   (\<exists>l0. sessions w v = Some l0 \<and> set l \<subseteq> set l0) \<and> (v = u \<longrightarrow> s \<notin> set l)"
  by (auto simp: Unsubscribe_def Let_def split: option.splits if_splits)

lemma ws_gone_step:
  assumes "ws_step L P w w'" and "ws_inv w" and "ws_gone w"
  shows "ws_gone w'"
  using assms
proof (induction rule: ws_step.induct)
  case (connect u w s w')
  have s: "s = next_session w" and ss: "sessions w' = (sessions w)(u \<mapsto> (case sessions w u of None \<Rightarrow> [] | Some l \<Rightarrow> l) @ [s])"
    using connect.hyps by (auto simp: Subscribe_def Let_def)
  note new = subscribe_new [OF connect.hyps connect.prems(1)]
  show ?case
    unfolding ws_gone_def
  proof (intro allI impI)
    fix s' h v l
    assume h: "handlers (set_handler s (new_handler u) w') s' = Some h" "wh_phase h = Finished"
      and l: "sessions (set_handler s (new_handler u) w') v = Some l"
    from h have "s' \<noteq> s" by (auto simp: new_handler_def split: if_splits)
    with h(1) new(1) have h': "handlers w s' = Some h" by simp
    with connect.prems(2) h(2) have "sessions w v = Some l0 \<Longrightarrow> s' \<notin> set l0" for v l0
      by (auto simp: ws_gone_def)
    with l \<open>s' \<noteq> s\<close> show "s' \<notin> set l" by (auto simp: ss split: if_splits option.splits)
  qed
next
  case (finish w s h)
  let ?u = "Unsubscribe (wh_user h) s w"
  have "s \<notin> set l" if "sessions ?u v = Some l" for v l
  proof (cases "v = wh_user h")
    case True
    with unsubscribe_sessions [OF that] show ?thesis by blast
  next
    case False
    from unsubscribe_sessions [OF that] obtain l0 where "sessions w v = Some l0" "set l \<subseteq> set l0" by blast
    with ws_inv_parts(2) [OF finish.prems(1)] finish.hyps(1) False show ?thesis by fastforce
  qed
  moreover have "s' \<notin> set l" if "sessions ?u v = Some l" "handlers w s' = Some h'" "wh_phase h' = Finished" for s' h' v l
    using unsubscribe_sessions [OF that(1)] finish.prems(2) that(2,3) unfolding ws_gone_def by blast
  ultimately show ?case by (auto simp: ws_gone_def split: if_splits)
next
  case (fanout message w r w')
  from fanout_keeps [OF fanout.hyps] fanout.prems(2) show ?case by (simp add: ws_gone_def)
qed (fastforce simp: ws_gone_def split: if_splits)+

lemma reach_gone: "ws_reach L P w \<Longrightarrow> ws_gone w"
proof (induction rule: ws_reach.induct)
  case (start w)
  then show ?case by (simp add: ws_start_def ws_gone_def)
next
  case (step w w')
  then show ?case by (blast intro: ws_gone_step ws_reach_inv)
qed

section \<open>A concrete run\<close>

text \<open>User 1 connects, the client goes away, the handler leaves its loop and finishes.\<close>

definition gone_handler :: ws_handler where
  "gone_handler = (new_handler (Uuid 1))\<lparr>wh_disconnected := True, wh_recv_done := True\<rparr>"

fun demo_run :: "nat \<Rightarrow> keyspace node" where
  "demo_run 0 = sample_node"
| "demo_run (Suc 0) = connected_node"
| "demo_run (Suc (Suc 0)) = set_handler 0 gone_handler connected_node"
| "demo_run (Suc (Suc (Suc 0))) = set_handler 0 (gone_handler\<lparr>wh_phase := Leaving\<rparr>) (set_handler 0 gone_handler connected_node)"
| "demo_run (Suc (Suc (Suc (Suc n)))) = drop_session 0 (set_handler 0 (gone_handler\<lparr>wh_phase := Finished\<rparr>)
     (Unsubscribe (Uuid 1) 0 (set_handler 0 (gone_handler\<lparr>wh_phase := Leaving\<rparr>) (set_handler 0 gone_handler connected_node))))"

lemma connected_handler: "handlers connected_node 0 = Some (new_handler (Uuid 1))"
  by (simp add: connected_node_def)

lemma demo_step: "ws_step ref_lib ref_planner (demo_run i) (demo_run (Suc i))"
proof (cases i rule: demo_run.cases)
  case 1
  have "Subscribe (Uuid 1) sample_node = (0, snd (Subscribe (Uuid 1) sample_node))"
    by (simp add: Subscribe_def Let_def) (simp add: sample_node_def)
  from ws_step.connect [OF this] show ?thesis by (simp add: 1 connected_node_def)
next
  case 2
  from ws_step.client_gone [OF connected_handler] show ?thesis by (simp add: 2 gone_handler_def new_handler_def)
next
  case 3
  show ?thesis
    using ws_step.leave [of "demo_run (Suc (Suc 0))" 0 gone_handler] by (simp add: 3 gone_handler_def new_handler_def)
next
  case 4
  show ?thesis
    using ws_step.finish [of "demo_run (Suc (Suc (Suc 0)))" 0 "gone_handler\<lparr>wh_phase := Leaving\<rparr>"]
    by (simp add: 4 gone_handler_def new_handler_def)
next
  case (5 n)
  from ws_step.databases [where L = ref_lib and P = ref_planner and w = "demo_run i" and fs = "faults (demo_run i)"
      and m = "master (demo_run i)" and d = "slave (demo_run i)"]
  show ?thesis by (simp add: 5)
qed

lemma demo_ws_run: "ws_run ref_lib ref_planner demo_run"
  by (simp add: ws_run_def demo_step) (simp add: ws_start_def sample_node_def)

lemma demo_fair: "fair_to 0 demo_run"
  unfolding fair_to_def
proof (intro allI impI)
  fix i h assume h: "handlers (demo_run i) 0 = Some h" "open_phase (wh_phase h)"
  then have "i \<le> Suc (Suc (Suc 0))"
    by (cases i rule: demo_run.cases) (auto simp: open_phase_def)
  then show "\<exists>j \<ge> i. handlers (demo_run (Suc j)) 0 \<noteq> handlers (demo_run j) 0"
    by (intro exI [of _ "Suc (Suc (Suc 0))"]) (simp add: gone_handler_def new_handler_def)
qed

section \<open>Properties\<close>

text \<open>
  C20. A closed connection ends. In every run in which a connection's handler is scheduled again
  and again while it is open, once the client is gone or the task is cancelled the handler ends:
  its session is no longer alive, and unless an exception aborted it, the registry does not hold
  it any more. Until then a step that changes the handler is always possible.
\<close>

theorem closed_connection_ends:
  assumes "ws_run L P run" and "fair_to s run" and "handlers (run i) s = Some h"
    and "wh_disconnected h \<or> wh_cancelled h"
  shows "(\<exists>j \<ge> i. \<exists>h'. handlers (run j) s = Some h' \<and> (wh_phase h' = Finished \<or> wh_phase h' = Aborted)
      \<and> s \<notin> live (run j) \<and> (wh_phase h' = Finished \<longrightarrow> (\<forall>u l. sessions (run j) u = Some l \<longrightarrow> s \<notin> set l)))
    \<and> (\<forall>j \<ge> i. \<forall>g. handlers (run j) s = Some g \<and> open_phase (wh_phase g)
        \<longrightarrow> (\<exists>w'. ws_step L P (run j) w' \<and> handlers w' s \<noteq> Some g))"
proof
  have closing: "closing h" using assms(4) by (simp add: closing_def)
  obtain j h' where j: "i \<le> j" "handlers (run j) s = Some h'" "\<not> open_phase (wh_phase h')"
    using closing_ends [OF assms(1-3) closing] by blast
  have "s \<notin> live (run j)"
    using ws_inv_parts(3) [OF ws_reach_inv [OF run_reach [OF assms(1)]], of s j] j(2,3) by simp
  moreover have "wh_phase h' = Finished \<or> wh_phase h' = Aborted" using j(3) by (simp add: open_phase_def)
  moreover have "ws_gone (run j)" by (rule reach_gone [OF run_reach [OF assms(1)]])
  ultimately show "\<exists>j \<ge> i. \<exists>h'. handlers (run j) s = Some h' \<and> (wh_phase h' = Finished \<or> wh_phase h' = Aborted)
      \<and> s \<notin> live (run j) \<and> (wh_phase h' = Finished \<longrightarrow> (\<forall>u l. sessions (run j) u = Some l \<longrightarrow> s \<notin> set l))"
    using j(1,2) unfolding ws_gone_def by blast
  show "\<forall>j \<ge> i. \<forall>g. handlers (run j) s = Some g \<and> open_phase (wh_phase g)
        \<longrightarrow> (\<exists>w'. ws_step L P (run j) w' \<and> handlers w' s \<noteq> Some g)"
  proof (intro allI impI)
    fix j g assume "i \<le> j" and g: "handlers (run j) s = Some g \<and> open_phase (wh_phase g)"
    then have "closing g" using closing_run [OF assms(1,3) closing, of "j - i"] by auto
    with closing_progress [of "run j" s g L P] g show "\<exists>w'. ws_step L P (run j) w' \<and> handlers w' s \<noteq> Some g" by fastforce
  qed
qed

theorem closed_connection_ends_witness:
  "\<exists>j \<ge> 2. 0 \<notin> live (demo_run j) \<and> (\<exists>h'. handlers (demo_run j) 0 = Some h')"
proof -
  have "handlers (demo_run (Suc (Suc 0))) 0 = Some gone_handler" by simp
  from closed_connection_ends [OF demo_ws_run demo_fair this] show ?thesis
    by (auto simp: gone_handler_def numeral_2_eq_2)
qed

end
