(* ===== verification/Lua.thy ===== *)
theory Lua
  imports Reference_Services
begin

text \<open>
  What the Redis functions of \<open>scripts/redis/*.lua\<close> use of Lua: conversion of texts to numbers
  and back, and the order of strings. Lua numbers are doubles; the laws speak of integers below
  \<open>2 ^ 53\<close>, which doubles represent exactly, and of an order that compares any two different
  strings one way.
\<close>

record lua =
  tonumber :: "string \<Rightarrow> int option"
  tostring :: "int \<Rightarrow> string"
  str_less :: "string \<Rightarrow> string \<Rightarrow> bool"

definition exact_number :: "int \<Rightarrow> bool" where
  "exact_number i \<longleftrightarrow> - (2 ^ 53) < i \<and> i < 2 ^ 53"

lemma exact_in_int64: "exact_number i \<Longrightarrow> in_int64 i"
  by (simp add: exact_number_def in_int64_def)

locale lua_runtime =
  fixes U :: lua
  assumes tonumber_int: "exact_number i \<Longrightarrow> tonumber U (show_int i) = Some i"
    and tostring_int: "exact_number i \<Longrightarrow> tostring U i = show_int i"
    and str_less_total: "s \<noteq> t \<Longrightarrow> str_less U s t \<longleftrightarrow> \<not> str_less U t s"
begin

lemma tostring_0: "tostring U 0 = show_int 0"
  by (rule tostring_int) (simp add: exact_number_def)

end

definition ref_less :: "string \<Rightarrow> string \<Rightarrow> bool" where
  "ref_less s t \<longleftrightarrow> (map (of_char :: char \<Rightarrow> nat) s, map (of_char :: char \<Rightarrow> nat) t) \<in> lexord {(a, b). a < b}"

definition ref_lua :: lua where
  "ref_lua = \<lparr>tonumber = strtol10, tostring = show_int, str_less = ref_less\<rparr>"

lemma ref_less_total: "s \<noteq> t \<Longrightarrow> ref_less s t \<longleftrightarrow> \<not> ref_less t s"
proof -
  assume "s \<noteq> t"
  moreover have "inj (of_char :: char \<Rightarrow> nat)" by (rule injI) simp
  ultimately have "map (of_char :: char \<Rightarrow> nat) s \<noteq> map of_char t"
    using inj_map_eq_map by blast
  moreover have "\<forall>a b :: nat. (a, b) \<in> {(a, b). a < b} \<or> a = b \<or> (b, a) \<in> {(a, b). a < b}" by auto
  ultimately have "ref_less s t \<or> ref_less t s"
    unfolding ref_less_def using lexord_linear by blast
  moreover have "\<not> (ref_less s t \<and> ref_less t s)"
    using asymD [OF lexord_asym [of "{(a :: nat, b). a < b}"]] by (auto simp: ref_less_def asym_on_def)
  ultimately show ?thesis by blast
qed

interpretation ref_lua: lua_runtime ref_lua
proof
  fix s t :: string
  assume "s \<noteq> t"
  then show "str_less ref_lua s t \<longleftrightarrow> \<not> str_less ref_lua t s"
    unfolding ref_lua_def lua.simps by (rule ref_less_total)
qed (simp_all add: ref_lua_def)

lemmas ref_lua_axioms = ref_lua.lua_runtime_axioms

end
