(* ===== verification/Chat_Service.thy ===== *)
theory Chat_Service
  imports World Lua Delivery
begin

text \<open>
  The chat service: the Redis functions of \<open>scripts/redis/dialog_functions.lua\<close> and the gRPC
  service \<open>chat-service/src/dialog/dialog_service.cpp\<close>. A dialog is a Redis list of message
  identifiers under a key that both participants share, a message a hash of its own.
\<close>

section \<open>State\<close>

text \<open>The stores of the messaging part of the system and what was published to the broker.\<close>

record 'r dialog_world = svc +
  dialog_redis :: 'r
  counter_redis :: 'r
  broker :: "publication list"

type_synonym metadata = "(string \<times> string) list"

record chat_message =
  cm_from :: string
  cm_to :: string
  cm_text :: string

section \<open>The Redis functions\<close>

definition idx_key :: "lua \<Rightarrow> string \<Rightarrow> string \<Rightarrow> string" where
  "idx_key U id1 id2 =
     (if str_less U id1 id2 then ''dialog:idx:'' @ id1 @ '':'' @ id2
      else ''dialog:idx:'' @ id2 @ '':'' @ id1)"

definition msg_key :: "string \<Rightarrow> string" where
  "msg_key msg_id = ''dialog:msg:'' @ msg_id"

definition dialog_send :: "'r redis \<Rightarrow> lua \<Rightarrow> string \<Rightarrow> string \<Rightarrow> string \<Rightarrow> string \<Rightarrow> ('r, unit) eff" where
  "dialog_send R U from_id to_id text msg_id =
     (let key = idx_key U from_id to_id in
      bind (modify (\<lambda>r. r_hset R r (msg_key msg_id) [(''from'', from_id), (''to'', to_id), (''text'', text)])) (\<lambda>_.
      modify (\<lambda>r. r_rpush R r key [msg_id])))"

text \<open>A missing hash field is \<open>false\<close> in Lua.\<close>

definition lua_value :: "string option \<Rightarrow> json" where
  "lua_value v = (case v of None \<Rightarrow> JBool False | Some s \<Rightarrow> JString s)"

definition dialog_entry :: "lib \<Rightarrow> 'r redis \<Rightarrow> 'r \<Rightarrow> string \<Rightarrow> string" where
  "dialog_entry L R r msg_id =
     (let d = r_hget R r (msg_key msg_id)
      in cjson_encode L (JObject [(''from'', lua_value (d ''from'')), (''to'', lua_value (d ''to'')),
           (''text'', lua_value (d ''text''))]))"

definition dialog_list :: "lib \<Rightarrow> 'r redis \<Rightarrow> lua \<Rightarrow> string \<Rightarrow> string \<Rightarrow> ('r, string list) eff" where
  "dialog_list L R U user1 user2 =
     (let key = idx_key U user1 user2
      in query (\<lambda>r. map (dialog_entry L R r) (r_lrange R r key 0 (- 1))))"

section \<open>The service\<close>

definition ExtractUserId :: "metadata \<Rightarrow> exn + string" where
  "ExtractUserId meta =
     (case map_of meta ''x-user-id'' of
        None \<Rightarrow> Inl (RpcError ''UNAUTHENTICATED'')
      | Some u \<Rightarrow> Inr u)"

text \<open>An \<open>FCALL\<close> on the dialog Redis, and a publication to the broker.\<close>

definition dialog_fcall :: "('r, 'a) eff \<Rightarrow> (('r, 'z) dialog_world_scheme, 'a) eff" where
  "dialog_fcall f = ext (ServiceError ''redis'')
     (\<lambda>w. case f (dialog_redis w) of (x, r) \<Rightarrow> (x, w\<lparr>dialog_redis := r\<rparr>))"

definition broker_publish :: "string \<Rightarrow> string \<Rightarrow> string \<Rightarrow> (('r, 'z) dialog_world_scheme, unit) eff" where
  "broker_publish exchange key body = ext (ServiceError ''rabbitmq'')
     (modify (\<lambda>w. w\<lparr>broker := broker w @ [Publication exchange key body]\<rparr>))"

definition message_sent_event :: "lib \<Rightarrow> string \<Rightarrow> string \<Rightarrow> string" where
  "message_sent_event L from_user_id to_user_id =
     json_dump L (JObject [(''from_user_id'', JString from_user_id), (''to_user_id'', JString to_user_id)])"

definition SendMessage ::
  "lib \<Rightarrow> 'r redis \<Rightarrow> lua \<Rightarrow> uuid \<Rightarrow> metadata \<Rightarrow> string \<Rightarrow> string \<Rightarrow> (('r, 'z) dialog_world_scheme, unit) eff"
where
  "SendMessage L R U new_id meta to_user_id text =
     bind (lift_sum (ExtractUserId meta)) (\<lambda>from_user_id.
     let msg_id = to_str L new_id in
     bind (dialog_fcall (dialog_send R U from_user_id to_user_id text msg_id)) (\<lambda>_.
     broker_publish ''messages-exchange'' (''message.sent.'' @ to_user_id)
       (message_sent_event L from_user_id to_user_id)))"

definition parse_message :: "lib \<Rightarrow> string \<Rightarrow> exn + chat_message" where
  "parse_message L item =
     sum_bind (json_from_string L item) (\<lambda>json.
     sum_bind (field_string json ''from'') (\<lambda>from_user.
     sum_bind (field_string json ''to'') (\<lambda>to_user.
     sum_bind (field_string json ''text'') (\<lambda>text.
     Inr \<lparr>cm_from = from_user, cm_to = to_user, cm_text = text\<rparr>))))"

definition ListMessages ::
  "lib \<Rightarrow> 'r redis \<Rightarrow> lua \<Rightarrow> metadata \<Rightarrow> string \<Rightarrow> (('r, 'z) dialog_world_scheme, chat_message list) eff"
where
  "ListMessages L R U meta other_user_id =
     bind (lift_sum (ExtractUserId meta)) (\<lambda>user_id.
     bind (dialog_fcall (dialog_list L R U user_id other_user_id)) (\<lambda>reply.
     lift_sum (sum_list_map (parse_message L) reply)))"

section \<open>What a dialog holds\<close>

text \<open>Identifiers without a colon, as UUID texts are.\<close>

definition id_ok :: "string \<Rightarrow> bool" where
  "id_ok s \<longleftrightarrow> CHR '':'' \<notin> set s"

definition msg_stored :: "'r redis \<Rightarrow> 'r \<Rightarrow> string \<Rightarrow> chat_message \<Rightarrow> bool" where
  "msg_stored R r i m \<longleftrightarrow>
     r_type R r (msg_key i) \<noteq> TList \<and> r_hget R r (msg_key i) ''from'' = Some (cm_from m) \<and>
     r_hget R r (msg_key i) ''to'' = Some (cm_to m) \<and> r_hget R r (msg_key i) ''text'' = Some (cm_text m)"

text \<open>The dialog of \<open>a\<close> and \<open>b\<close> is the message list \<open>ms\<close>, oldest first.\<close>

definition dialog_holds :: "'r redis \<Rightarrow> lua \<Rightarrow> 'r \<Rightarrow> string \<Rightarrow> string \<Rightarrow> chat_message list \<Rightarrow> bool" where
  "dialog_holds R U r a b ms \<longleftrightarrow>
     r_type R r (idx_key U a b) \<noteq> THash \<and> list_all2 (msg_stored R r) (r_list R r (idx_key U a b)) ms"

text \<open>An identifier that no message has.\<close>

definition fresh_id :: "'r redis \<Rightarrow> 'r \<Rightarrow> string \<Rightarrow> bool" where
  "fresh_id R r i \<longleftrightarrow> r_type R r (msg_key i) = TNone"

lemma append_colon_inject:
  assumes "CHR '':'' \<notin> set a" and "CHR '':'' \<notin> set c"
  shows "a @ CHR '':'' # b = c @ CHR '':'' # d \<longleftrightarrow> a = c \<and> b = d"
  using assms by (induction a arbitrary: c) (case_tac c; auto)+

context lua_runtime
begin

lemma idx_key_sym: "idx_key U a b = idx_key U b a"
  using str_less_total [of a b] by (cases "a = b") (auto simp: idx_key_def)

lemma idx_key_inject:
  assumes "id_ok a" "id_ok b" "id_ok c" "id_ok d"
  shows "idx_key U a b = idx_key U c d \<longleftrightarrow> {a, b} = {c, d}"
proof -
  have cases: "idx_key U a b = ''dialog:idx:'' @ a @ '':'' @ b \<or> idx_key U a b = ''dialog:idx:'' @ b @ '':'' @ a"
    "idx_key U c d = ''dialog:idx:'' @ c @ '':'' @ d \<or> idx_key U c d = ''dialog:idx:'' @ d @ '':'' @ c"
    by (simp_all add: idx_key_def)
  have "idx_key U a b = idx_key U c d \<Longrightarrow> {a, b} = {c, d}"
    using cases assms by (auto simp: append_colon_inject id_ok_def)
  moreover have "{a, b} = {c, d} \<Longrightarrow> idx_key U a b = idx_key U c d"
    using idx_key_sym [of a b] by (auto simp: doubleton_eq_iff)
  ultimately show ?thesis by blast
qed

end

lemma idx_not_msg: "idx_key U a b \<noteq> msg_key i"
  by (simp add: idx_key_def msg_key_def)

lemma msg_key_inject: "msg_key i = msg_key j \<longleftrightarrow> i = j"
  by (simp add: msg_key_def)

section \<open>Sending and listing\<close>

locale chat_env = library L + redis_server R + lua_runtime U
  for L :: lib and R :: "'r redis" and U :: lua
begin

abbreviation idx :: "string \<Rightarrow> string \<Rightarrow> string" where
  "idx \<equiv> idx_key U"

lemma stored_frame: "key_same R r r' (msg_key i) \<Longrightarrow> msg_stored R r' i m = msg_stored R r i m"
  by (simp add: msg_stored_def key_same_def)

lemma stored_not_fresh: "msg_stored R r i m \<Longrightarrow> \<not> fresh_id R r i"
  using none_hget [of r "msg_key i"] by (auto simp: msg_stored_def fresh_id_def)

lemma stored_new:
  assumes "fresh_id R r i"
  shows "msg_stored R (r_hset R r (msg_key i) [(''from'', a), (''to'', b), (''text'', t)]) i
    \<lparr>cm_from = a, cm_to = b, cm_text = t\<rparr>"
proof -
  have "r_type R r (msg_key i) = TNone" using assms by (simp add: fresh_id_def)
  with hset [of r "msg_key i" "[(''from'', a), (''to'', b), (''text'', t)]"] show ?thesis
    by (simp add: msg_stored_def)
qed

text \<open>The state after the two writes of a send.\<close>

lemma send_state:
  "dialog_send R U a b t i r = (Inr (), r_rpush R (r_hset R r (msg_key i) [(''from'', a), (''to'', b), (''text'', t)]) (idx a b) [i])"
  by (simp add: dialog_send_def Let_def bind_def)

lemma send_holds:
  assumes fresh: "fresh_id R r i" and holds: "dialog_holds R U r c d ms"
    and ok: "id_ok a" "id_ok b" "id_ok c" "id_ok d"
  shows "dialog_holds R U (snd (dialog_send R U a b t i r)) c d
    (if {c, d} = {a, b} then ms @ [\<lparr>cm_from = a, cm_to = b, cm_text = t\<rparr>] else ms)"
proof -
  let ?r1 = "r_hset R r (msg_key i) [(''from'', a), (''to'', b), (''text'', t)]"
  let ?r2 = "r_rpush R ?r1 (idx a b) [i]"
  have same1: "key_same R r ?r1 k" if "k \<noteq> msg_key i" for k
    using hset_frame [OF that] .
  have same2: "key_same R ?r1 ?r2 k" if "k \<noteq> idx a b" for k
    using rpush_frame [OF that] .
  have idx1: "r_type R ?r1 (idx c d) = r_type R r (idx c d)" "r_list R ?r1 (idx c d) = r_list R r (idx c d)" for c d
    using key_sameD [OF same1 [OF idx_not_msg]] by auto
  have keep: "msg_stored R ?r2 j m" if "msg_stored R r j m" for j m
  proof -
    have "j \<noteq> i" using stored_not_fresh [OF that] fresh by blast
    then have "msg_stored R ?r1 j m"
      using that stored_frame [OF same1] by (simp add: msg_key_inject)
    then show ?thesis
      using stored_frame [OF same2] idx_not_msg by metis
  qed
  have new: "msg_stored R ?r2 i \<lparr>cm_from = a, cm_to = b, cm_text = t\<rparr>"
    using stored_new [OF fresh] stored_frame [OF same2] idx_not_msg by metis
  have old: "list_all2 (msg_stored R ?r2) (r_list R r (idx c d)) ms"
    using holds keep list_all2_mono unfolding dialog_holds_def by blast
  have type: "r_type R r (idx c d) \<noteq> THash" using holds by (simp add: dialog_holds_def)
  show ?thesis
  proof (cases "{c, d} = {a, b}")
    case True
    then have eq: "idx a b = idx c d" using idx_key_inject [OF ok] by auto
    have "r_type R ?r2 (idx c d) = TList \<and> r_list R ?r2 (idx c d) = r_list R r (idx c d) @ [i]"
      using rpush [of ?r1 "idx c d" "[i]"] type idx1 eq by simp
    with True old new show ?thesis
      by (simp add: send_state dialog_holds_def list_all2_appendI)
  next
    case False
    then have "idx c d \<noteq> idx a b" using idx_key_inject [OF ok(3,4,1,2)] by auto
    from key_sameD [OF same2 [OF this]] have "r_type R ?r2 (idx c d) = r_type R r (idx c d)"
      "r_list R ?r2 (idx c d) = r_list R r (idx c d)"
      using idx1 by auto
    with False old type show ?thesis by (simp add: send_state dialog_holds_def)
  qed
qed

lemma entry_parses:
  assumes "msg_stored R r i m"
  shows "parse_message L (dialog_entry L R r i) = Inr m"
proof -
  let ?fs = "[(''from'', JString (cm_from m)), (''to'', JString (cm_to m)), (''text'', JString (cm_text m))]"
  have "flat_object ?fs" by (simp add: flat_object_def)
  from cjson_round [OF this] obtain gs
    where gs: "json_load L (cjson_encode L (JObject ?fs)) = Some (JObject gs)" "map_of gs = map_of ?fs"
    by auto
  have "dialog_entry L R r i = cjson_encode L (JObject ?fs)"
    using assms by (simp add: dialog_entry_def msg_stored_def lua_value_def)
  then show ?thesis
    by (simp add: parse_message_def json_from_string_def gs(1) field_string_cong [OF gs(2)])
      (simp add: field_string_def)
qed

lemma list_parses:
  assumes "dialog_holds R U r a b ms"
  shows "sum_list_map (parse_message L) (map (dialog_entry L R r) (r_lrange R r (idx a b) 0 (- 1))) = Inr ms"
proof -
  have "r_lrange R r (idx a b) 0 (- 1) = r_list R r (idx a b)" by (simp add: r_list_def)
  moreover have "list_all2 (msg_stored R r) is ms \<Longrightarrow>
      sum_list_map (parse_message L) (map (dialog_entry L R r) is) = Inr ms" for "is"
  proof (induction "is" ms rule: list_all2_induct)
    case Nil
    then show ?case by simp
  next
    case (Cons i "is" m ms)
    then show ?case by (simp add: entry_parses)
  qed
  ultimately show ?thesis using assms by (simp add: dialog_holds_def)
qed

lemma holds_sym: "dialog_holds R U r a b ms \<longleftrightarrow> dialog_holds R U r b a ms"
  by (simp add: dialog_holds_def idx_key_sym [of a b])

text \<open>The two calls of the service when no call fails.\<close>

lemma send_run:
  assumes "faults w = []" and "map_of meta ''x-user-id'' = Some a"
  shows "SendMessage L R U i meta b t w = (Inr (),
     w\<lparr>dialog_redis := snd (dialog_send R U a b t (to_str L i) (dialog_redis w)),
       broker := broker w @ [Publication ''messages-exchange'' (''message.sent.'' @ b) (message_sent_event L a b)]\<rparr>)"
  using assms by (simp add: SendMessage_def ExtractUserId_def bind_def dialog_fcall_def broker_publish_def send_state Let_def)

lemma list_run:
  assumes "faults w = []" and "map_of meta ''x-user-id'' = Some a" and "dialog_holds R U (dialog_redis w) a b ms"
  shows "ListMessages L R U meta b w = (Inr ms, w)"
  using assms list_parses [OF assms(3)]
  by (simp add: ListMessages_def ExtractUserId_def bind_def dialog_fcall_def dialog_list_def Let_def)

lemma no_user:
  assumes "map_of meta ''x-user-id'' = None"
  shows "SendMessage L R U i meta b t w = (Inl (RpcError ''UNAUTHENTICATED''), w)"
    and "ListMessages L R U meta b w = (Inl (RpcError ''UNAUTHENTICATED''), w)"
  using assms by (simp_all add: SendMessage_def ListMessages_def ExtractUserId_def bind_def)

end

interpretation ref_chat: chat_env ref_lib ref_redis ref_lua
  by (intro chat_env.intro ref_library_axioms ref_server_axioms ref_lua_axioms)

lemmas ref_chat_axioms = ref_chat.chat_env_axioms

section \<open>Histories\<close>

text \<open>A request to send: the identifier drawn for the message, sender, recipient and text.\<close>

datatype send_request = Send (sr_id: uuid) (sr_from: string) (sr_to: string) (sr_text: string)

definition serve_send ::
  "lib \<Rightarrow> 'r redis \<Rightarrow> lua \<Rightarrow> send_request \<Rightarrow> ('r, 'z) dialog_world_scheme \<Rightarrow> ('r, 'z) dialog_world_scheme"
where
  "serve_send L R U q w = snd (SendMessage L R U (sr_id q) [(''x-user-id'', sr_from q)] (sr_to q) (sr_text q) w)"

text \<open>The conversation of \<open>a\<close> and \<open>b\<close> that a sequence of requests describes.\<close>

definition conversation :: "send_request list \<Rightarrow> string \<Rightarrow> string \<Rightarrow> chat_message list" where
  "conversation qs a b =
     map (\<lambda>q. \<lparr>cm_from = sr_from q, cm_to = sr_to q, cm_text = sr_text q\<rparr>)
       (filter (\<lambda>q. {sr_from q, sr_to q} = {a, b}) qs)"

lemma conversation_Cons: "conversation (q # qs) a b = conversation [q] a b @ conversation qs a b"
  by (simp add: conversation_def)

definition request_ok :: "send_request \<Rightarrow> bool" where
  "request_ok q \<longleftrightarrow> id_ok (sr_from q) \<and> id_ok (sr_to q)"

text \<open>The event of a request, and the requests of a sequence that are answered without an error.\<close>

definition sent_event :: "lib \<Rightarrow> send_request \<Rightarrow> publication" where
  "sent_event L q = Publication ''messages-exchange'' (''message.sent.'' @ sr_to q) (message_sent_event L (sr_from q) (sr_to q))"

fun accepted_sends ::
  "lib \<Rightarrow> 'r redis \<Rightarrow> lua \<Rightarrow> send_request list \<Rightarrow> ('r, 'z) dialog_world_scheme \<Rightarrow> send_request list"
where
  "accepted_sends L R U [] w = []"
| "accepted_sends L R U (q # qs) w =
     (case fst (SendMessage L R U (sr_id q) [(''x-user-id'', sr_from q)] (sr_to q) (sr_text q) w) of
        Inr _ \<Rightarrow> [q]
      | Inl _ \<Rightarrow> []) @ accepted_sends L R U qs (serve_send L R U q w)"

text \<open>The state after a request that stores its message.\<close>

definition store_send :: "lib \<Rightarrow> 'r redis \<Rightarrow> lua \<Rightarrow> send_request \<Rightarrow> 'r \<Rightarrow> 'r" where
  "store_send L R U q r = snd (dialog_send R U (sr_from q) (sr_to q) (sr_text q) (to_str L (sr_id q)) r)"

context chat_env
begin

lemma fresh_other:
  assumes "fresh_id R r j" and "j \<noteq> i"
  shows "fresh_id R (snd (dialog_send R U a b t i r)) j"
proof -
  have "msg_key j \<noteq> msg_key i" using assms(2) by (simp add: msg_key_inject)
  from key_sameD(1) [OF hset_frame [OF this]] assms(1)
    key_sameD(1) [OF rpush_frame [OF not_sym [OF idx_not_msg]]]
  show ?thesis by (simp add: send_state fresh_id_def)
qed

text \<open>
  What a request does whatever fails: it succeeds, or a call has failed, before the message was
  stored, between storing and announcing, or after both.
\<close>

lemma send_outcome:
  fixes w :: "('r, 'z) dialog_world_scheme"
  assumes "w' = serve_send L R U q w"
    and "x = fst (SendMessage L R U (sr_id q) [(''x-user-id'', sr_from q)] (sr_to q) (sr_text q) w)"
  obtains "x = Inr ()" and "failures w' \<le> failures w" and "dialog_redis w' = store_send L R U q (dialog_redis w)"
      and "broker w' = broker w @ [sent_event L q]"
    | e where "x = Inl e" and "failures w' < failures w"
      and "(dialog_redis w', broker w') \<in> {(dialog_redis w, broker w), (store_send L R U q (dialog_redis w), broker w),
        (store_send L R U q (dialog_redis w), broker w @ [sent_event L q])}"
proof -
  have send: "dialog_send R U (sr_from q) (sr_to q) (sr_text q) (to_str L (sr_id q)) r = (Inr (), store_send L R U q r)" for r
    by (simp add: store_send_def send_state)
  show thesis
  proof (cases "faults w")
    case Nil
    with send show thesis
      by (intro that(1)) (simp_all add: assms serve_send_def SendMessage_def ExtractUserId_def Let_def bind_def
          dialog_fcall_def broker_publish_def sent_event_def failures_def)
  next
    case (Cons f fs)
    show thesis
    proof (cases f)
      case No_Fault
      show thesis
      proof (cases fs)
        case Nil
        with Cons No_Fault send show thesis
          by (intro that(1)) (simp_all add: assms serve_send_def SendMessage_def ExtractUserId_def Let_def bind_def
              dialog_fcall_def broker_publish_def sent_event_def failures_def ext_def)
      next
        case (Cons g gs)
        with \<open>faults w = f # fs\<close> No_Fault send show thesis
          by (cases g; intro that) (simp_all add: assms serve_send_def SendMessage_def ExtractUserId_def Let_def bind_def
              dialog_fcall_def broker_publish_def sent_event_def failures_def ext_def)
      qed
    qed (use Cons send in \<open>intro that(2); simp add: assms serve_send_def SendMessage_def ExtractUserId_def Let_def bind_def
        dialog_fcall_def ext_def failures_def\<close>)+
  qed
qed

lemma send_parts:
  fixes w :: "('r, 'z) dialog_world_scheme"
  assumes "w' = serve_send L R U q w" and "acc = accepted_sends L R U [q] w"
  shows "\<exists>stored announced. subseq acc announced \<and> subseq announced stored \<and> subseq stored [q]
    \<and> dialog_redis w' = fold (store_send L R U) stored (dialog_redis w)
    \<and> broker w' = broker w @ map (sent_event L) announced \<and> Suc (failures w') \<le> length acc + failures w"
proof (rule send_outcome [OF assms(1) refl])
  assume "fst (SendMessage L R U (sr_id q) [(''x-user-id'', sr_from q)] (sr_to q) (sr_text q) w) = Inr ()"
    and "failures w' \<le> failures w" and "dialog_redis w' = store_send L R U q (dialog_redis w)"
    and "broker w' = broker w @ [sent_event L q]"
  then show ?thesis by (intro exI [of _ "[q]"]) (simp add: assms(2))
next
  fix e
  assume "fst (SendMessage L R U (sr_id q) [(''x-user-id'', sr_from q)] (sr_to q) (sr_text q) w) = Inl e"
    and less: "failures w' < failures w"
    and eff: "(dialog_redis w', broker w') \<in> {(dialog_redis w, broker w), (store_send L R U q (dialog_redis w), broker w),
        (store_send L R U q (dialog_redis w), broker w @ [sent_event L q])}"
  then have "acc = []" by (simp add: assms(2))
  moreover from eff consider "dialog_redis w' = dialog_redis w" "broker w' = broker w"
    | "dialog_redis w' = store_send L R U q (dialog_redis w)" "broker w' = broker w"
    | "dialog_redis w' = store_send L R U q (dialog_redis w)" "broker w' = broker w @ [sent_event L q]" by auto
  then have "\<exists>stored announced. subseq announced stored \<and> subseq stored [q]
      \<and> dialog_redis w' = fold (store_send L R U) stored (dialog_redis w) \<and> broker w' = broker w @ map (sent_event L) announced"
  proof cases
    case 1
    then show ?thesis by (intro exI [of _ "[]"]) simp
  next
    case 2
    then show ?thesis by (intro exI [of _ "[q]"] exI [of _ "[]"]) simp
  next
    case 3
    then show ?thesis by (intro exI [of _ "[q]"]) simp
  qed
  ultimately show ?thesis using less by fastforce
qed

text \<open>
  A sequence of requests: all accepted ones and some of those that failed are stored, and of
  these all accepted ones and some of those that failed are announced.
\<close>

lemma sends_outcome:
  fixes w :: "('r, 'z) dialog_world_scheme"
  shows "\<exists>stored announced. subseq (accepted_sends L R U qs w) announced \<and> subseq announced stored \<and> subseq stored qs
    \<and> dialog_redis (fold (serve_send L R U) qs w) = fold (store_send L R U) stored (dialog_redis w)
    \<and> broker (fold (serve_send L R U) qs w) = broker w @ map (sent_event L) announced
    \<and> length qs + failures (fold (serve_send L R U) qs w) \<le> length (accepted_sends L R U qs w) + failures w"
proof (induction qs arbitrary: w)
  case Nil
  then show ?case by (intro exI [of _ "[]"]) simp
next
  case (Cons q qs)
  let ?w = "serve_send L R U q w" and ?acc = "accepted_sends L R U"
  obtain s a where 1: "subseq (?acc [q] w) a" "subseq a s" "subseq s [q]"
    "dialog_redis ?w = fold (store_send L R U) s (dialog_redis w)" "broker ?w = broker w @ map (sent_event L) a"
    "Suc (failures ?w) \<le> length (?acc [q] w) + failures w"
    using send_parts [OF refl refl] by blast
  obtain s' a' where 2: "subseq (?acc qs ?w) a'" "subseq a' s'" "subseq s' qs"
    "dialog_redis (fold (serve_send L R U) qs ?w) = fold (store_send L R U) s' (dialog_redis ?w)"
    "broker (fold (serve_send L R U) qs ?w) = broker ?w @ map (sent_event L) a'"
    "length qs + failures (fold (serve_send L R U) qs ?w) \<le> length (?acc qs ?w) + failures ?w"
    using Cons.IH by blast
  from list_emb_append_mono [OF 1(1) 2(1)] list_emb_append_mono [OF 1(2) 2(2)] list_emb_append_mono [OF 1(3) 2(3)]
    1(4-6) 2(4-6)
  show ?case by (intro exI [of _ "s @ s'"] exI [of _ "a @ a'"]) simp
qed

lemma sends_publish:
  fixes w :: "('r, 'z) dialog_world_scheme"
  shows "\<exists>announced. subseq (accepted_sends L R U qs w) announced \<and> subseq announced qs
    \<and> broker (fold (serve_send L R U) qs w) = broker w @ map (sent_event L) announced
    \<and> length qs \<le> length (accepted_sends L R U qs w) + failures w"
  using sends_outcome [of qs w] subseq_order.order_trans by fastforce

lemma store_holds:
  assumes "dialog_holds R U r a b ms" and "request_ok q" and "fresh_id R r (to_str L (sr_id q))" and "id_ok a" and "id_ok b"
  shows "dialog_holds R U (store_send L R U q r) a b (ms @ conversation [q] a b)"
  using send_holds [OF assms(3,1) _ _ assms(4,5), of "sr_from q" "sr_to q" "sr_text q"] assms(2)
  by (auto simp: store_send_def request_ok_def conversation_def split: if_splits)

text \<open>Storing the messages of a sequence appends them to their dialogs.\<close>

lemma history_holds:
  assumes "id_ok a" "id_ok b" and "\<forall>q \<in> set qs. request_ok q" and "distinct (map sr_id qs)"
    and "\<forall>q \<in> set qs. fresh_id R r (to_str L (sr_id q))" and "dialog_holds R U r a b ms"
  shows "dialog_holds R U (fold (store_send L R U) qs r) a b (ms @ conversation qs a b)"
  using assms
proof (induction qs arbitrary: r ms)
  case Nil
  then show ?case by (simp add: conversation_def)
next
  case (Cons q qs)
  have step: "dialog_holds R U (store_send L R U q r) a b (ms @ conversation [q] a b)"
    using store_holds [OF Cons.prems(6)] Cons.prems(1-3,5) by simp
  have "\<forall>p \<in> set qs. fresh_id R (store_send L R U q r) (to_str L (sr_id p))"
    using Cons.prems(4,5) by (auto simp: store_send_def to_str_inject image_iff intro!: fresh_other)
  from Cons.IH [OF Cons.prems(1,2) _ _ this step] Cons.prems(3,4) show ?case
    by (simp add: conversation_Cons [of q qs])
qed

end

section \<open>Properties\<close>

definition sample_dialogs :: "keyspace dialog_world" where
  "sample_dialogs = \<lparr>faults = [], dialog_redis = empty_keyspace, counter_redis = empty_keyspace, broker = []\<rparr>"

lemma sample_dialogs_simps [simp]:
  "faults sample_dialogs = []" "dialog_redis sample_dialogs = empty_keyspace"
  "counter_redis sample_dialogs = empty_keyspace" "broker sample_dialogs = []"
  by (simp_all add: sample_dialogs_def)

lemma empty_dialog: "dialog_holds ref_redis U empty_keyspace a b []"
  by (simp add: dialog_holds_def ref_redis_def r_list_def empty_keyspace_def)

lemma empty_fresh: "fresh_id ref_redis empty_keyspace i"
  by (simp add: fresh_id_def ref_redis_def empty_keyspace_def)

text \<open>
  C17. A dialog is its history. After any sequence of requests to send, whatever calls fail on the
  way, either participant who lists the dialog gets the messages the two exchanged in some
  subsequence of the requests, in the order in which they were sent, with their senders, and no
  message of another dialog. The subsequence has every request that was answered without an error,
  and no more are answered with one than calls have failed.
\<close>

theorem dialog_is_history:
  fixes w :: "('r, 'z) dialog_world_scheme"
  assumes "chat_env L R U" and "id_ok a" and "id_ok b"
    and "\<forall>q \<in> set qs. request_ok q" and "distinct (map sr_id qs)"
    and "\<forall>q \<in> set qs. fresh_id R (dialog_redis w) (to_str L (sr_id q))"
    and "dialog_holds R U (dialog_redis w) a b []"
    and "w' = (fold (serve_send L R U) qs w)\<lparr>faults := []\<rparr>"
  shows "\<exists>stored. subseq (accepted_sends L R U qs w) stored \<and> subseq stored qs
    \<and> length qs \<le> length (accepted_sends L R U qs w) + failures w
    \<and> ListMessages L R U [(''x-user-id'', a)] b w' = (Inr (conversation stored a b), w')
    \<and> ListMessages L R U [(''x-user-id'', b)] a w' = (Inr (conversation stored a b), w')"
proof -
  obtain stored announced where s: "subseq (accepted_sends L R U qs w) announced" "subseq announced stored" "subseq stored qs"
    "dialog_redis w' = fold (store_send L R U) stored (dialog_redis w)"
    "length qs \<le> length (accepted_sends L R U qs w) + failures w"
    using chat_env.sends_outcome [OF assms(1), of qs w] assms(8) by auto
  from subseq_distinct [OF subseq_map [OF s(3)] assms(5)] subseq_set [OF s(3)] assms(4,6)
  have h: "dialog_holds R U (dialog_redis w') a b (conversation stored a b)"
    using chat_env.history_holds [OF assms(1-3) _ _ _ assms(7), of stored] s(4) by auto
  then have h': "dialog_holds R U (dialog_redis w') b a (conversation stored a b)"
    using chat_env.holds_sym [OF assms(1)] by blast
  have f: "faults w' = []" by (simp add: assms(8))
  have "subseq (accepted_sends L R U qs w) stored" using s(1,2) by (rule subseq_order.order_trans)
  with s(3,5) show ?thesis
    by (intro exI [of _ stored] conjI chat_env.list_run [OF assms(1) f _ h] chat_env.list_run [OF assms(1) f _ h']) simp_all
qed

theorem dialog_is_history_witness:
  "fst (ListMessages ref_lib ref_redis ref_lua [(''x-user-id'', ''bob'')] ''eve''
      ((fold (serve_send ref_lib ref_redis ref_lua)
        [Send (Uuid 1) ''eve'' ''bob'' ''hi'', Send (Uuid 2) ''eve'' ''ann'' ''no'', Send (Uuid 3) ''bob'' ''eve'' ''yo'']
        (sample_dialogs\<lparr>faults := [No_Fault, No_Fault, Fail_Before]\<rparr>))\<lparr>faults := []\<rparr>))
   = Inr [\<lparr>cm_from = ''eve'', cm_to = ''bob'', cm_text = ''hi''\<rparr>, \<lparr>cm_from = ''bob'', cm_to = ''eve'', cm_text = ''yo''\<rparr>]"
proof -
  let ?qs = "[Send (Uuid 1) ''eve'' ''bob'' ''hi'', Send (Uuid 2) ''eve'' ''ann'' ''no'', Send (Uuid 3) ''bob'' ''eve'' ''yo'']"
  let ?w = "sample_dialogs\<lparr>faults := [No_Fault, No_Fault, Fail_Before]\<rparr>"
  have acc: "accepted_sends ref_lib ref_redis ref_lua ?qs ?w = [hd ?qs, last ?qs]"
    by (simp add: serve_send_def SendMessage_def ExtractUserId_def Let_def bind_def dialog_fcall_def broker_publish_def
        ext_def ref_chat.send_state)
  from dialog_is_history [OF ref_chat_axioms, of "''eve''" "''bob''" ?qs ?w, OF _ _ _ _ _ _ refl]
  obtain stored where s: "subseq [hd ?qs, last ?qs] stored" "subseq stored ?qs"
    "ListMessages ref_lib ref_redis ref_lua [(''x-user-id'', ''bob'')] ''eve''
      ((fold (serve_send ref_lib ref_redis ref_lua) ?qs ?w)\<lparr>faults := []\<rparr>)
     = (Inr (conversation stored ''eve'' ''bob''), (fold (serve_send ref_lib ref_redis ref_lua) ?qs ?w)\<lparr>faults := []\<rparr>)"
    unfolding acc by (auto simp: empty_dialog empty_fresh id_ok_def request_ok_def)
  from s(2) have "stored \<in> set (subseqs ?qs)" by (simp only: in_set_subseqs)
  with s(1) have "conversation stored ''eve'' ''bob'' = [\<lparr>cm_from = ''eve'', cm_to = ''bob'', cm_text = ''hi''\<rparr>,
      \<lparr>cm_from = ''bob'', cm_to = ''eve'', cm_text = ''yo''\<rparr>]"
    by (auto simp: conversation_def doubleton_eq_iff Let_def)
  with s(3) show ?thesis by simp
qed

text \<open>
  A send that fails after storing. When the broker does not take the event, the sender gets an
  error, yet the message is in the dialog of both and no event is published; a retry stores the
  message a second time.
\<close>

lemma failed_send_keeps_message:
  fixes w :: "('r, 'z) dialog_world_scheme"
  assumes "chat_env L R U" and "faults w = [No_Fault, Fail_Before]" and "id_ok a" and "id_ok b"
    and "fresh_id R (dialog_redis w) (to_str L i)" and "fresh_id R (dialog_redis w) (to_str L j)" and "i \<noteq> j"
    and "dialog_holds R U (dialog_redis w) a b ms"
    and "m = \<lparr>cm_from = a, cm_to = b, cm_text = t\<rparr>"
    and "send = (\<lambda>i. SendMessage L R U i [(''x-user-id'', a)] b t)"
    and "read = ListMessages L R U [(''x-user-id'', b)] a"
  shows "fst (send i w) = Inl (ServiceError ''rabbitmq'') \<and> broker (snd (send i w)) = broker w
       \<and> fst (read (snd (send i w))) = Inr (ms @ [m])
       \<and> fst (send j (snd (send i w))) = Inr ()
       \<and> fst (read (snd (send j (snd (send i w))))) = Inr (ms @ [m, m])"
proof -
  let ?r = "snd (dialog_send R U a b t (to_str L i) (dialog_redis w))"
  let ?w = "w\<lparr>faults := [], dialog_redis := ?r\<rparr>"
  have first: "send i w = (Inl (ServiceError ''rabbitmq''), ?w)"
    using assms(2) by (simp add: assms(10) SendMessage_def ExtractUserId_def bind_def dialog_fcall_def
        broker_publish_def ext_def Let_def chat_env.send_state [OF assms(1)])
  have h: "dialog_holds R U (dialog_redis ?w) a b (ms @ [m])"
    using chat_env.send_holds [OF assms(1,5,8,3,4,3,4)] by (simp add: assms(9))
  have lib: "library L" using assms(1) by (rule chat_env.axioms(1))
  have "fresh_id R (dialog_redis ?w) (to_str L j)"
    using chat_env.fresh_other [OF assms(1,6)] assms(7) library.to_str_inject [OF lib] by simp
  from chat_env.send_holds [OF assms(1) this h assms(3,4,3,4), of t]
  have h2: "dialog_holds R U (snd (dialog_send R U a b t (to_str L j) (dialog_redis ?w))) a b (ms @ [m, m])"
    by (simp add: assms(9))
  note second = chat_env.send_run [OF assms(1), of ?w "[(''x-user-id'', a)]" a j b t]
  have "fst (read ?w) = Inr (ms @ [m])"
    using chat_env.list_run [OF assms(1), of ?w "[(''x-user-id'', b)]" b a] h
      chat_env.holds_sym [OF assms(1)] by (auto simp: assms(11))
  moreover have "fst (read (snd (send j ?w))) = Inr (ms @ [m, m])"
    using chat_env.list_run [OF assms(1), of "snd (send j ?w)" "[(''x-user-id'', b)]" b a] h2
      chat_env.holds_sym [OF assms(1)] second by (auto simp: assms(10,11))
  moreover have "fst (send j ?w) = Inr ()"
    using second by (simp add: assms(10))
  ultimately show ?thesis by (simp add: first)
qed

lemma failed_send_keeps_message_witness:
  "fst (SendMessage ref_lib ref_redis ref_lua (Uuid 1) [(''x-user-id'', ''eve'')] ''bob'' ''hi''
      (sample_dialogs\<lparr>faults := [No_Fault, Fail_Before]\<rparr>)) = Inl (ServiceError ''rabbitmq'')"
  by (rule failed_send_keeps_message [where j = "Uuid 2" and ms = "[]", OF ref_chat_axioms _ _ _ _ _ _ _ refl refl refl, THEN conjunct1])
    (simp_all add: empty_dialog empty_fresh id_ok_def)

end
