(* ===== verification/Counter_Service.thy ===== *)
theory Counter_Service
  imports Chat_Service
begin

text \<open>
  The counter service: the consumer of sent messages (\<open>counter_consumer.cpp\<close>), the gRPC
  service (\<open>counter_service.cpp\<close>), the periodic reconciler (\<open>counter_reconciler.cpp\<close>)
  and the Redis functions of \<open>scripts/redis/counter_functions.lua\<close>. The counters of a user
  are one Redis hash: a field \<open>total\<close> and one field per dialog.
\<close>

section \<open>The Redis functions\<close>

definition counter_key :: "string \<Rightarrow> string" where
  "counter_key user_id = ''counters:'' @ user_id"

definition dialog_field :: "string \<Rightarrow> string" where
  "dialog_field partner_id = ''dialog:'' @ partner_id"

text \<open>\<open>tonumber(v) or 0\<close>: a missing field and a text that is no number count as zero.\<close>

definition number_or_0 :: "lua \<Rightarrow> string option \<Rightarrow> int" where
  "number_or_0 U v = (case v of None \<Rightarrow> 0 | Some s \<Rightarrow> (case tonumber U s of None \<Rightarrow> 0 | Some n \<Rightarrow> n))"

definition counter_reset_dialog :: "'r redis \<Rightarrow> lua \<Rightarrow> string \<Rightarrow> string \<Rightarrow> ('r, int) eff" where
  "counter_reset_dialog R U user_id partner_id =
     (let hash_key = counter_key user_id; field = dialog_field partner_id in
      bind (query (\<lambda>r. number_or_0 U (r_hget R r hash_key field))) (\<lambda>dialog_count.
      if dialog_count > 0
      then bind (modify (\<lambda>r. r_hset R r hash_key [(field, tostring U 0)])) (\<lambda>_.
           bind (\<lambda>r. r_hincrby R r hash_key ''total'' (- dialog_count)) (\<lambda>new_total.
           bind (if new_total < 0 then modify (\<lambda>r. r_hset R r hash_key [(''total'', tostring U 0)]) else ret ()) (\<lambda>_.
           ret dialog_count)))
      else ret dialog_count))"

text \<open>The loop over the flat reply of HGETALL, two entries at a time.\<close>

fun reconcile_loop :: "lua \<Rightarrow> string list \<Rightarrow> int \<Rightarrow> int" where
  "reconcile_loop U [] computed_total = computed_total"
| "reconcile_loop U [field] computed_total = computed_total"
| "reconcile_loop U (field # v # rest) computed_total =
     (let value = number_or_0 U (Some v)
      in reconcile_loop U rest (if field \<noteq> ''total'' \<and> value > 0 then computed_total + value else computed_total))"

definition counter_reconcile_user :: "'r redis \<Rightarrow> lua \<Rightarrow> string \<Rightarrow> ('r, int) eff" where
  "counter_reconcile_user R U user_id =
     (let hash_key = counter_key user_id in
      bind (query (\<lambda>r. reconcile_loop U (r_hgetall R r hash_key) 0)) (\<lambda>computed_total.
      bind (modify (\<lambda>r. r_hset R r hash_key [(''total'', tostring U computed_total)])) (\<lambda>_.
      ret computed_total)))"

section \<open>The services\<close>

definition counter_call :: "('r, 'a) eff \<Rightarrow> (('r, 'z) dialog_world_scheme, 'a) eff" where
  "counter_call f = ext (ServiceError ''redis'')
     (\<lambda>w. case f (counter_redis w) of (x, r) \<Rightarrow> (x, w\<lparr>counter_redis := r\<rparr>))"

definition CounterConsumer_Process :: "lib \<Rightarrow> 'r redis \<Rightarrow> string \<Rightarrow> (('r, 'z) dialog_world_scheme, unit) eff" where
  "CounterConsumer_Process L R message =
     bind (lift_sum (sum_bind (json_from_string L message) (\<lambda>json.
       sum_bind (field_string json ''to_user_id'') (\<lambda>to_user_id.
       sum_bind (field_string json ''from_user_id'') (\<lambda>from_user_id. Inr (to_user_id, from_user_id))))))
     (\<lambda>(to_user_id, from_user_id).
     let hash_key = counter_key to_user_id; field = dialog_field from_user_id in
     bind (counter_call (\<lambda>r. r_hincrby R r hash_key ''total'' 1)) (\<lambda>_.
     bind (counter_call (\<lambda>r. r_hincrby R r hash_key field 1)) (\<lambda>_.
     ret ())))"

definition GetUnreadCount :: "'r redis \<Rightarrow> metadata \<Rightarrow> (('r, 'z) dialog_world_scheme, int) eff" where
  "GetUnreadCount R meta =
     bind (lift_sum (ExtractUserId meta)) (\<lambda>user_id.
     bind (counter_call (query (\<lambda>r. r_hget R r (counter_key user_id) ''total''))) (\<lambda>reply.
     lift_sum (case reply of None \<Rightarrow> Inr 0 | Some s \<Rightarrow> stoll s)))"

definition ResetDialogCounter ::
  "'r redis \<Rightarrow> lua \<Rightarrow> metadata \<Rightarrow> string \<Rightarrow> (('r, 'z) dialog_world_scheme, int) eff"
where
  "ResetDialogCounter R U meta partner_id =
     bind (lift_sum (ExtractUserId meta)) (\<lambda>user_id.
     counter_call (counter_reset_dialog R U user_id partner_id))"

text \<open>\<open>key.substr(size)\<close> throws when the key is shorter.\<close>

definition user_of_key :: "string \<Rightarrow> exn + string" where
  "user_of_key key = (if length key < length ''counters:'' then Inl OutOfRange else Inr (drop (length ''counters:'') key))"

text \<open>One key of a page. An exception of the reconciliation itself is logged and dropped.\<close>

definition reconcile_entry :: "'r redis \<Rightarrow> lua \<Rightarrow> string \<Rightarrow> (('r, 'z) dialog_world_scheme, unit) eff" where
  "reconcile_entry R U key =
     bind (lift_sum (user_of_key key)) (\<lambda>user_id.
     try_catch (bind (counter_call (counter_reconcile_user R U user_id)) (\<lambda>_. ret ())) (\<lambda>_. True) (ret ()))"

text \<open>
  One run of the reconciler. The replies of the server to the successive SCANs, each a cursor and
  a page of keys, are the argument; the loop ends at the first cursor \<open>0\<close>.
\<close>

fun RunReconciliation :: "'r redis \<Rightarrow> lua \<Rightarrow> (string \<times> string list) list \<Rightarrow> (('r, 'z) dialog_world_scheme, unit) eff" where
  "RunReconciliation R U [] = ret ()"
| "RunReconciliation R U ((cursor, keys) # replies) =
     bind (counter_call (ret ())) (\<lambda>_.
     bind (for_each keys (reconcile_entry R U)) (\<lambda>_.
     if cursor = ''0'' then ret () else RunReconciliation R U replies))"

section \<open>What the hash of a user means\<close>

text \<open>The unread messages per partner; \<open>None\<close> when there is no field.\<close>

type_synonym counts = "string \<rightharpoonup> nat"

definition count_of :: "counts \<Rightarrow> string \<Rightarrow> nat" where
  "count_of m p = (case m p of None \<Rightarrow> 0 | Some n \<Rightarrow> n)"

definition unread :: "counts \<Rightarrow> nat" where
  "unread m = (\<Sum>p \<in> dom m. the (m p))"

definition total_of :: "int option \<Rightarrow> int" where
  "total_of t = (case t of None \<Rightarrow> 0 | Some v \<Rightarrow> v)"

definition counter_hash :: "counts \<Rightarrow> int option \<Rightarrow> string \<Rightarrow> string option" where
  "counter_hash m t field =
     (if field = ''total'' then map_option show_int t
      else if take 7 field = ''dialog:'' then map_option (\<lambda>n. show_int (int n)) (m (drop 7 field)) else None)"

text \<open>The hash of \<open>u\<close> has the dialog counts \<open>m\<close> and the total \<open>t\<close>.\<close>

definition counter_holds :: "'r redis \<Rightarrow> 'r \<Rightarrow> string \<Rightarrow> counts \<Rightarrow> int option \<Rightarrow> bool" where
  "counter_holds R r u m t \<longleftrightarrow>
     r_type R r (counter_key u) \<noteq> TList \<and> finite (dom m) \<and> r_hget R r (counter_key u) = counter_hash m t"

lemma counter_key_inject: "counter_key u = counter_key v \<longleftrightarrow> u = v"
  by (simp add: counter_key_def)

lemma field_cases: "take 7 f = ''dialog:'' \<longleftrightarrow> (\<exists>p. f = dialog_field p)"
proof
  assume "take 7 f = ''dialog:''"
  then have "f = ''dialog:'' @ drop 7 f" by (metis append_take_drop_id)
  then show "\<exists>p. f = dialog_field p" unfolding dialog_field_def by blast
qed (auto simp: dialog_field_def)

lemma dialog_field_facts [simp]:
  "dialog_field p \<noteq> ''total''" "''total'' \<noteq> dialog_field p" "dialog_field p = dialog_field q \<longleftrightarrow> p = q" "drop 7 (dialog_field p) = p"
  by (simp_all add: dialog_field_def)

lemma counter_hash_total [simp]: "counter_hash m t ''total'' = map_option show_int t"
  by (simp add: counter_hash_def)

lemma counter_hash_dialog [simp]: "counter_hash m t (dialog_field p) = map_option (\<lambda>n. show_int (int n)) (m p)"
  by (auto simp: counter_hash_def field_cases)

lemma counter_hash_put_total: "(counter_hash m t)(''total'' \<mapsto> show_int v) = counter_hash m (Some v)"
  by (auto simp: counter_hash_def fun_eq_iff)

lemma counter_hash_put_dialog:
  "(counter_hash m t)(dialog_field p \<mapsto> show_int (int n)) = counter_hash (m(p \<mapsto> n)) t"
proof
  fix f show "((counter_hash m t)(dialog_field p \<mapsto> show_int (int n))) f = counter_hash (m(p \<mapsto> n)) t f"
    by (cases "take 7 f = ''dialog:''") (auto simp: field_cases counter_hash_def)
qed

lemma unread_update:
  assumes "finite (dom m)"
  shows "int (unread (m(p \<mapsto> n))) = int (unread m) - int (count_of m p) + int n"
proof -
  have sum: "(\<Sum>q \<in> insert p (dom m). the ((m(p \<mapsto> n)) q)) = n + (\<Sum>q \<in> dom m - {p}. the (m q))"
    using assms by (simp add: sum.insert_remove)
  have "(\<Sum>q \<in> dom m. the (m q)) = count_of m p + (\<Sum>q \<in> dom m - {p}. the (m q))"
    using assms by (cases "p \<in> dom m") (auto simp: sum.remove count_of_def split: option.splits)
  then show ?thesis using sum by (simp add: unread_def dom_fun_upd insert_absorb)
qed

lemma count_le_unread:
  assumes "finite (dom m)"
  shows "count_of m p \<le> unread m"
proof (cases "m p")
  case None
  then show ?thesis by (simp add: count_of_def)
next
  case (Some n)
  then have "p \<in> dom m" by (rule domI)
  from member_le_sum [OF this, of "\<lambda>q. the (m q)"] assms Some show ?thesis
    by (simp add: count_of_def unread_def)
qed

section \<open>The functions on a hash\<close>

definition count_ok :: "int \<Rightarrow> bool" where
  "count_ok i \<longleftrightarrow> 0 \<le> i \<and> exact_number i"

lemma count_ok_int64: "count_ok i \<Longrightarrow> in_int64 i"
  by (simp add: count_ok_def exact_in_int64)

context chat_env
begin

lemma holds_hget:
  "counter_holds R r u m t \<Longrightarrow> r_hget R r (counter_key u) ''total'' = map_option show_int t"
  "counter_holds R r u m t \<Longrightarrow>
     r_hget R r (counter_key u) (dialog_field p) = map_option (\<lambda>n. show_int (int n)) (m p)"
  by (simp_all add: counter_holds_def)

lemma holds_number:
  assumes "counter_holds R r u m t" and "exact_number (int (count_of m p))"
  shows "number_or_0 U (r_hget R r (counter_key u) (dialog_field p)) = int (count_of m p)"
  using assms by (cases "m p") (simp_all add: holds_hget number_or_0_def count_of_def tonumber_int)

lemma holds_put_total:
  assumes "counter_holds R r u m t" and "exact_number v"
  shows "counter_holds R (r_hset R r (counter_key u) [(''total'', tostring U v)]) u m (Some v)"
  using assms hset [of r "counter_key u" "[(''total'', tostring U v)]"]
  by (simp add: counter_holds_def counter_hash_put_total tostring_int map_add_def fun_upd_def [symmetric])
    (simp add: fun_eq_iff counter_hash_def)

lemma holds_put_dialog:
  assumes "counter_holds R r u m t"
  shows "counter_holds R (r_hset R r (counter_key u) [(dialog_field p, tostring U 0)]) u (m(p \<mapsto> 0)) t"
  using assms hset [of r "counter_key u" "[(dialog_field p, tostring U 0)]"] counter_hash_put_dialog [of m t p 0]
  by (simp add: counter_holds_def tostring_0)

lemma holds_incr_total:
  assumes "counter_holds R r u m t" and "in_int64 (total_of t)" and "in_int64 (total_of t + d)"
  shows "fst (r_hincrby R r (counter_key u) ''total'' d) = Inr (total_of t + d)
       \<and> counter_holds R (snd (r_hincrby R r (counter_key u) ''total'' d)) u m (Some (total_of t + d))"
  using assms hincrby [of r "counter_key u" "''total''" "total_of t" d]
  by (cases t) (simp_all add: counter_holds_def total_of_def counter_hash_put_total)

lemma holds_incr_dialog:
  assumes "counter_holds R r u m t" and "in_int64 (int (Suc (count_of m p)))"
  shows "fst (r_hincrby R r (counter_key u) (dialog_field p) 1) = Inr (int (Suc (count_of m p)))
       \<and> counter_holds R (snd (r_hincrby R r (counter_key u) (dialog_field p) 1)) u (m(p \<mapsto> Suc (count_of m p))) t"
proof -
  have old: "in_int64 (int (count_of m p))"
    using assms(2) by (simp add: in_int64_def)
  have e: "int (count_of m p) + 1 = int (Suc (count_of m p))" by simp
  show ?thesis
    using assms hincrby [of r "counter_key u" "dialog_field p" "int (count_of m p)" 1, unfolded e] old
      counter_hash_put_dialog [of m t p "Suc (count_of m p)"]
    by (cases "m p") (simp_all add: counter_holds_def count_of_def)
qed

text \<open>Writes to one user's hash leave the others alone.\<close>

lemma holds_other_user:
  assumes "counter_holds R r v m t" and "v \<noteq> u"
  shows "counter_holds R (r_hset R r (counter_key u) fvs) v m t"
    and "counter_holds R (snd (r_hincrby R r (counter_key u) f d)) v m t"
proof -
  have ne: "counter_key v \<noteq> counter_key u" using assms(2) by (simp add: counter_key_inject)
  show "counter_holds R (r_hset R r (counter_key u) fvs) v m t"
    using assms(1) key_sameD [OF hset_frame [OF ne]] by (simp add: counter_holds_def)
  show "counter_holds R (snd (r_hincrby R r (counter_key u) f d)) v m t"
    using assms(1) key_sameD [OF hincrby_frame [OF ne]] by (simp add: counter_holds_def)
qed

end

section \<open>Reset and reconciliation\<close>

definition reset_total :: "counts \<Rightarrow> int option \<Rightarrow> string \<Rightarrow> int option" where
  "reset_total m t p = (if count_of m p = 0 then t else Some (max 0 (total_of t - int (count_of m p))))"

definition reset_counts :: "counts \<Rightarrow> string \<Rightarrow> counts" where
  "reset_counts m p = (if count_of m p = 0 then m else m(p \<mapsto> 0))"

lemma count_of_upd: "count_of (m(p \<mapsto> n)) q = (if q = p then n else count_of m q)"
  by (simp add: count_of_def)

context chat_env
begin

lemma reset_run:
  assumes holds: "counter_holds R r u m t" and cnt: "exact_number (int (count_of m p))"
    and tot: "0 \<le> total_of t" "exact_number (total_of t)"
  shows "fst (counter_reset_dialog R U u p r) = Inr (int (count_of m p))
    \<and> counter_holds R (snd (counter_reset_dialog R U u p r)) u (reset_counts m p) (reset_total m t p)"
proof (cases "count_of m p = 0")
  case True
  with holds holds_number [OF holds cnt] show ?thesis
    by (simp add: counter_reset_dialog_def bind_def Let_def reset_counts_def reset_total_def)
next
  case False
  let ?k = "counter_key u" and ?n = "int (count_of m p)"
  let ?r1 = "r_hset R r ?k [(dialog_field p, tostring U 0)]"
  have h1: "counter_holds R ?r1 u (m(p \<mapsto> 0)) t" using holds by (rule holds_put_dialog)
  have "in_int64 (total_of t)" "in_int64 (total_of t + (- ?n))"
    using tot cnt by (auto simp: in_int64_def exact_number_def)
  from holds_incr_total [OF h1 this]
  have h2: "fst (r_hincrby R ?r1 ?k ''total'' (- ?n)) = Inr (total_of t - ?n)"
    "counter_holds R (snd (r_hincrby R ?r1 ?k ''total'' (- ?n))) u (m(p \<mapsto> 0)) (Some (total_of t - ?n))"
    by simp_all
  have h3: "counter_holds R (r_hset R (snd (r_hincrby R ?r1 ?k ''total'' (- ?n))) ?k [(''total'', tostring U 0)])
      u (m(p \<mapsto> 0)) (Some 0)"
    by (rule holds_put_total [OF h2(2)]) (simp add: exact_number_def)
  show ?thesis
    using False holds_number [OF holds cnt] h2 h3
    by (cases "r_hincrby R ?r1 ?k ''total'' (- ?n)")
      (auto simp: counter_reset_dialog_def bind_def Let_def reset_counts_def reset_total_def max_def)
qed

lemma loop_sum:
  "reconcile_loop U (flat_pairs ps) acc = acc +
     (\<Sum>(f, v) \<leftarrow> ps. if f \<noteq> ''total'' \<and> number_or_0 U (Some v) > 0 then number_or_0 U (Some v) else 0)"
  by (induction ps arbitrary: acc) (auto simp: Let_def)

lemma dom_counter_hash:
  "dom (counter_hash m t) - {''total''} = dialog_field ` dom m"
proof (rule set_eqI)
  fix f
  show "f \<in> dom (counter_hash m t) - {''total''} \<longleftrightarrow> f \<in> dialog_field ` dom m"
    by (cases "take 7 f = ''dialog:''") (auto simp: field_cases counter_hash_def dom_def image_iff split: if_splits)
qed

lemma loop_unread:
  assumes holds: "counter_holds R r u m t" and cnt: "exact_number (int (unread m))"
  shows "reconcile_loop U (r_hgetall R r (counter_key u)) 0 = int (unread m)"
proof -
  let ?w = "\<lambda>(f, v). if f \<noteq> ''total'' \<and> number_or_0 U (Some v) > 0 then number_or_0 U (Some v) else 0"
  obtain ps where ps: "r_hgetall R r (counter_key u) = flat_pairs ps" "distinct (map fst ps)"
    "map_of ps = counter_hash m t"
    using hgetall [of r "counter_key u"] holds by (auto simp: counter_holds_def)
  have dist: "distinct ps" using ps(2) by (simp add: distinct_map)
  have set_ps: "(f, v) \<in> set ps \<longleftrightarrow> counter_hash m t f = Some v" for f v
    using map_of_eq_Some_iff [OF ps(2)] ps(3) by simp
  have weight: "?w (f, the (counter_hash m t f)) = (if f = ''total'' then 0 else int (the (m (drop 7 f))))"
    if "f \<in> dom (counter_hash m t)" for f
  proof (cases "f = ''total''")
    case True
    then show ?thesis by simp
  next
    case False
    with that dom_counter_hash obtain p where p: "f = dialog_field p" "p \<in> dom m" by blast
    then obtain n where n: "m p = Some n" by blast
    have "exact_number (int n)"
      using count_le_unread [of m p] holds cnt n by (auto simp: counter_holds_def count_of_def exact_number_def)
    with p n show ?thesis by (simp add: number_or_0_def tonumber_int)
  qed
  have "(\<Sum>x \<leftarrow> ps. ?w x) = (\<Sum>x \<in> set ps. ?w x)" using dist by (simp add: sum_list_distinct_conv_sum_set)
  also have "set ps = (\<lambda>f. (f, the (counter_hash m t f))) ` dom (counter_hash m t)"
    using set_ps by (force simp: image_iff)
  also have "(\<Sum>x \<in> \<dots>. ?w x) = (\<Sum>f \<in> dom (counter_hash m t). ?w (f, the (counter_hash m t f)))"
    by (subst sum.reindex) (auto simp: inj_on_def)
  also have "\<dots> = (\<Sum>f \<in> dom (counter_hash m t). if f = ''total'' then 0 else int (the (m (drop 7 f))))"
    by (rule sum.cong [OF refl weight])
  also have "\<dots> = (\<Sum>f \<in> dom (counter_hash m t) - {''total''}. int (the (m (drop 7 f))))"
  proof -
    have "finite (dom (counter_hash m t))"
      using finite_dom_map_of [of ps] by (simp add: ps(3))
    then show ?thesis by (simp add: sum.If_cases Diff_eq Compl_eq)
  qed
  also have "\<dots> = (\<Sum>p \<in> dom m. int (the (m p)))"
    unfolding dom_counter_hash by (subst sum.reindex) (auto simp: inj_on_def)
  also have "\<dots> = int (unread m)" by (simp add: unread_def)
  finally show ?thesis by (simp add: ps(1) loop_sum)
qed

lemma reconcile_run:
  assumes "counter_holds R r u m t" and "exact_number (int (unread m))"
  shows "fst (counter_reconcile_user R U u r) = Inr (int (unread m))
    \<and> counter_holds R (snd (counter_reconcile_user R U u r)) u m (Some (int (unread m)))"
  using assms holds_put_total [OF assms]
  by (simp add: counter_reconcile_user_def bind_def Let_def loop_unread)

end

section \<open>The service on the whole store\<close>

lemma counter_call_ok:
  "faults w = [] \<Longrightarrow> counter_call f w = (fst (f (counter_redis w)), w\<lparr>counter_redis := snd (f (counter_redis w))\<rparr>)"
  by (simp add: counter_call_def split: prod.splits)

context chat_env
begin

lemma sent_event_round:
  "sum_bind (json_from_string L (message_sent_event L a b)) (\<lambda>json.
       sum_bind (field_string json ''to_user_id'') (\<lambda>to_user_id.
       sum_bind (field_string json ''from_user_id'') (\<lambda>from_user_id. Inr (to_user_id, from_user_id))))
   = Inr (b, a)"
proof -
  let ?fs = "[(''from_user_id'', JString a), (''to_user_id'', JString b)]"
  have "flat_object ?fs" by (simp add: flat_object_def)
  from json_round [OF this] obtain gs
    where gs: "json_load L (message_sent_event L a b) = Some (JObject gs)" "map_of gs = map_of ?fs"
    by (auto simp: message_sent_event_def)
  show ?thesis
    by (simp add: json_from_string_def gs(1) field_string_cong [OF gs(2)]) (simp add: field_string_def)
qed

lemma consume_first_only:
  "CounterConsumer_Process L R (message_sent_event L a b)
   = bind (counter_call (\<lambda>r. r_hincrby R r (counter_key b) ''total'' 1)) (\<lambda>_.
     bind (counter_call (\<lambda>r. r_hincrby R r (counter_key b) (dialog_field a) 1)) (\<lambda>_. ret ()))"
  by (simp add: CounterConsumer_Process_def sent_event_round bind_def Let_def fun_eq_iff)

lemma consume_run:
  assumes "faults w = []" and "counter_holds R (counter_redis w) b m t"
    and "in_int64 (total_of t)" and "in_int64 (total_of t + 1)" and "in_int64 (int (Suc (count_of m a)))"
  shows "\<exists>r. CounterConsumer_Process L R (message_sent_event L a b) w = (Inr (), w\<lparr>counter_redis := r\<rparr>)
    \<and> counter_holds R r b (m(a \<mapsto> Suc (count_of m a))) (Some (total_of t + 1))
    \<and> (\<forall>v n s. v \<noteq> b \<longrightarrow> counter_holds R (counter_redis w) v n s \<longrightarrow> counter_holds R r v n s)"
proof -
  let ?r1 = "snd (r_hincrby R (counter_redis w) (counter_key b) ''total'' 1)"
  let ?r2 = "snd (r_hincrby R ?r1 (counter_key b) (dialog_field a) 1)"
  note total = holds_incr_total [OF assms(2-4)]
  from holds_incr_dialog [OF conjunct2 [OF total] assms(5)] total
  have "CounterConsumer_Process L R (message_sent_event L a b) w = (Inr (), w\<lparr>counter_redis := ?r2\<rparr>)
    \<and> counter_holds R ?r2 b (m(a \<mapsto> Suc (count_of m a))) (Some (total_of t + 1))"
    using assms(1) by (simp add: consume_first_only bind_def counter_call_ok)
  then show ?thesis using holds_other_user(2) by blast
qed

lemma reset_other:
  assumes "counter_holds R r v m t" and "v \<noteq> u"
  shows "counter_holds R (snd (counter_reset_dialog R U u p r)) v m t"
  using holds_other_user [OF _ assms(2)] assms(1)
  by (auto simp: counter_reset_dialog_def bind_def Let_def split: prod.split sum.split) (metis snd_conv)+

lemma reconcile_other:
  assumes "counter_holds R r v m t" and "v \<noteq> u"
  shows "counter_holds R (snd (counter_reconcile_user R U u r)) v m t"
  using holds_other_user(1) [OF assms]
  by (simp add: counter_reconcile_user_def bind_def Let_def)

lemma unread_run:
  assumes "faults w = []" and "counter_holds R (counter_redis w) u m t" and "in_int64 (total_of t)"
  shows "GetUnreadCount R [(''x-user-id'', u)] w = (Inr (total_of t), w)"
  using assms holds_hget(1) [OF assms(2)]
  by (cases t) (simp_all add: GetUnreadCount_def ExtractUserId_def bind_def counter_call_ok total_of_def)

end

text \<open>The steps of the service, and the abstract counters they implement.\<close>

datatype counter_event =
    Message_Sent string string
  | Dialog_Read string string
  | Reconcile_User string

fun serve_counter ::
  "lib \<Rightarrow> 'r redis \<Rightarrow> lua \<Rightarrow> counter_event \<Rightarrow> ('r, 'z) dialog_world_scheme \<Rightarrow> ('r, 'z) dialog_world_scheme"
where
  "serve_counter L R U (Message_Sent sender receiver) w =
     snd (CounterConsumer_Process L R (message_sent_event L sender receiver) w)"
| "serve_counter L R U (Dialog_Read user partner) w =
     snd (ResetDialogCounter R U [(''x-user-id'', user)] partner w)"
| "serve_counter L R U (Reconcile_User user) w =
     snd (RunReconciliation R U [(''0'', [counter_key user])] w)"

fun spec_counter :: "counter_event \<Rightarrow> (string \<Rightarrow> counts) \<Rightarrow> string \<Rightarrow> counts" where
  "spec_counter (Message_Sent sender receiver) a =
     a(receiver := (a receiver)(sender \<mapsto> Suc (count_of (a receiver) sender)))"
| "spec_counter (Dialog_Read user partner) a = a(user := reset_counts (a user) partner)"
| "spec_counter (Reconcile_User user) a = a"

text \<open>The store implements the abstract counters: each total is the sum of its dialogs.\<close>

definition counters_refine :: "'r redis \<Rightarrow> 'r \<Rightarrow> (string \<Rightarrow> counts) \<Rightarrow> bool" where
  "counters_refine R r a \<longleftrightarrow> (\<forall>u. \<exists>t. counter_holds R r u (a u) t \<and> total_of t = int (unread (a u)))"

lemma counters_refineI:
  assumes "counters_refine R r a" and "\<And>v. v \<noteq> u \<Longrightarrow> a' v = a v"
    and "\<And>v m t. v \<noteq> u \<Longrightarrow> counter_holds R r v m t \<Longrightarrow> counter_holds R r' v m t"
    and "counter_holds R r' u (a' u) t" and "total_of t = int (unread (a' u))"
  shows "counters_refine R r' a'"
  using assms unfolding counters_refine_def by metis

lemma unread_suc:
  assumes "finite (dom m)"
  shows "unread (m(p \<mapsto> Suc (count_of m p))) = Suc (unread m)"
  using unread_update [OF assms, of p "Suc (count_of m p)"] by simp

lemma unread_reset:
  assumes "finite (dom m)"
  shows "int (unread (reset_counts m p)) = int (unread m) - int (count_of m p)"
  using unread_update [OF assms, of p 0] by (simp add: reset_counts_def)

context chat_env
begin

lemma serve_refines:
  fixes w :: "('r, 'z) dialog_world_scheme"
  assumes f: "faults w = []" and ref: "counters_refine R (counter_redis w) a"
    and bound: "\<And>u. int (unread (a u)) + 1 < 2 ^ 53"
  shows "\<exists>r. serve_counter L R U e w = w\<lparr>counter_redis := r\<rparr> \<and> counters_refine R r (spec_counter e a)"
proof -
  have each: "\<exists>t. counter_holds R (counter_redis w) u (a u) t \<and> total_of t = int (unread (a u))" for u
    using ref unfolding counters_refine_def by blast
  have cnt: "int (count_of (a u) p) \<le> int (unread (a u))" for u p
    using each [of u] count_le_unread by (auto simp: counter_holds_def)
  have exact: "exact_number (int (unread (a u)))" "exact_number (int (count_of (a u) p))" for u p
    using bound [of u] cnt [of u p] by (auto simp: exact_number_def)
  show ?thesis
  proof (cases e)
    case (Message_Sent p u)
    obtain t where t: "counter_holds R (counter_redis w) u (a u) t" "total_of t = int (unread (a u))"
      using each by blast
    have "in_int64 (total_of t)" "in_int64 (total_of t + 1)" "in_int64 (int (Suc (count_of (a u) p)))"
      using bound [of u] cnt [of u p] by (auto simp: t(2) in_int64_def)
    from consume_run [OF f t(1) this] obtain r where r:
      "CounterConsumer_Process L R (message_sent_event L p u) w = (Inr (), w\<lparr>counter_redis := r\<rparr>)"
      "counter_holds R r u ((a u)(p \<mapsto> Suc (count_of (a u) p))) (Some (total_of t + 1))"
      "\<forall>v n s. v \<noteq> u \<longrightarrow> counter_holds R (counter_redis w) v n s \<longrightarrow> counter_holds R r v n s"
      by blast
    have "finite (dom (a u))" using t(1) by (simp add: counter_holds_def)
    then have "counters_refine R r (spec_counter e a)"
      using r Message_Sent t(2)
      by (intro counters_refineI [OF ref, of u _ _ "Some (total_of t + 1)"])
        (simp_all add: unread_suc total_of_def)
    with r(1) Message_Sent show ?thesis by (intro exI [of _ r]) simp
  next
    case (Dialog_Read u p)
    obtain t where t: "counter_holds R (counter_redis w) u (a u) t" "total_of t = int (unread (a u))"
      using each by blast
    let ?r = "snd (counter_reset_dialog R U u p (counter_redis w))"
    have run: "counter_holds R ?r u (reset_counts (a u) p) (reset_total (a u) t p)"
      using reset_run [OF t(1), of p] exact t(2) by simp
    have "finite (dom (a u))" using t(1) by (simp add: counter_holds_def)
    then have "total_of (reset_total (a u) t p) = int (unread (reset_counts (a u) p))"
      using t(2) cnt [of u p] by (simp add: reset_total_def unread_reset total_of_def)
    with run have "counters_refine R ?r (spec_counter e a)"
      using Dialog_Read reset_other by (intro counters_refineI [OF ref, of u _ _ "reset_total (a u) t p"]) simp_all
    with f Dialog_Read show ?thesis
      by (intro exI [of _ ?r]) (simp add: ResetDialogCounter_def ExtractUserId_def bind_def counter_call_ok)
  next
    case (Reconcile_User u)
    obtain t where t: "counter_holds R (counter_redis w) u (a u) t" "total_of t = int (unread (a u))"
      using each by blast
    let ?r = "snd (counter_reconcile_user R U u (counter_redis w))"
    have run: "fst (counter_reconcile_user R U u (counter_redis w)) = Inr (int (unread (a u)))"
      "counter_holds R ?r u (a u) (Some (int (unread (a u))))"
      using reconcile_run [OF t(1) exact(1)] by simp_all
    then have "counters_refine R ?r (spec_counter e a)"
      using Reconcile_User reconcile_other
      by (intro counters_refineI [OF ref, of u _ _ "Some (int (unread (a u)))"]) (simp_all add: total_of_def)
    with f Reconcile_User run(1) show ?thesis
      by (intro exI [of _ ?r]) (simp add: reconcile_entry_def user_of_key_def counter_key_def bind_def counter_call_ok try_catch_def)
  qed
qed

end

section \<open>Histories and reconciliation runs\<close>

lemma finite_spec_step: "finite (dom (a u)) \<Longrightarrow> finite (dom (spec_counter e a u))"
  by (cases e) (auto simp: reset_counts_def)

lemma unread_spec_step:
  assumes "\<And>u. finite (dom (a u))"
  shows "unread (spec_counter e a u) \<le> Suc (unread (a u))"
proof (cases e)
  case (Message_Sent p v)
  then show ?thesis using unread_suc [OF assms, of u p] by (cases "u = v") simp_all
next
  case (Dialog_Read v p)
  then show ?thesis using unread_reset [OF assms, of u p] by (cases "u = v") simp_all
qed simp

lemma unread_history:
  "(\<And>u. finite (dom (a u))) \<Longrightarrow> unread (fold spec_counter es a u) \<le> unread (a u) + length es"
proof (induction es arbitrary: a)
  case Nil
  then show ?case by simp
next
  case (Cons e es)
  have "unread (fold spec_counter es (spec_counter e a) u) \<le> unread (spec_counter e a u) + length es"
    by (rule Cons.IH) (rule finite_spec_step [OF Cons.prems])
  with unread_spec_step [of a e u, OF Cons.prems] show ?case by simp
qed

context chat_env
begin

lemma refine_finite: "counters_refine R r a \<Longrightarrow> finite (dom (a u))"
  unfolding counters_refine_def counter_holds_def by blast

lemma history_refines:
  fixes w :: "('r, 'z) dialog_world_scheme"
  assumes "faults w = []" and "counters_refine R (counter_redis w) a"
    and "\<And>u. int (unread (a u)) + int (length es) < 2 ^ 53"
  shows "faults (fold (serve_counter L R U) es w) = []
    \<and> counters_refine R (counter_redis (fold (serve_counter L R U) es w)) (fold spec_counter es a)"
  using assms
proof (induction es arbitrary: w a)
  case Nil
  then show ?case by simp
next
  case (Cons e es)
  have "int (unread (a u)) + 1 < 2 ^ 53" for u using Cons.prems(3) [of u] by simp
  from serve_refines [OF Cons.prems(1,2) this, of e] obtain r
    where r: "serve_counter L R U e w = w\<lparr>counter_redis := r\<rparr>" "counters_refine R r (spec_counter e a)"
    by blast
  have "int (unread (spec_counter e a u)) + int (length es) < 2 ^ 53" for u
    using unread_spec_step [of a e u, OF refine_finite [OF Cons.prems(2)]] Cons.prems(3) [of u] by simp
  from Cons.IH [OF _ _ this, of "w\<lparr>counter_redis := r\<rparr>"] r Cons.prems(1) show ?case by simp
qed

lemma reconcile_key:
  fixes w :: "('r, 'z) dialog_world_scheme"
  assumes "faults w = []" and "exact_number (int (unread m))"
    and "counter_holds R (counter_redis w) u m t"
  shows "\<exists>r. reconcile_entry R U (counter_key v) w
     = (Inr (), w\<lparr>counter_redis := r\<rparr>)
   \<and> counter_holds R r u m (if v = u then Some (int (unread m)) else t)"
proof -
  let ?r = "snd (counter_reconcile_user R U v (counter_redis w))"
  have "counter_holds R ?r u m (if v = u then Some (int (unread m)) else t)"
    using reconcile_run [OF assms(3,2)] reconcile_other [OF assms(3), of v] by auto
  then show ?thesis
    using assms(1)
    by (intro exI [of _ ?r]) (auto simp: reconcile_entry_def user_of_key_def counter_key_def bind_def counter_call_ok try_catch_def
        split: sum.split)
qed

lemma reconcile_page:
  fixes w :: "('r, 'z) dialog_world_scheme"
  assumes "faults w = []" and "exact_number (int (unread m))"
    and "counter_holds R (counter_redis w) u m t" and "\<forall>key \<in> set keys. \<exists>v. key = counter_key v"
  shows "\<exists>r. for_each keys (reconcile_entry R U) w
     = (Inr (), w\<lparr>counter_redis := r\<rparr>)
   \<and> counter_holds R r u m (if counter_key u \<in> set keys then Some (int (unread m)) else t)"
  using assms
proof (induction keys arbitrary: w t)
  case Nil
  then show ?case by (intro exI [of _ "counter_redis w"]) simp
next
  case (Cons key keys)
  then obtain v where v: "key = counter_key v" by auto
  from reconcile_key [OF Cons.prems(1-3), of v] obtain r where
    r: "reconcile_entry R U key w
     = (Inr (), w\<lparr>counter_redis := r\<rparr>)"
    "counter_holds R r u m (if v = u then Some (int (unread m)) else t)"
    unfolding v by blast
  have f: "faults (w\<lparr>counter_redis := r\<rparr>) = []" and h: "counter_holds R (counter_redis (w\<lparr>counter_redis := r\<rparr>)) u m
      (if v = u then Some (int (unread m)) else t)"
    using Cons.prems(1) r(2) by simp_all
  have "\<forall>key \<in> set keys. \<exists>v. key = counter_key v" using Cons.prems(4) by simp
  from Cons.IH [OF f Cons.prems(2) h this] obtain r' where
    r': "for_each keys (reconcile_entry R U)
         (w\<lparr>counter_redis := r\<rparr>) = (Inr (), w\<lparr>counter_redis := r'\<rparr>)"
    "counter_holds R r' u m (if counter_key u \<in> set keys then Some (int (unread m)) else if v = u then Some (int (unread m)) else t)"
    by (auto simp del: for_each.simps)
  show ?case
    using r(1) r' by (intro exI [of _ r']) (auto simp: bind_def v counter_key_inject split: if_splits)
qed

text \<open>A whole run reconciles every user whose key a page contains.\<close>

lemma run_reconciles:
  fixes w :: "('r, 'z) dialog_world_scheme"
  assumes "faults w = []" and "exact_number (int (unread m))" and "counter_holds R (counter_redis w) u m t"
    and "\<forall>(c, keys) \<in> set replies. \<forall>key \<in> set keys. \<exists>v. key = counter_key v"
    and "\<forall>(c, keys) \<in> set (butlast replies). c \<noteq> ''0''"
  shows "\<exists>r. RunReconciliation R U replies w = (Inr (), w\<lparr>counter_redis := r\<rparr>)
    \<and> counter_holds R r u m (if \<exists>(c, keys) \<in> set replies. counter_key u \<in> set keys then Some (int (unread m)) else t)"
  using assms
proof (induction replies arbitrary: w t)
  case Nil
  then show ?case by (intro exI [of _ "counter_redis w"]) simp
next
  case (Cons reply replies)
  obtain c keys where reply: "reply = (c, keys)" by fastforce
  have "\<forall>key \<in> set keys. \<exists>v. key = counter_key v" using Cons.prems(4) by (simp add: reply)
  from reconcile_page [OF Cons.prems(1-3) this] obtain r where
    r: "for_each keys (reconcile_entry R U) w
     = (Inr (), w\<lparr>counter_redis := r\<rparr>)"
    "counter_holds R r u m (if counter_key u \<in> set keys then Some (int (unread m)) else t)"
    by blast
  have scan: "counter_call (ret ()) w = (Inr (), w)"
    using Cons.prems(1) by (simp add: counter_call_ok)
  show ?case
  proof (cases "replies = []")
    case True
    with r scan show ?thesis
      by (intro exI [of _ r]) (simp add: reply bind_def)
  next
    case False
    then have c: "c \<noteq> ''0''" and rest: "\<forall>(c, keys) \<in> set (butlast replies). c \<noteq> ''0''"
      using Cons.prems(5) by (auto simp: reply)
    have keys: "\<forall>(c, keys) \<in> set replies. \<forall>key \<in> set keys. \<exists>v. key = counter_key v"
      using Cons.prems(4) by simp
    have f: "faults (w\<lparr>counter_redis := r\<rparr>) = []" and h: "counter_holds R (counter_redis (w\<lparr>counter_redis := r\<rparr>)) u m
        (if counter_key u \<in> set keys then Some (int (unread m)) else t)"
      using Cons.prems(1) r(2) by simp_all
    obtain r' where
      r': "RunReconciliation R U replies (w\<lparr>counter_redis := r\<rparr>) = (Inr (), w\<lparr>counter_redis := r'\<rparr>)"
      "counter_holds R r' u m (if \<exists>(c, keys) \<in> set replies. counter_key u \<in> set keys then Some (int (unread m))
          else if counter_key u \<in> set keys then Some (int (unread m)) else t)"
      using Cons.IH [OF f Cons.prems(2) h keys rest] by (auto simp del: for_each.simps RunReconciliation.simps)
    show ?thesis
      using r(1) scan r' c by (intro exI [of _ r']) (auto simp: reply bind_def split: if_splits)
  qed
qed

end

section \<open>Properties\<close>

lemma empty_counters: "counters_refine ref_redis empty_keyspace (\<lambda>_. Map.empty)"
  unfolding counters_refine_def
proof
  fix u
  have "counter_holds ref_redis empty_keyspace u Map.empty None"
    by (auto simp: counter_holds_def ref_redis_def empty_keyspace_def counter_hash_def fun_eq_iff)
  then show "\<exists>t. counter_holds ref_redis empty_keyspace u Map.empty t \<and> total_of t = int (unread Map.empty)"
    by (intro exI [of _ None]) (simp add: total_of_def unread_def)
qed

text \<open>
  C4. Counters refine their specification. After any sequence of consumed messages, dialogs read
  and reconciliations from a store that implements the counts \<open>a\<close>, in which no call fails,
  the store implements the counts that the specification computes, and the unread count of every
  user is the sum of that user's dialogs. The bound keeps the numbers within the exact range of
  Lua.
\<close>

theorem counters_refine_specification:
  fixes w :: "('r, 'z) dialog_world_scheme"
  assumes "chat_env L R U" and "faults w = []" and "counters_refine R (counter_redis w) a"
    and "\<And>u. int (unread (a u)) + int (length es) < 2 ^ 53"
  shows "counters_refine R (counter_redis (fold (serve_counter L R U) es w)) (fold spec_counter es a)
    \<and> fst (GetUnreadCount R [(''x-user-id'', u)] (fold (serve_counter L R U) es w))
      = Inr (int (unread (fold spec_counter es a u)))"
proof -
  let ?w = "fold (serve_counter L R U) es w"
  have h: "faults ?w = []" "counters_refine R (counter_redis ?w) (fold spec_counter es a)"
    using chat_env.history_refines [OF assms] by blast+
  then obtain t where t: "counter_holds R (counter_redis ?w) u (fold spec_counter es a u) t"
    "total_of t = int (unread (fold spec_counter es a u))"
    unfolding counters_refine_def by blast
  have grow: "unread (fold spec_counter es a u) \<le> unread (a u) + length es"
    using chat_env.refine_finite [OF assms(1,3)]
    by (rule unread_history)
  have "in_int64 (total_of t)"
    using grow assms(4) [of u] by (simp add: t(2) in_int64_def)
  with chat_env.unread_run [OF assms(1) h(1) t(1)] h(2) t(2) show ?thesis by simp
qed

theorem counters_refine_specification_witness:
  "fst (GetUnreadCount ref_redis [(''x-user-id'', ''bob'')]
     (fold (serve_counter ref_lib ref_redis ref_lua)
        [Message_Sent ''eve'' ''bob'', Message_Sent ''ann'' ''bob'', Message_Sent ''eve'' ''bob'',
         Dialog_Read ''bob'' ''eve'', Reconcile_User ''bob''] sample_dialogs)) = Inr 1"
proof -
  let ?es = "[Message_Sent ''eve'' ''bob'', Message_Sent ''ann'' ''bob'', Message_Sent ''eve'' ''bob'',
         Dialog_Read ''bob'' ''eve'', Reconcile_User ''bob'']"
  have "fold spec_counter ?es (\<lambda>_. Map.empty) ''bob'' = [''eve'' \<mapsto> 0, ''ann'' \<mapsto> Suc 0]"
    by (auto simp: reset_counts_def count_of_def fun_eq_iff)
  moreover have "unread [''eve'' \<mapsto> 0, ''ann'' \<mapsto> Suc 0] = 1"
    by (simp add: unread_def)
  moreover have "counters_refine ref_redis (counter_redis sample_dialogs) (\<lambda>_. Map.empty)"
    using empty_counters by simp
  moreover have "int (unread Map.empty) + int (length ?es) < 2 ^ 53"
    by (simp add: unread_def)
  ultimately show ?thesis
    using counters_refine_specification [OF ref_chat_axioms, of sample_dialogs "\<lambda>_. Map.empty" ?es "''bob''"]
    by (simp del: fold_simps)
qed

text \<open>
  Reading a dialog. The reset returns the dialog's count, zeroes that dialog, takes the count
  off the total without going below zero, and changes no other dialog and no other user.
\<close>

lemma reset_clears_dialog:
  fixes w :: "('r, 'z) dialog_world_scheme"
  assumes "chat_env L R U" and "faults w = []" and "counter_holds R (counter_redis w) u m t"
    and "exact_number (int (count_of m p))" and "0 \<le> total_of t" and "exact_number (total_of t)"
  shows "\<exists>r. ResetDialogCounter R U [(''x-user-id'', u)] p w = (Inr (int (count_of m p)), w\<lparr>counter_redis := r\<rparr>)
    \<and> counter_holds R r u (reset_counts m p) (reset_total m t p)
    \<and> count_of (reset_counts m p) p = 0 \<and> (q \<noteq> p \<longrightarrow> count_of (reset_counts m p) q = count_of m q)
    \<and> total_of (reset_total m t p) = max 0 (total_of t - int (count_of m p))
    \<and> (\<forall>v n s. v \<noteq> u \<longrightarrow> counter_holds R (counter_redis w) v n s \<longrightarrow> counter_holds R r v n s)"
proof -
  let ?r = "snd (counter_reset_dialog R U u p (counter_redis w))"
  have "ResetDialogCounter R U [(''x-user-id'', u)] p w = (Inr (int (count_of m p)), w\<lparr>counter_redis := ?r\<rparr>)"
    using assms(2) chat_env.reset_run [OF assms(1,3-6)]
    by (simp add: ResetDialogCounter_def ExtractUserId_def bind_def counter_call_ok)
  moreover have "total_of (reset_total m t p) = max 0 (total_of t - int (count_of m p))"
    using assms(5) by (simp add: reset_total_def total_of_def)
  ultimately show ?thesis
    using chat_env.reset_run [OF assms(1,3-6)] chat_env.reset_other [OF assms(1)]
    by (intro exI [of _ ?r]) (auto simp: reset_counts_def count_of_upd)
qed

lemma reset_clears_dialog_example:
  "fst (ResetDialogCounter ref_redis ref_lua [(''x-user-id'', ''bob'')] ''eve'' sample_dialogs) = Inr 0"
proof -
  have h: "counter_holds ref_redis (counter_redis sample_dialogs) ''bob'' Map.empty None"
    by (auto simp: counter_holds_def ref_redis_def empty_keyspace_def counter_hash_def fun_eq_iff)
  have "exact_number (int (count_of Map.empty ''eve''))" "exact_number (total_of None)" "0 \<le> total_of None"
    "faults sample_dialogs = []"
    by (simp_all add: count_of_def total_of_def exact_number_def)
  from reset_clears_dialog [where q = "''ann''", OF ref_chat_axioms this(4) h this(1,3,2)]
  obtain r where "ResetDialogCounter ref_redis ref_lua [(''x-user-id'', ''bob'')] ''eve'' sample_dialogs
      = (Inr (int (count_of Map.empty ''eve'')), sample_dialogs\<lparr>counter_redis := r\<rparr>)"
    by blast
  then show ?thesis by (simp add: count_of_def)
qed

text \<open>
  Reconciliation. A run in which no call fails makes the total of every user whose key some
  page contains the sum of that user's dialogs, whatever it was before, and leaves the dialogs.
\<close>

lemma reconciliation_restores_totals:
  fixes w :: "('r, 'z) dialog_world_scheme"
  assumes "chat_env L R U" and "faults w = []" and "exact_number (int (unread m))"
    and "counter_holds R (counter_redis w) u m t"
    and "\<forall>(c, keys) \<in> set replies. \<forall>key \<in> set keys. \<exists>v. key = counter_key v"
    and "\<forall>(c, keys) \<in> set (butlast replies). c \<noteq> ''0''"
    and "(c, keys) \<in> set replies" and "counter_key u \<in> set keys"
  shows "\<exists>w'. RunReconciliation R U replies w = (Inr (), w')
    \<and> counter_holds R (counter_redis w') u m (Some (int (unread m)))
    \<and> fst (GetUnreadCount R [(''x-user-id'', u)] w') = Inr (int (unread m))"
proof -
  have "\<exists>(c, keys) \<in> set replies. counter_key u \<in> set keys" using assms(7,8) by blast
  with chat_env.run_reconciles [OF assms(1-6)] obtain r where
    r: "RunReconciliation R U replies w = (Inr (), w\<lparr>counter_redis := r\<rparr>)"
    "counter_holds R r u m (Some (int (unread m)))"
    by auto
  have "in_int64 (int (unread m))" using assms(3) by (rule exact_in_int64)
  with chat_env.unread_run [OF assms(1), of "w\<lparr>counter_redis := r\<rparr>" u m "Some (int (unread m))"] r assms(2)
  show ?thesis by (simp add: total_of_def)
qed

lemma reconciliation_restores_totals_example:
  "fst (GetUnreadCount ref_redis [(''x-user-id'', ''bob'')]
     (snd (RunReconciliation ref_redis ref_lua [(''17'', []), (''0'', [counter_key ''bob''])] sample_dialogs))) = Inr 0"
proof -
  have h: "counter_holds ref_redis (counter_redis sample_dialogs) ''bob'' Map.empty None"
    by (auto simp: counter_holds_def ref_redis_def empty_keyspace_def counter_hash_def fun_eq_iff)
  let ?replies = "[(''17'', []), (''0'', [counter_key ''bob''])]"
  have e: "exact_number (int (unread Map.empty))" "unread Map.empty = 0"
    by (simp_all add: unread_def exact_number_def)
  have pages: "\<forall>(c, keys) \<in> set ?replies. \<forall>key \<in> set keys. \<exists>v. key = counter_key v"
    "\<forall>(c, keys) \<in> set (butlast ?replies). c \<noteq> ''0''" "(''0'', [counter_key ''bob'']) \<in> set ?replies"
    "counter_key ''bob'' \<in> set [counter_key ''bob'']" "faults sample_dialogs = []"
    by auto
  from reconciliation_restores_totals [OF ref_chat_axioms pages(5) e(1) h pages(1-4)]
  obtain w' where w': "RunReconciliation ref_redis ref_lua ?replies sample_dialogs = (Inr (), w')"
    "fst (GetUnreadCount ref_redis [(''x-user-id'', ''bob'')] w') = Inr (int (unread Map.empty))"
    by blast
  show ?thesis unfolding w'(1) using w'(2) e(2) by simp
qed

text \<open>
  A half-processed event. The consumer counts in the total before it counts in the dialog. When
  the second command fails, the redelivered event is counted twice in the total and once in the
  dialog: the total is off by one until a reconciliation, which makes it the sum of the dialogs.
\<close>

lemma partial_failure_drifts_until_reconciled:
  fixes w :: "('r, 'z) dialog_world_scheme"
  assumes "chat_env L R U" and "faults w = [No_Fault, Fail_Before]"
    and "counter_holds R (counter_redis w) u m t" and "total_of t = int (unread m)"
    and "int (unread m) + 2 < 2 ^ 53"
    and "process = CounterConsumer_Process L R (message_sent_event L p u)"
    and "m' = m(p \<mapsto> Suc (count_of m p))"
    and "w' = snd (process (snd (process w)))"
  shows "fst (process w) = Inl (ServiceError ''redis'') \<and> fst (process (snd (process w))) = Inr ()
    \<and> counter_holds R (counter_redis w') u m' (Some (int (unread m') + 1))
    \<and> counter_holds R (counter_redis (snd (RunReconciliation R U [(''0'', [counter_key u])] w'))) u m' (Some (int (unread m')))"
proof -
  have fin: "finite (dom m)" using assms(3) by (simp add: counter_holds_def)
  have un: "unread m' = Suc (unread m)" unfolding assms(7) by (rule unread_suc [OF fin])
  have cnt: "int (count_of m p) \<le> int (unread m)" using count_le_unread [OF fin] by simp
  have bounds: "in_int64 (total_of t)" "in_int64 (total_of t + 1)" "in_int64 (total_of t + 1 + 1)"
    "in_int64 (int (Suc (count_of m p)))"
    using assms(4,5) cnt by (simp_all add: in_int64_def)
  let ?r = "snd (r_hincrby R (counter_redis w) (counter_key u) ''total'' 1)"
  let ?w = "w\<lparr>faults := [], counter_redis := ?r\<rparr>"
  note first = chat_env.holds_incr_total [OF assms(1,3) bounds(1,2)]
  have p1: "process w = (Inl (ServiceError ''redis''), ?w)"
    using first assms(2) unfolding assms(6) chat_env.consume_first_only [OF assms(1)]
    by (cases "r_hincrby R (counter_redis w) (counter_key u) ''total'' 1")
      (simp add: bind_def counter_call_def ext_def Let_def)
  have h1: "counter_holds R (counter_redis ?w) u m (Some (total_of t + 1))" using first by simp
  have some: "total_of (Some x) = x" for x by (simp add: total_of_def)
  from chat_env.consume_run [OF assms(1) _ h1, unfolded some, OF _ bounds(2-4)]
  obtain r where r: "process ?w = (Inr (), ?w\<lparr>counter_redis := r\<rparr>)"
    "counter_holds R r u m' (Some (total_of t + 1 + 1))"
    unfolding assms(6,7) by auto
  have w': "w' = ?w\<lparr>counter_redis := r\<rparr>" using assms(8) p1 r(1) by simp
  have h2: "counter_holds R (counter_redis w') u m' (Some (int (unread m') + 1))"
    using r(2) un assms(4) by (simp add: w' add.commute)
  have f: "faults w' = []" by (simp add: w')
  have "exact_number (int (unread m'))" using assms(5) un by (simp add: exact_number_def)
  moreover have "\<exists>v. counter_key u = counter_key v" by blast
  ultimately have "counter_holds R (counter_redis (snd (RunReconciliation R U [(''0'', [counter_key u])] w'))) u m' (Some (int (unread m')))"
    using chat_env.run_reconciles [OF assms(1) f _ h2, of "[(''0'', [counter_key u])]"]
    by (auto simp del: RunReconciliation.simps)
  with p1 r(1) h2 show ?thesis by simp
qed

lemma partial_failure_drifts_until_reconciled_witness:
  "fst (CounterConsumer_Process ref_lib ref_redis (message_sent_event ref_lib ''eve'' ''bob'')
     (sample_dialogs\<lparr>faults := [No_Fault, Fail_Before]\<rparr>)) = Inl (ServiceError ''redis'')"
proof -
  have h: "counter_holds ref_redis (counter_redis (sample_dialogs\<lparr>faults := [No_Fault, Fail_Before]\<rparr>)) ''bob'' Map.empty None"
    by (auto simp: counter_holds_def ref_redis_def empty_keyspace_def counter_hash_def fun_eq_iff)
  from partial_failure_drifts_until_reconciled [OF ref_chat_axioms _ h _ _ refl refl refl, of "''eve''"] show ?thesis
    by (simp add: total_of_def unread_def)
qed

text \<open>
  A reset that fails is not repaired. When the reset does not reach Redis, a reconciliation
  sums the unchanged dialog fields: the count of the dialog that was read stays in the total.
\<close>

lemma failed_reset_survives_reconciliation:
  fixes w :: "('r, 'z) dialog_world_scheme"
  assumes "chat_env L R U" and "faults w = [Fail_Before]" and "counter_holds R (counter_redis w) u m t"
    and "exact_number (int (unread m))"
    and "w' = snd (RunReconciliation R U [(''0'', [counter_key u])] (snd (ResetDialogCounter R U [(''x-user-id'', u)] p w)))"
  shows "fst (ResetDialogCounter R U [(''x-user-id'', u)] p w) = Inl (ServiceError ''redis'')
    \<and> counter_holds R (counter_redis w') u m (Some (int (unread m)))
    \<and> int (count_of m p) \<le> int (unread m)"
proof -
  have r: "ResetDialogCounter R U [(''x-user-id'', u)] p w = (Inl (ServiceError ''redis''), w\<lparr>faults := []\<rparr>)"
    using assms(2) by (simp add: ResetDialogCounter_def ExtractUserId_def bind_def counter_call_def ext_def)
  have h: "counter_holds R (counter_redis (w\<lparr>faults := []\<rparr>)) u m t" using assms(3) by simp
  have "finite (dom m)" using assms(3) by (simp add: counter_holds_def)
  then have "count_of m p \<le> unread m" by (rule count_le_unread)
  moreover have "\<exists>v. counter_key u = counter_key v" by blast
  ultimately show ?thesis
    using chat_env.run_reconciles [OF assms(1) _ assms(4) h, of "[(''0'', [counter_key u])]"]
    unfolding assms(5) r by (auto simp del: RunReconciliation.simps)
qed

lemma failed_reset_survives_reconciliation_witness:
  "fst (ResetDialogCounter ref_redis ref_lua [(''x-user-id'', ''bob'')] ''eve'' (sample_dialogs\<lparr>faults := [Fail_Before]\<rparr>))
   = Inl (ServiceError ''redis'')"
proof -
  have h: "counter_holds ref_redis (counter_redis (sample_dialogs\<lparr>faults := [Fail_Before]\<rparr>)) ''bob'' Map.empty None"
    by (auto simp: counter_holds_def ref_redis_def empty_keyspace_def counter_hash_def fun_eq_iff)
  from failed_reset_survives_reconciliation [OF ref_chat_axioms _ h _ refl, of "''eve''"] show ?thesis
    by (simp add: unread_def exact_number_def)
qed

end
