(* ===== verification/Counter_Concurrency.thy ===== *)
theory Counter_Concurrency
  imports Counter_Service Concurrency
begin

text \<open>
  The counter service when its consumer, its calls and its reconciler overlap: each of them as a
  program that can be interrupted between its calls. The dialog counts are linearizable; the
  totals are not, and a reconciliation between the two increments of an event loses one.
\<close>

section \<open>The operations, call by call\<close>

definition CounterConsumer_Process_prog ::
  "lib \<Rightarrow> 'r redis \<Rightarrow> string \<Rightarrow> (('r, 'z) dialog_world_scheme, unit) prog"
where
  "CounterConsumer_Process_prog L R message =
     pbind (Done (sum_bind (json_from_string L message) (\<lambda>json.
       sum_bind (field_string json ''to_user_id'') (\<lambda>to_user_id.
       sum_bind (field_string json ''from_user_id'') (\<lambda>from_user_id. Inr (to_user_id, from_user_id))))))
     (\<lambda>(to_user_id, from_user_id).
     let hash_key = counter_key to_user_id; field = dialog_field from_user_id in
     pbind (atomic (counter_call (\<lambda>r. r_hincrby R r hash_key ''total'' 1))) (\<lambda>_.
     pbind (atomic (counter_call (\<lambda>r. r_hincrby R r hash_key field 1))) (\<lambda>_.
     pret ())))"

definition ResetDialogCounter_prog ::
  "'r redis \<Rightarrow> lua \<Rightarrow> metadata \<Rightarrow> string \<Rightarrow> (('r, 'z) dialog_world_scheme, int) prog"
where
  "ResetDialogCounter_prog R U meta partner_id =
     pbind (Done (ExtractUserId meta)) (\<lambda>user_id.
     atomic (counter_call (counter_reset_dialog R U user_id partner_id)))"

text \<open>An entry is one call of a Redis function.\<close>

fun RunReconciliation_prog ::
  "'r redis \<Rightarrow> lua \<Rightarrow> (string \<times> string list) list \<Rightarrow> (('r, 'z) dialog_world_scheme, unit) prog"
where
  "RunReconciliation_prog R U [] = pret ()"
| "RunReconciliation_prog R U ((cursor, keys) # replies) =
     pbind (atomic (counter_call (ret ()))) (\<lambda>_.
     pbind (pfor_each keys (\<lambda>key. atomic (reconcile_entry R U key))) (\<lambda>_.
     if cursor = ''0'' then pret () else RunReconciliation_prog R U replies))"

lemma counter_programs:
  fixes w :: "('r, 'z) dialog_world_scheme"
  shows "run (CounterConsumer_Process_prog L R message) w = CounterConsumer_Process L R message w"
    and "run (ResetDialogCounter_prog R U meta p) w = ResetDialogCounter R U meta p w"
    and "run (RunReconciliation_prog R U replies) w = RunReconciliation R U replies w"
proof -
  show "run (CounterConsumer_Process_prog L R message) w = CounterConsumer_Process L R message w"
    by (simp add: CounterConsumer_Process_prog_def CounterConsumer_Process_def Let_def case_prod_unfold del: pbind.simps)
  show "run (ResetDialogCounter_prog R U meta p) w = ResetDialogCounter R U meta p w"
    by (simp add: ResetDialogCounter_prog_def ResetDialogCounter_def del: pbind.simps)
  have "run (RunReconciliation_prog R U replies) = (RunReconciliation R U replies :: (('r, 'z) dialog_world_scheme, unit) eff)"
    by (induction R U replies rule: RunReconciliation.induct) (simp_all cong: if_cong)
  then show "run (RunReconciliation_prog R U replies) w = RunReconciliation R U replies w" by simp
qed

section \<open>Operations at once\<close>

fun counter_prog :: "lib \<Rightarrow> 'r redis \<Rightarrow> lua \<Rightarrow> counter_event \<Rightarrow> (('r, 'z) dialog_world_scheme, unit) prog" where
  "counter_prog L R U (Message_Sent sender receiver) =
     CounterConsumer_Process_prog L R (message_sent_event L sender receiver)"
| "counter_prog L R U (Dialog_Read user partner) =
     pbind (ResetDialogCounter_prog R U [(''x-user-id'', user)] partner) (\<lambda>_. pret ())"
| "counter_prog L R U (Reconcile_User user) = RunReconciliation_prog R U [(''0'', [counter_key user])]"

text \<open>The tasks, the state and the events of the tasks that are done, in the order of their last calls.\<close>

type_synonym 'r counter_tasks =
  "(nat \<rightharpoonup> counter_event \<times> ('r dialog_world, unit) prog) \<times> 'r dialog_world \<times> (nat \<times> counter_event) list"

fun is_done :: "('s, 'a) prog \<Rightarrow> bool" where
  "is_done (Done x) = True"
| "is_done (Call f) = False"

inductive counter_conc_step :: "lib \<Rightarrow> 'r redis \<Rightarrow> lua \<Rightarrow> 'r counter_tasks \<Rightarrow> 'r counter_tasks \<Rightarrow> bool"
  for L :: lib and R :: "'r redis" and U :: lua
where
  arrive: "tasks k = None \<Longrightarrow>
    counter_conc_step L R U (tasks, w, es) (tasks(k \<mapsto> (e, counter_prog L R U e)), w, es)"
| call: "tasks k = Some (e, Call f) \<Longrightarrow> f w = (w', p) \<Longrightarrow>
    counter_conc_step L R U (tasks, w, es) (tasks(k \<mapsto> (e, p)), w', if is_done p then es @ [(k, e)] else es)"
| elsewhere: "counter_redis w' = counter_redis w \<Longrightarrow> faults w' = [] \<Longrightarrow>
    counter_conc_step L R U (tasks, w, es) (tasks, w', es)"

definition counter_advance :: "nat \<Rightarrow> 'r counter_tasks \<Rightarrow> 'r counter_tasks" where
  "counter_advance k s = (case s of (tasks, w, es) \<Rightarrow>
     (case tasks k of
        Some (e, Call f) \<Rightarrow> (case f w of (w', p) \<Rightarrow> (tasks(k \<mapsto> (e, p)), w', if is_done p then es @ [(k, e)] else es))
      | _ \<Rightarrow> (tasks, w, es)))"

lemma counter_advance_step: "(counter_conc_step L R U)\<^sup>*\<^sup>* s (counter_advance k s)"
proof -
  obtain tasks w es where s: "s = (tasks, w, es)" by (cases s)
  show ?thesis
  proof (cases "\<exists>e f. tasks k = Some (e, Call f)")
    case True
    then obtain e f where task: "tasks k = Some (e, Call f)" by blast
    obtain w' p where f: "f w = (w', p)" by (cases "f w")
    from counter_conc_step.call [of tasks k, OF task f] show ?thesis
      by (intro r_into_rtranclp) (simp add: s counter_advance_def task f)
  next
    case False
    then have "counter_advance k s = s"
      by (auto simp: s counter_advance_def split: option.split prog.split)
    then show ?thesis by simp
  qed
qed

lemma counter_schedule_steps: "(counter_conc_step L R U)\<^sup>*\<^sup>* s (fold counter_advance ks s)"
proof (induction ks arbitrary: s)
  case (Cons k ks)
  from rtranclp_trans [OF counter_advance_step Cons.IH] show ?case by simp
qed simp

section \<open>The dialog counts are linearizable\<close>

text \<open>
  The store has the dialog counts \<open>a\<close>; the totals lie between zero and \<open>B\<close>, but need not be the
  sums of the dialogs.
\<close>

definition counts_hold :: "'r redis \<Rightarrow> (string \<Rightarrow> counts) \<Rightarrow> int \<Rightarrow> 'r \<Rightarrow> bool" where
  "counts_hold R a B r \<longleftrightarrow> (\<forall>u. int (unread (a u)) \<le> B
     \<and> (\<exists>t. counter_holds R r u (a u) t \<and> 0 \<le> total_of t \<and> total_of t \<le> B))"

lemma counts_holdD:
  assumes "counts_hold R a B r"
  obtains t where "counter_holds R r u (a u) t" and "0 \<le> total_of t" and "total_of t \<le> B" and "finite (dom (a u))"
    and "int (unread (a u)) \<le> B"
  using assms unfolding counts_hold_def counter_holds_def by metis

lemma counts_holdI:
  assumes "counts_hold R a B r" and "B \<le> C" and "\<And>v. v \<noteq> u \<Longrightarrow> a' v = a v"
    and "\<And>v m t. v \<noteq> u \<Longrightarrow> counter_holds R r v m t \<Longrightarrow> counter_holds R r' v m t"
    and "counter_holds R r' u (a' u) t" and "0 \<le> total_of t" and "total_of t \<le> C" and "int (unread (a' u)) \<le> C"
  shows "counts_hold R a' C r'"
  unfolding counts_hold_def
proof (intro allI conjI)
  fix v
  show "int (unread (a' v)) \<le> C" "\<exists>t. counter_holds R r' v (a' v) t \<and> 0 \<le> total_of t \<and> total_of t \<le> C"
    using assms by (cases "v = u"; fastforce simp: counts_hold_def)+
qed

lemma counts_hold_mono: "counts_hold R a B r \<Longrightarrow> B \<le> C \<Longrightarrow> counts_hold R a C r"
  unfolding counts_hold_def by (meson order_trans)

context chat_env
begin

lemma total_incremented:
  assumes "counts_hold R a B r" and "B + 1 < 2 ^ 53"
  shows "\<exists>n. fst (r_hincrby R r (counter_key u) ''total'' 1) = Inr n"
    and "counts_hold R a (B + 1) (snd (r_hincrby R r (counter_key u) ''total'' 1))"
proof -
  from counts_holdD [OF assms(1)] obtain t where t: "counter_holds R r u (a u) t" "0 \<le> total_of t" "total_of t \<le> B"
    "int (unread (a u)) \<le> B" .
  have "in_int64 (total_of t)" "in_int64 (total_of t + 1)" using t(2,3) assms(2) by (simp_all add: in_int64_def)
  note run = holds_incr_total [OF t(1) this]
  from run show "\<exists>n. fst (r_hincrby R r (counter_key u) ''total'' 1) = Inr n" by blast
  show "counts_hold R a (B + 1) (snd (r_hincrby R r (counter_key u) ''total'' 1))"
    by (rule counts_holdI [OF assms(1) _ refl holds_other_user(2) conjunct2 [OF run]])
      (use t in \<open>simp_all add: total_of_def\<close>)
qed

lemma dialog_incremented:
  assumes "counts_hold R a B r" and "B + 1 < 2 ^ 53"
  shows "\<exists>n. fst (r_hincrby R r (counter_key u) (dialog_field p) 1) = Inr n"
    and "counts_hold R (spec_counter (Message_Sent p u) a) (B + 1) (snd (r_hincrby R r (counter_key u) (dialog_field p) 1))"
proof -
  from counts_holdD [OF assms(1)] obtain t where t: "counter_holds R r u (a u) t" "0 \<le> total_of t" "total_of t \<le> B"
    "finite (dom (a u))" "int (unread (a u)) \<le> B" .
  have "in_int64 (int (Suc (count_of (a u) p)))"
    using count_le_unread [OF t(4), of p] t(5) assms(2) by (simp add: in_int64_def)
  note run = holds_incr_dialog [OF t(1) this]
  from run show "\<exists>n. fst (r_hincrby R r (counter_key u) (dialog_field p) 1) = Inr n" by blast
  show "counts_hold R (spec_counter (Message_Sent p u) a) (B + 1) (snd (r_hincrby R r (counter_key u) (dialog_field p) 1))"
    by (rule counts_holdI [OF assms(1), of _ u _ _ t])
      (use t run holds_other_user(2) unread_suc [OF t(4)] in simp_all)
qed

lemma dialog_reset_counts:
  assumes "counts_hold R a B r" and "B + 1 < 2 ^ 53"
  shows "\<exists>n. fst (counter_reset_dialog R U u p r) = Inr n"
    and "counts_hold R (spec_counter (Dialog_Read u p) a) (B + 1) (snd (counter_reset_dialog R U u p r))"
proof -
  from counts_holdD [OF assms(1)] obtain t where t: "counter_holds R r u (a u) t" "0 \<le> total_of t" "total_of t \<le> B"
    "finite (dom (a u))" "int (unread (a u)) \<le> B" .
  have cnt: "int (count_of (a u) p) \<le> B" using count_le_unread [OF t(4), of p] t(5) by simp
  then have "exact_number (int (count_of (a u) p))" "exact_number (total_of t)"
    using t(2,3) assms(2) by (simp_all add: exact_number_def)
  note run = reset_run [OF t(1) this(1) t(2) this(2)]
  from run show "\<exists>n. fst (counter_reset_dialog R U u p r) = Inr n" by blast
  have "total_of (reset_total (a u) t p) \<ge> 0" "total_of (reset_total (a u) t p) \<le> B + 1"
    using t(2,3) by (auto simp: reset_total_def total_of_def)
  then show "counts_hold R (spec_counter (Dialog_Read u p) a) (B + 1) (snd (counter_reset_dialog R U u p r))"
    by (intro counts_holdI [OF assms(1), of _ u _ _ "reset_total (a u) t p"])
      (use t run reset_other unread_reset [OF t(4), of p] in simp_all)
qed

lemma entry_reconciled:
  fixes w :: "('r, 'z) dialog_world_scheme"
  assumes "faults w = []" and "counts_hold R a B (counter_redis w)" and "B + 1 < 2 ^ 53"
  shows "\<exists>r. reconcile_entry R U (counter_key u) w = (Inr (), w\<lparr>counter_redis := r\<rparr>) \<and> counts_hold R a (B + 1) r"
proof -
  from counts_holdD [OF assms(2)] obtain t where t: "counter_holds R (counter_redis w) u (a u) t"
    "finite (dom (a u))" "int (unread (a u)) \<le> B" .
  have exact: "exact_number (int (unread (a u)))" using t(3) assms(3) by (simp add: exact_number_def)
  let ?r = "snd (counter_reconcile_user R U u (counter_redis w))"
  have run: "fst (counter_reconcile_user R U u (counter_redis w)) = Inr (int (unread (a u)))"
    "counter_holds R ?r u (a u) (Some (int (unread (a u))))"
    using reconcile_run [OF t(1) exact] by simp_all
  have "counts_hold R a (B + 1) ?r"
    by (rule counts_holdI [OF assms(2) _ refl reconcile_other run(2)]) (use t in \<open>simp_all add: total_of_def\<close>)
  with run(1) assms(1) show ?thesis
    by (intro exI [of _ ?r]) (simp add: reconcile_entry_def user_of_key_def counter_key_def bind_def counter_call_ok try_catch_def)
qed

end

text \<open>The programs after their first call.\<close>

definition second_prog :: "'r redis \<Rightarrow> string \<Rightarrow> string \<Rightarrow> (('r, 'z) dialog_world_scheme, unit) prog" where
  "second_prog R sender receiver =
     pbind (atomic (counter_call (\<lambda>r. r_hincrby R r (counter_key receiver) (dialog_field sender) 1))) (\<lambda>_. pret ())"

definition entry_prog :: "'r redis \<Rightarrow> lua \<Rightarrow> string \<Rightarrow> (('r, 'z) dialog_world_scheme, unit) prog" where
  "entry_prog R U user = pbind (atomic (reconcile_entry R U (counter_key user))) (\<lambda>_. pret ())"

fun later_stage :: "'r redis \<Rightarrow> lua \<Rightarrow> counter_event \<Rightarrow> (('r, 'z) dialog_world_scheme, unit) prog \<Rightarrow> bool" where
  "later_stage R U (Message_Sent sender receiver) p = (p = second_prog R sender receiver)"
| "later_stage R U (Reconcile_User user) p = (p = entry_prog R U user)"
| "later_stage R U (Dialog_Read user partner) p = False"

lemma call_atomic:
  "Call f = pbind (atomic m) c \<Longrightarrow> f w = (w', p) \<Longrightarrow> m w = (x, v) \<Longrightarrow> w' = v \<and> p = pbind (Done x) c"
  by (auto simp: atomic_def)

context chat_env
begin

lemma counter_stages:
  "counter_prog L R U (Message_Sent a b) =
     pbind (atomic (counter_call (\<lambda>r. r_hincrby R r (counter_key b) ''total'' 1))) (\<lambda>_. second_prog R a b)"
  "counter_prog L R U (Dialog_Read u p) = pbind (atomic (counter_call (counter_reset_dialog R U u p))) (\<lambda>_. pret ())"
  "counter_prog L R U (Reconcile_User u) = pbind (atomic (counter_call (ret ()))) (\<lambda>_. entry_prog R U u)"
  by (simp_all add: CounterConsumer_Process_prog_def sent_event_round second_prog_def ResetDialogCounter_prog_def
      ExtractUserId_def entry_prog_def pbind_assoc Let_def)

lemma not_done: "\<not> is_done (second_prog R a b)" "\<not> is_done (entry_prog R U u)"
  by (simp_all add: second_prog_def entry_prog_def atomic_def)

text \<open>What one call of a task does to the store; the event of the task takes effect with its last call.\<close>

lemma task_call:
  fixes w :: "('r, 'z) dialog_world_scheme"
  assumes f: "faults w = []" and a: "counts_hold R a B (counter_redis w)" and B: "B + 1 < 2 ^ 53"
    and stage: "Call f = counter_prog L R U e \<or> later_stage R U e (Call f)" and run: "f w = (w', p)"
  shows "faults w' = [] \<and> (if is_done p then p = Done (Inr ()) \<and> counts_hold R (spec_counter e a) (B + 1) (counter_redis w')
     else later_stage R U e p \<and> counts_hold R a (B + 1) (counter_redis w'))"
proof (cases e)
  case (Message_Sent b u)
  from stage consider
      (first) "Call f = pbind (atomic (counter_call (\<lambda>r. r_hincrby R r (counter_key u) ''total'' 1))) (\<lambda>_. second_prog R b u)"
    | (second) "Call f = pbind (atomic (counter_call (\<lambda>r. r_hincrby R r (counter_key u) (dialog_field b) 1))) (\<lambda>_. pret ())"
    by (auto simp: Message_Sent counter_stages second_prog_def simp del: counter_prog.simps)
  then show ?thesis
  proof cases
    case first
    from call_atomic [OF first run counter_call_ok [OF f]] total_incremented [OF a B, of u] f show ?thesis
      by (auto simp: Message_Sent not_done)
  next
    case second
    from call_atomic [OF second run counter_call_ok [OF f]] dialog_incremented [OF a B, where u = u and p = b] f show ?thesis
      by (auto simp: Message_Sent pret_def)
  qed
next
  case (Dialog_Read u b)
  with stage have "Call f = pbind (atomic (counter_call (counter_reset_dialog R U u b))) (\<lambda>_. pret ())"
    by (simp add: counter_stages del: counter_prog.simps)
  from call_atomic [OF this run counter_call_ok [OF f]] dialog_reset_counts [OF a B, where u = u and p = b] f show ?thesis
    by (auto simp: Dialog_Read pret_def)
next
  case (Reconcile_User u)
  from stage consider (first) "Call f = pbind (atomic (counter_call (ret ()))) (\<lambda>_. entry_prog R U u)"
    | (second) "Call f = pbind (atomic (reconcile_entry R U (counter_key u))) (\<lambda>_. pret ())"
    by (auto simp: Reconcile_User counter_stages entry_prog_def simp del: counter_prog.simps)
  then show ?thesis
  proof cases
    case first
    from call_atomic [OF first run counter_call_ok [OF f]] counts_hold_mono [OF a, of "B + 1"] f show ?thesis
      by (auto simp: Reconcile_User not_done)
  next
    case second
    obtain r where "reconcile_entry R U (counter_key u) w = (Inr (), w\<lparr>counter_redis := r\<rparr>)" "counts_hold R a (B + 1) r"
      using entry_reconciled [OF f a B] by blast
    with call_atomic [OF second run] f show ?thesis by (auto simp: Reconcile_User pret_def)
  qed
qed

text \<open>The invariant of all interleavings.\<close>

definition counter_conc_inv :: "(string \<Rightarrow> counts) \<Rightarrow> int \<Rightarrow> 'r counter_tasks \<Rightarrow> bool" where
  "counter_conc_inv a B s \<longleftrightarrow> (case s of (tasks, w, es) \<Rightarrow>
     faults w = [] \<and> counts_hold R (fold spec_counter (map snd es) a) B (counter_redis w)
     \<and> distinct (map fst es) \<and> (\<forall>(k, e) \<in> set es. tasks k = Some (e, Done (Inr ())))
     \<and> (\<forall>k e p. tasks k = Some (e, p) \<longrightarrow>
          p = counter_prog L R U e \<or> later_stage R U e p \<or> (p = Done (Inr ()) \<and> (k, e) \<in> set es)))"

lemma counter_step_inv:
  assumes "counter_conc_step L R U s t" and "counter_conc_inv a B s" and "B + 1 < 2 ^ 53"
  shows "counter_conc_inv a (B + 1) t"
  using assms
proof (induction rule: counter_conc_step.induct)
  case (arrive tasks k w es e)
  then show ?case
    using counts_hold_mono [of R _ B _ "B + 1"] by (fastforce simp: counter_conc_inv_def)
next
  case (elsewhere w' w tasks es)
  then show ?case
    using counts_hold_mono [of R _ B _ "B + 1"] by (auto simp: counter_conc_inv_def)
next
  case (call tasks k e f w w' p es)
  let ?a = "fold spec_counter (map snd es) a"
  have inv: "faults w = []" "counts_hold R ?a B (counter_redis w)" "distinct (map fst es)"
    "\<forall>(k, e) \<in> set es. tasks k = Some (e, Done (Inr ()))"
    "\<And>k e p. tasks k = Some (e, p) \<Longrightarrow> p = counter_prog L R U e \<or> later_stage R U e p \<or> (p = Done (Inr ()) \<and> (k, e) \<in> set es)"
    using call.prems(1) by (simp_all add: counter_conc_inv_def)
  have "Call f = counter_prog L R U e \<or> later_stage R U e (Call f)" using inv(5) [OF call.hyps(1)] by auto
  note step = task_call [OF inv(1,2) call.prems(2) this call.hyps(2)]
  have new: "k \<notin> fst ` set es" using inv(4) call.hyps(1) by fastforce
  then have old: "\<forall>(j, d) \<in> set es. (tasks(k \<mapsto> (e, p))) j = Some (d, Done (Inr ()))"
    using inv(4) by (fastforce simp: image_iff)
  show ?case
  proof (cases "is_done p")
    case True
    with step inv(3) new old show ?thesis
      using inv(5) by (fastforce simp: counter_conc_inv_def)
  next
    case False
    with step inv(3) old show ?thesis
      using inv(5) by (fastforce simp: counter_conc_inv_def)
  qed
qed

lemma counter_run_inv:
  assumes "(counter_conc_step L R U ^^ n) s t" and "counter_conc_inv a B s" and "B + int n < 2 ^ 53"
  shows "counter_conc_inv a (B + int n) t"
  using assms
proof (induction n arbitrary: t)
  case 0
  then show ?case by simp
next
  case (Suc n)
  then obtain r where "(counter_conc_step L R U ^^ n) s r" "counter_conc_step L R U r t" by auto
  with Suc counter_step_inv [of r t a "B + int n"] show ?case by (simp add: algebra_simps)
qed

lemma not_started_done: "Done x \<noteq> counter_prog L R U e" "\<not> later_stage R U e (Done x)"
proof -
  show "Done x \<noteq> counter_prog L R U e"
    by (cases e) (simp_all only: counter_stages, simp_all add: atomic_def)
  show "\<not> later_stage R U e (Done x)"
    by (cases e) (auto simp: second_prog_def entry_prog_def atomic_def)
qed

lemma counter_conc_start:
  assumes "counters_refine R (counter_redis w) a" and "faults w = []" and "\<And>u. int (unread (a u)) \<le> B"
  shows "counter_conc_inv a B (Map.empty, w, [])"
proof -
  have "counts_hold R a B (counter_redis w)"
    unfolding counts_hold_def
  proof (intro allI conjI)
    fix u
    from assms(1) obtain t where "counter_holds R (counter_redis w) u (a u) t" "total_of t = int (unread (a u))"
      unfolding counters_refine_def by blast
    then show "\<exists>t. counter_holds R (counter_redis w) u (a u) t \<and> 0 \<le> total_of t \<and> total_of t \<le> B"
      using assms(3) [of u] by (intro exI [of _ t]) simp
  qed (rule assms(3))
  with assms(2) show ?thesis by (simp add: counter_conc_inv_def)
qed

text \<open>A reconciliation between the two increments of an event.\<close>

lemma counter_advance_atomic:
  "tasks k = Some (e, pbind (atomic m) c) \<Longrightarrow> m w = (x, v) \<Longrightarrow>
   counter_advance k (tasks, w, es) = (tasks(k \<mapsto> (e, pbind (Done x) c)), v,
     if is_done (pbind (Done x) c) then es @ [(k, e)] else es)"
  by (simp add: counter_advance_def atomic_def)

lemma reconcile_between:
  fixes w :: "'r dialog_world"
  assumes f: "faults w = []" and h: "counter_holds R (counter_redis w) u m t" and t: "total_of t = int (unread m)"
    and bound: "int (unread m) + 1 < 2 ^ 53" and "i \<noteq> j"
    and i: "tasks i = Some (Message_Sent b u, counter_prog L R U (Message_Sent b u))"
    and j: "tasks j = Some (Reconcile_User u, counter_prog L R U (Reconcile_User u))"
  shows "\<exists>r. fold counter_advance [i, j, j, i] (tasks, w, es)
      = (tasks(i \<mapsto> (Message_Sent b u, Done (Inr ())), j \<mapsto> (Reconcile_User u, Done (Inr ()))),
         w\<lparr>counter_redis := r\<rparr>, es @ [(j, Reconcile_User u), (i, Message_Sent b u)])
    \<and> counter_holds R r u (m(b \<mapsto> Suc (count_of m b))) (Some (int (unread m)))"
proof -
  have fin: "finite (dom m)" using h by (simp add: counter_holds_def)
  have cnt: "int (count_of m b) \<le> int (unread m)" using count_le_unread [OF fin] by simp
  have exact: "exact_number (int (unread m))" using bound by (simp add: exact_number_def)
  let ?r1 = "snd (r_hincrby R (counter_redis w) (counter_key u) ''total'' 1)" and ?w1 = "\<lambda>r. w\<lparr>counter_redis := r\<rparr>"
  have "in_int64 (total_of t)" "in_int64 (total_of t + 1)" using t bound by (simp_all add: in_int64_def)
  note total = holds_incr_total [OF h this]
  have 1: "counter_advance i (tasks, w, es) = (tasks(i \<mapsto> (Message_Sent b u, second_prog R b u)), ?w1 ?r1, es)"
    using counter_advance_atomic [of tasks i, OF i [unfolded counter_stages] counter_call_ok [OF f]] total
    by (auto simp: not_done)
  let ?tasks1 = "tasks(i \<mapsto> (Message_Sent b u, second_prog R b u))"
  have j1: "?tasks1 j = Some (Reconcile_User u, pbind (atomic (counter_call (ret ()))) (\<lambda>_. entry_prog R U u))"
    using assms(5) j counter_stages(3) [of u] by simp
  have 2: "counter_advance j (?tasks1, ?w1 ?r1, es) = (?tasks1(j \<mapsto> (Reconcile_User u, entry_prog R U u)), ?w1 ?r1, es)"
    using counter_advance_atomic [of ?tasks1 j, OF j1 counter_call_ok, of "?w1 ?r1" es] f by (simp add: not_done)
  let ?tasks2 = "?tasks1(j \<mapsto> (Reconcile_User u, entry_prog R U u))"
  obtain r2 where r2: "reconcile_entry R U (counter_key u) (?w1 ?r1) = (Inr (), ?w1 r2)"
    "counter_holds R r2 u m (Some (int (unread m)))"
    using reconcile_key [of "?w1 ?r1" m u "Some (total_of t + 1)" u] exact total f by auto
  have j2: "?tasks2 j = Some (Reconcile_User u, pbind (atomic (reconcile_entry R U (counter_key u))) (\<lambda>_. pret ()))"
    by (simp add: entry_prog_def)
  have 3: "counter_advance j (?tasks2, ?w1 ?r1, es)
      = (?tasks2(j \<mapsto> (Reconcile_User u, Done (Inr ()))), ?w1 r2, es @ [(j, Reconcile_User u)])"
    using counter_advance_atomic [of ?tasks2 j, OF j2 r2(1)] by (simp add: pret_def)
  let ?tasks3 = "?tasks2(j \<mapsto> (Reconcile_User u, Done (Inr ())))"
  let ?r3 = "snd (r_hincrby R r2 (counter_key u) (dialog_field b) 1)"
  have "in_int64 (int (Suc (count_of m b)))" using cnt bound by (simp add: in_int64_def)
  note dialog = holds_incr_dialog [OF r2(2) this]
  have i3: "?tasks3 i = Some (Message_Sent b u,
      pbind (atomic (counter_call (\<lambda>r. r_hincrby R r (counter_key u) (dialog_field b) 1))) (\<lambda>_. pret ()))"
    using assms(5) by (simp add: second_prog_def)
  have 4: "counter_advance i (?tasks3, ?w1 r2, es @ [(j, Reconcile_User u)])
      = (?tasks3(i \<mapsto> (Message_Sent b u, Done (Inr ()))), ?w1 ?r3, es @ [(j, Reconcile_User u), (i, Message_Sent b u)])"
    using counter_advance_atomic [of ?tasks3 i, OF i3 counter_call_ok, of "?w1 r2" "es @ [(j, Reconcile_User u)]"] f dialog
    by (auto simp: pret_def)
  have tasks: "?tasks3(i \<mapsto> (Message_Sent b u, Done (Inr ())))
      = tasks(i \<mapsto> (Message_Sent b u, Done (Inr ())), j \<mapsto> (Reconcile_User u, Done (Inr ())))"
    using assms(5) by (auto simp: fun_eq_iff)
  have "fold counter_advance [i, j, j, i] (tasks, w, es)
      = counter_advance i (counter_advance j (counter_advance j (counter_advance i (tasks, w, es))))" by simp
  also have "\<dots> = (tasks(i \<mapsto> (Message_Sent b u, Done (Inr ())), j \<mapsto> (Reconcile_User u, Done (Inr ()))),
         ?w1 ?r3, es @ [(j, Reconcile_User u), (i, Message_Sent b u)])"
    by (simp only: 1 2 3 4 tasks)
  finally show ?thesis using dialog by blast
qed

end

section \<open>Properties\<close>

text \<open>
  C5. Unread counts are linearizable. In every interleaving of the calls of any number of consumed
  messages, resets and reconciliations, while no call fails, the dialog counts are those of the
  specification that runs the events one after the other in the order of their last calls; every
  operation that is done succeeded and counts exactly once; and whatever a total is, one
  reconciliation without interference makes it the sum of the dialogs.
\<close>

theorem dialog_counts_linearizable:
  assumes "chat_env L R U" and "counters_refine R (counter_redis w0) a" and "faults w0 = []"
    and "\<And>u. int (unread (a u)) \<le> B" and "B + int n < 2 ^ 53"
    and "(counter_conc_step L R U ^^ n) (Map.empty, w0, []) (tasks, w, es)"
  shows "(\<forall>u. \<exists>t. counter_holds R (counter_redis w) u (fold spec_counter (map snd es) a u) t)
    \<and> distinct (map fst es) \<and> (\<forall>(k, e) \<in> set es. tasks k = Some (e, Done (Inr ())))
    \<and> (\<forall>k e x. tasks k = Some (e, Done x) \<longrightarrow> x = Inr () \<and> (k, e) \<in> set es)
    \<and> (\<forall>u. \<exists>w'. RunReconciliation R U [(''0'', [counter_key u])] w = (Inr (), w')
        \<and> fst (GetUnreadCount R [(''x-user-id'', u)] w') = Inr (int (unread (fold spec_counter (map snd es) a u))))"
proof -
  let ?a = "fold spec_counter (map snd es) a"
  have inv: "chat_env.counter_conc_inv L R U a (B + int n) (tasks, w, es)"
    using chat_env.counter_run_inv [OF assms(1,6) chat_env.counter_conc_start [OF assms(1-4)] assms(5)] by blast
  note parts = inv [unfolded chat_env.counter_conc_inv_def [OF assms(1)], simplified]
  have count: "\<exists>t. counter_holds R (counter_redis w) u (?a u) t" and small: "int (unread (?a u)) \<le> B + int n" for u
    using parts unfolding counts_hold_def by blast+
  have sum: "\<exists>w'. RunReconciliation R U [(''0'', [counter_key u])] w = (Inr (), w')
      \<and> fst (GetUnreadCount R [(''x-user-id'', u)] w') = Inr (int (unread (?a u)))" for u
  proof -
    obtain t where t: "counter_holds R (counter_redis w) u (?a u) t" using count by blast
    have exact: "exact_number (int (unread (?a u)))" using small [of u] assms(5) by (simp add: exact_number_def)
    obtain r where r: "RunReconciliation R U [(''0'', [counter_key u])] w = (Inr (), w\<lparr>counter_redis := r\<rparr>)"
      "counter_holds R r u (?a u) (Some (int (unread (?a u))))"
      using chat_env.run_reconciles [OF assms(1) _ exact t, of "[(''0'', [counter_key u])]"] parts
      by (auto simp del: RunReconciliation.simps)
    from chat_env.unread_run [OF assms(1), of "w\<lparr>counter_redis := r\<rparr>" u, OF _ _ exact_in_int64] r exact parts
    show ?thesis by (intro exI [of _ "w\<lparr>counter_redis := r\<rparr>"]) (simp add: total_of_def del: RunReconciliation.simps)
  qed
  have finished: "x = Inr () \<and> (k, e) \<in> set es" if "tasks k = Some (e, Done x)" for k e x
    using parts that chat_env.not_started_done [OF assms(1)] by blast
  show ?thesis
    using parts count finished sum by blast
qed

theorem dialog_counts_linearizable_witness:
  "\<exists>w'. RunReconciliation ref_redis ref_lua [(''0'', [counter_key ''bob''])] sample_dialogs = (Inr (), w')
     \<and> fst (GetUnreadCount ref_redis [(''x-user-id'', ''bob'')] w') = Inr 0"
proof -
  let ?e = "Message_Sent ''eve'' ''bob''"
  have "counter_conc_step ref_lib ref_redis ref_lua (Map.empty, sample_dialogs, [])
      ([0 \<mapsto> (?e, counter_prog ref_lib ref_redis ref_lua ?e)], sample_dialogs, [])"
    by (rule counter_conc_step.arrive) simp
  then have run: "(counter_conc_step ref_lib ref_redis ref_lua ^^ 1) (Map.empty, sample_dialogs, [])
      ([0 \<mapsto> (?e, counter_prog ref_lib ref_redis ref_lua ?e)], sample_dialogs, [])" unfolding relpowp_1 .
  have start: "counters_refine ref_redis (counter_redis sample_dialogs) (\<lambda>_. Map.empty)" using empty_counters by simp
  have none: "unread Map.empty = 0" by (simp add: unread_def)
  have "\<forall>u. \<exists>w'. RunReconciliation ref_redis ref_lua [(''0'', [counter_key u])] sample_dialogs = (Inr (), w')
      \<and> fst (GetUnreadCount ref_redis [(''x-user-id'', u)] w') = Inr (int (unread (fold spec_counter (map snd ([] :: (nat \<times> counter_event) list)) (\<lambda>_. Map.empty) u)))"
    by (rule dialog_counts_linearizable [OF ref_chat_axioms start _ _ _ run, of 0, THEN conjunct2, THEN conjunct2, THEN conjunct2, THEN conjunct2])
      (simp_all add: none)
  then show ?thesis by (simp add: none del: RunReconciliation.simps)
qed

text \<open>
  C33. A reconciliation can lose an increment. When the reconciler sums the dialogs of a user between
  the two increments of an event, it overwrites the total that the event had already counted in:
  everything succeeds, but the unread count is one less than the unread messages until the next
  reconciliation.
\<close>

theorem reconciliation_loses_increment:
  assumes "chat_env L R U" and "faults w = []" and "counter_holds R (counter_redis w) u m t"
    and "total_of t = int (unread m)" and "int (unread m) + 1 < 2 ^ 53" and "i \<noteq> j"
    and "tasks i = Some (Message_Sent b u, counter_prog L R U (Message_Sent b u))"
    and "tasks j = Some (Reconcile_User u, counter_prog L R U (Reconcile_User u))"
    and "m' = m(b \<mapsto> Suc (count_of m b))"
  shows "\<exists>tasks' w' es'. (counter_conc_step L R U)\<^sup>*\<^sup>* (tasks, w, es) (tasks', w', es')
    \<and> tasks' i = Some (Message_Sent b u, Done (Inr ())) \<and> tasks' j = Some (Reconcile_User u, Done (Inr ()))
    \<and> counter_holds R (counter_redis w') u m' (Some (int (unread m') - 1))
    \<and> fst (GetUnreadCount R [(''x-user-id'', u)] w') = Inr (int (unread m') - 1)"
proof -
  from chat_env.reconcile_between [OF assms(1-8)] obtain r where
    r: "fold counter_advance [i, j, j, i] (tasks, w, es)
      = (tasks(i \<mapsto> (Message_Sent b u, Done (Inr ())), j \<mapsto> (Reconcile_User u, Done (Inr ()))),
         w\<lparr>counter_redis := r\<rparr>, es @ [(j, Reconcile_User u), (i, Message_Sent b u)])"
    "counter_holds R r u m' (Some (int (unread m)))"
    unfolding assms(9) by blast
  have one: "int (unread m) = int (unread m') - 1"
    using unread_suc [of m b] assms(3) by (simp add: assms(9) counter_holds_def)
  have "in_int64 (int (unread m))" using assms(5) by (simp add: in_int64_def)
  with chat_env.unread_run [OF assms(1), of "w\<lparr>counter_redis := r\<rparr>" u m' "Some (int (unread m))"] r(2) assms(2)
  have read: "fst (GetUnreadCount R [(''x-user-id'', u)] (w\<lparr>counter_redis := r\<rparr>)) = Inr (int (unread m') - 1)"
    by (simp add: total_of_def one [symmetric])
  show ?thesis
    using counter_schedule_steps [of L R U "(tasks, w, es)" "[i, j, j, i]"] r read one assms(6)
    by (intro exI [of _ "tasks(i \<mapsto> (Message_Sent b u, Done (Inr ())), j \<mapsto> (Reconcile_User u, Done (Inr ())))"]
        exI [of _ "w\<lparr>counter_redis := r\<rparr>"] exI [of _ "es @ [(j, Reconcile_User u), (i, Message_Sent b u)]"]) simp
qed

theorem reconciliation_loses_increment_witness:
  "\<exists>tasks' w' es'. (counter_conc_step ref_lib ref_redis ref_lua)\<^sup>*\<^sup>*
     ([0 \<mapsto> (Message_Sent ''eve'' ''bob'', counter_prog ref_lib ref_redis ref_lua (Message_Sent ''eve'' ''bob'')),
       1 \<mapsto> (Reconcile_User ''bob'', counter_prog ref_lib ref_redis ref_lua (Reconcile_User ''bob''))], sample_dialogs, []) (tasks', w', es')
     \<and> fst (GetUnreadCount ref_redis [(''x-user-id'', ''bob'')] w') = Inr 0
     \<and> counter_holds ref_redis (counter_redis w') ''bob'' [''eve'' \<mapsto> 1] (Some 0)"
proof -
  have h: "counter_holds ref_redis (counter_redis sample_dialogs) ''bob'' Map.empty None"
    by (auto simp: counter_holds_def ref_redis_def empty_keyspace_def counter_hash_def fun_eq_iff)
  let ?tasks = "[0 \<mapsto> (Message_Sent ''eve'' ''bob'', counter_prog ref_lib ref_redis ref_lua (Message_Sent ''eve'' ''bob'')),
       1 \<mapsto> (Reconcile_User ''bob'', counter_prog ref_lib ref_redis ref_lua (Reconcile_User ''bob''))]
     :: nat \<rightharpoonup> counter_event \<times> (keyspace dialog_world, unit) prog"
  have "total_of None = int (unread Map.empty)" "int (unread Map.empty) + 1 < 2 ^ 53"
    by (simp_all add: total_of_def unread_def)
  from reconciliation_loses_increment [OF ref_chat_axioms _ h this, of 0 1 ?tasks, OF _ _ _ _ refl, where es = "[]"]
  show ?thesis by (simp add: count_of_def unread_def del: counter_prog.simps) blast
qed

end
