(* ===== verification/Messaging.thy ===== *)
theory Messaging
  imports Chat_Service Feed_System
begin

text \<open>
  The message broker as the components set it up: the exchanges, queues and bindings that the
  constructors of \<open>PostFeedPublisher\<close>, \<open>WsFanoutConsumer\<close>,
  \<open>DialogServiceComponent\<close> and \<open>CounterConsumer\<close> declare, and where the broker puts a
  published message. How a topic pattern matches a routing key is the broker's, a parameter.
\<close>

section \<open>Topology\<close>

datatype exchange_type = kFanOut | kTopic

text \<open>The flags the code gives its queues.\<close>

datatype queue_flag = kDurable | kAutoDelete

record topology =
  exchanges :: "(string \<times> exchange_type) list"
  declared_queues :: "(string \<times> queue_flag list) list"
  bindings :: "(string \<times> string \<times> string) list"

definition no_topology :: topology where
  "no_topology = \<lparr>exchanges = [], declared_queues = [], bindings = []\<rparr>"

definition DeclareExchange :: "string \<Rightarrow> exchange_type \<Rightarrow> topology \<Rightarrow> topology" where
  "DeclareExchange name kind T =
     (if (name, kind) \<in> set (exchanges T) then T else T\<lparr>exchanges := exchanges T @ [(name, kind)]\<rparr>)"

definition DeclareQueue :: "string \<Rightarrow> queue_flag list \<Rightarrow> topology \<Rightarrow> topology" where
  "DeclareQueue name flags T =
     (if (name, flags) \<in> set (declared_queues T) then T
      else T\<lparr>declared_queues := declared_queues T @ [(name, flags)]\<rparr>)"

definition BindQueue :: "string \<Rightarrow> string \<Rightarrow> string \<Rightarrow> topology \<Rightarrow> topology" where
  "BindQueue exchange name pattern T =
     (if (exchange, name, pattern) \<in> set (bindings T) then T
      else T\<lparr>bindings := bindings T @ [(exchange, name, pattern)]\<rparr>)"

definition PostFeedPublisher_init :: "string \<Rightarrow> topology \<Rightarrow> topology" where
  "PostFeedPublisher_init exchange T =
     BindQueue exchange ''feed-materialization'' ''post.created.#''
       (DeclareQueue ''feed-materialization'' [kDurable] (DeclareExchange exchange kTopic T))"

definition WsFanoutConsumer_init :: "lib \<Rightarrow> uuid \<Rightarrow> topology \<Rightarrow> topology" where
  "WsFanoutConsumer_init L instance_id T =
     (let queue_name = ''ws-fanout-'' @ to_str L instance_id in
      BindQueue ''ws-fanout'' queue_name []
        (DeclareQueue queue_name [kAutoDelete] (DeclareExchange ''ws-fanout'' kFanOut T)))"

definition DialogServiceComponent_init :: "topology \<Rightarrow> topology" where
  "DialogServiceComponent_init T = DeclareExchange ''messages-exchange'' kTopic T"

definition CounterConsumer_init :: "topology \<Rightarrow> topology" where
  "CounterConsumer_init T =
     BindQueue ''messages-exchange'' ''message-counters'' ''message.sent.#''
       (DeclareQueue ''message-counters'' [kDurable] (DeclareExchange ''messages-exchange'' kTopic T))"

section \<open>Routing\<close>

text \<open>The queues a message reaches: those bound to its exchange, for a topic exchange by pattern.\<close>

definition route :: "(string \<Rightarrow> string \<Rightarrow> bool) \<Rightarrow> topology \<Rightarrow> publication \<Rightarrow> string list" where
  "route matches T m =
     remdups (map (\<lambda>(e, q, pattern). q)
       (filter (\<lambda>(e, q, pattern). e = pub_exchange m \<and>
          ((e, kFanOut) \<in> set (exchanges T) \<or> ((e, kTopic) \<in> set (exchanges T) \<and> matches pattern (pub_key m))))
        (bindings T)))"

text \<open>AMQP: a pattern that ends in a word \<open>#\<close> matches every key that continues its prefix.\<close>

locale topic_broker =
  fixes matches :: "string \<Rightarrow> string \<Rightarrow> bool"
  assumes hash_suffix: "matches (p @ ''.#'') (p @ ''.'' @ k)"

text \<open>
  The last consumer of a queue is gone, since its process ended or its connection broke: the broker
  deletes the queue, with its messages and bindings, if it was declared auto-delete.
\<close>

definition consumers_gone :: "string \<Rightarrow> topology \<Rightarrow> topology" where
  "consumers_gone name T =
     (if \<exists>flags. (name, flags) \<in> set (declared_queues T) \<and> kAutoDelete \<in> set flags
      then T\<lparr>declared_queues := filter (\<lambda>d. fst d \<noteq> name) (declared_queues T),
             bindings := filter (\<lambda>(e, q, p). q \<noteq> name) (bindings T)\<rparr>
      else T)"

text \<open>The components of the system in the order in which they start, again and again.\<close>

datatype boot = Start_Publisher | Start_Fanout uuid | Start_Chat | Start_Counter

fun start :: "lib \<Rightarrow> string \<Rightarrow> boot \<Rightarrow> topology \<Rightarrow> topology" where
  "start L exchange Start_Publisher T = PostFeedPublisher_init exchange T"
| "start L exchange (Start_Fanout i) T = WsFanoutConsumer_init L i T"
| "start L exchange Start_Chat T = DialogServiceComponent_init T"
| "start L exchange Start_Counter T = CounterConsumer_init T"

definition boot_bindings :: "lib \<Rightarrow> string \<Rightarrow> boot \<Rightarrow> (string \<times> string \<times> string) set" where
  "boot_bindings L exchange b =
     (case b of
        Start_Publisher \<Rightarrow> {(exchange, ''feed-materialization'', ''post.created.#'')}
      | Start_Fanout i \<Rightarrow> {(''ws-fanout'', ''ws-fanout-'' @ to_str L i, [])}
      | Start_Chat \<Rightarrow> {}
      | Start_Counter \<Rightarrow> {(''messages-exchange'', ''message-counters'', ''message.sent.#'')})"

definition boot_exchanges :: "string \<Rightarrow> boot \<Rightarrow> (string \<times> exchange_type) set" where
  "boot_exchanges exchange b =
     (case b of
        Start_Publisher \<Rightarrow> {(exchange, kTopic)}
      | Start_Fanout i \<Rightarrow> {(''ws-fanout'', kFanOut)}
      | Start_Chat \<Rightarrow> {(''messages-exchange'', kTopic)}
      | Start_Counter \<Rightarrow> {(''messages-exchange'', kTopic)})"

definition boot_queues :: "lib \<Rightarrow> boot \<Rightarrow> (string \<times> queue_flag list) set" where
  "boot_queues L b =
     (case b of
        Start_Publisher \<Rightarrow> {(''feed-materialization'', [kDurable])}
      | Start_Fanout i \<Rightarrow> {(''ws-fanout-'' @ to_str L i, [kAutoDelete])}
      | Start_Chat \<Rightarrow> {}
      | Start_Counter \<Rightarrow> {(''message-counters'', [kDurable])})"

lemma boot_bindings_member:
  "(e, q, p) \<in> boot_bindings L exchange b \<longleftrightarrow>
     (b = Start_Publisher \<and> e = exchange \<and> q = ''feed-materialization'' \<and> p = ''post.created.#'') \<or>
     (\<exists>i. b = Start_Fanout i \<and> e = ''ws-fanout'' \<and> q = ''ws-fanout-'' @ to_str L i \<and> p = []) \<or>
     (b = Start_Counter \<and> e = ''messages-exchange'' \<and> q = ''message-counters'' \<and> p = ''message.sent.#'')"
  by (cases b) (auto simp: boot_bindings_def)

lemma boot_exchanges_member:
  "(e, kind) \<in> boot_exchanges exchange b \<longleftrightarrow>
     (b = Start_Publisher \<and> e = exchange \<and> kind = kTopic) \<or>
     (\<exists>i. b = Start_Fanout i \<and> e = ''ws-fanout'' \<and> kind = kFanOut) \<or>
     ((b = Start_Chat \<or> b = Start_Counter) \<and> e = ''messages-exchange'' \<and> kind = kTopic)"
  by (cases b) (auto simp: boot_exchanges_def)

lemma boot_queues_member:
  "(q, flags) \<in> boot_queues L b \<longleftrightarrow>
     (b = Start_Publisher \<and> q = ''feed-materialization'' \<and> flags = [kDurable]) \<or>
     (\<exists>i. b = Start_Fanout i \<and> q = ''ws-fanout-'' @ to_str L i \<and> flags = [kAutoDelete]) \<or>
     (b = Start_Counter \<and> q = ''message-counters'' \<and> flags = [kDurable])"
  by (cases b) (auto simp: boot_queues_def)

lemma declare_sets [simp]:
  "set (bindings (DeclareExchange n k T)) = set (bindings T)"
  "set (exchanges (DeclareExchange n k T)) = insert (n, k) (set (exchanges T))"
  "set (bindings (DeclareQueue q f T)) = set (bindings T)"
  "set (exchanges (DeclareQueue q f T)) = set (exchanges T)"
  "set (bindings (BindQueue e q p T)) = insert (e, q, p) (set (bindings T))"
  "set (exchanges (BindQueue e q p T)) = set (exchanges T)"
  "set (declared_queues (DeclareExchange e k T)) = set (declared_queues T)"
  "set (declared_queues (DeclareQueue q f T)) = insert (q, f) (set (declared_queues T))"
  "set (declared_queues (BindQueue e q p T)) = set (declared_queues T)"
  by (auto simp: DeclareExchange_def DeclareQueue_def BindQueue_def)

lemma start_sets:
  "set (bindings (start L e b T)) = boot_bindings L e b \<union> set (bindings T)"
  "set (exchanges (start L e b T)) = boot_exchanges e b \<union> set (exchanges T)"
  "set (declared_queues (start L e b T)) = boot_queues L b \<union> set (declared_queues T)"
  by (cases b; simp add: PostFeedPublisher_init_def WsFanoutConsumer_init_def DialogServiceComponent_init_def
      CounterConsumer_init_def boot_bindings_def boot_exchanges_def boot_queues_def Let_def)+

text \<open>The order of starting and repeated starts make no difference.\<close>

lemma boots_sets:
  "set (bindings (fold (start L e) bs T)) = (\<Union>b \<in> set bs. boot_bindings L e b) \<union> set (bindings T)"
  "set (exchanges (fold (start L e) bs T)) = (\<Union>b \<in> set bs. boot_exchanges e b) \<union> set (exchanges T)"
  "set (declared_queues (fold (start L e) bs T)) = (\<Union>b \<in> set bs. boot_queues L b) \<union> set (declared_queues T)"
  by (induction bs arbitrary: T) (auto simp: start_sets)

lemma set_route:
  "set (route matches T m) = {q. \<exists>p. (pub_exchange m, q, p) \<in> set (bindings T) \<and>
     ((pub_exchange m, kFanOut) \<in> set (exchanges T) \<or>
      ((pub_exchange m, kTopic) \<in> set (exchanges T) \<and> matches p (pub_key m)))}"
  unfolding route_def by force

context topic_broker
begin

lemma post_created_matches: "matches ''post.created.#'' (''post.created.'' @ k)"
  using hash_suffix [of "''post.created''" k] by simp

lemma message_sent_matches: "matches ''message.sent.#'' (''message.sent.'' @ k)"
  using hash_suffix [of "''message.sent''" k] by simp

end

text \<open>A broker: words are separated by dots, \<open>*\<close> is one word, \<open>#\<close> any number of words.\<close>

fun topic_words :: "string \<Rightarrow> string list" where
  "topic_words [] = [[]]"
| "topic_words (c # s) =
     (if c = CHR ''.'' then [] # topic_words s
      else (case topic_words s of [] \<Rightarrow> [[c]] | w # ws \<Rightarrow> (c # w) # ws))"

fun topic_match :: "string list \<Rightarrow> string list \<Rightarrow> bool" where
  "topic_match [] ws = (ws = [])"
| "topic_match (p # ps) ws =
     (if p = ''#'' then topic_match ps ws \<or> (case ws of [] \<Rightarrow> False | w # vs \<Rightarrow> topic_match (p # ps) vs)
      else (case ws of [] \<Rightarrow> False | w # vs \<Rightarrow> (p = ''*'' \<or> p = w) \<and> topic_match ps vs))"

definition ref_matches :: "string \<Rightarrow> string \<Rightarrow> bool" where
  "ref_matches pattern key = topic_match (topic_words pattern) (topic_words key)"

lemma topic_words_nonempty [simp]: "topic_words s \<noteq> []"
  by (cases s) (auto split: list.splits)

lemma topic_words_append: "topic_words (s @ CHR ''.'' # t) = topic_words s @ topic_words t"
  by (induction s) (auto split: list.splits)

lemma topic_match_hash: "topic_match [''#''] ws"
  by (induction ws) simp_all

lemma topic_match_prefix: "topic_match (ws @ [''#'']) (ws @ vs)"
proof (induction ws)
  case Nil
  show ?case using topic_match_hash by simp
next
  case (Cons w ws)
  have "topic_match (w # ws @ [''#'']) (w # ws @ vs)" if "w = ''#''"
  proof -
    have "topic_match (w # ws @ [''#'']) (ws @ vs)" using Cons that by simp
    with that show ?thesis by simp
  qed
  with Cons show ?case by (cases "w = ''#''") simp_all
qed

interpretation ref_broker: topic_broker ref_matches
proof
  fix p k
  have "topic_words (p @ ''.#'') = topic_words p @ [''#'']"
    using topic_words_append [of p "''#''"] by simp
  moreover have "topic_words (p @ ''.'' @ k) = topic_words p @ topic_words k"
    using topic_words_append [of p k] by simp
  ultimately show "ref_matches (p @ ''.#'') (p @ ''.'' @ k)"
    by (simp only: ref_matches_def topic_match_prefix)
qed

lemmas ref_broker_axioms = ref_broker.topic_broker_axioms

section \<open>Where the messages go\<close>

text \<open>
  Events reach their consumers. In whatever order and however often the components have
  started, a post event reaches exactly the materialisation queue once a publisher has started,
  a fan-out message exactly the queues of the started instances, and the event of a sent message
  exactly the counter queue if the counter service has ever started, and otherwise no queue.
\<close>

lemma events_reach_their_consumers:
  assumes "topic_broker matches" and "exchange \<noteq> ''ws-fanout''" and "exchange \<noteq> ''messages-exchange''"
    and "T = fold (start L exchange) bs no_topology"
  shows "set (route matches T (Publication exchange (''post.created.'' @ k) body))
      = (if Start_Publisher \<in> set bs then {''feed-materialization''} else {})
    \<and> set (route matches T (Publication ''ws-fanout'' key body))
      = {''ws-fanout-'' @ to_str L i | i. Start_Fanout i \<in> set bs}
    \<and> set (route matches T (Publication ''messages-exchange'' (''message.sent.'' @ k) body))
      = (if Start_Counter \<in> set bs then {''message-counters''} else {})"
proof -
  have b: "(e, q, p) \<in> set (bindings T) \<longleftrightarrow>
      (Start_Publisher \<in> set bs \<and> e = exchange \<and> q = ''feed-materialization'' \<and> p = ''post.created.#'') \<or>
      (\<exists>i. Start_Fanout i \<in> set bs \<and> e = ''ws-fanout'' \<and> q = ''ws-fanout-'' @ to_str L i \<and> p = []) \<or>
      (Start_Counter \<in> set bs \<and> e = ''messages-exchange'' \<and> q = ''message-counters'' \<and> p = ''message.sent.#'')" for e q p
    unfolding assms(4) boots_sets Un_iff UN_iff boot_bindings_member no_topology_def topology.simps list.set empty_iff
    by blast
  have x: "(e, kind) \<in> set (exchanges T) \<longleftrightarrow>
      (Start_Publisher \<in> set bs \<and> e = exchange \<and> kind = kTopic) \<or>
      (\<exists>i. Start_Fanout i \<in> set bs \<and> e = ''ws-fanout'' \<and> kind = kFanOut) \<or>
      ((Start_Chat \<in> set bs \<or> Start_Counter \<in> set bs) \<and> e = ''messages-exchange'' \<and> kind = kTopic)" for e kind
    unfolding assms(4) boots_sets Un_iff UN_iff boot_exchanges_member no_topology_def topology.simps list.set empty_iff
    by blast
  note m = topic_broker.post_created_matches [OF assms(1), of k] topic_broker.message_sent_matches [OF assms(1), of k]
  have "set (route matches T (Publication exchange (''post.created.'' @ k) body))
      = (if Start_Publisher \<in> set bs then {''feed-materialization''} else {})"
    using m(1) assms(2,3)
    by (auto simp: set_route b x)
  moreover have "set (route matches T (Publication ''ws-fanout'' key body))
      = {''ws-fanout-'' @ to_str L i | i. Start_Fanout i \<in> set bs}"
    using assms(2,3)
    by (auto simp: set_route b x)
  moreover have "set (route matches T (Publication ''messages-exchange'' (''message.sent.'' @ k) body))
      = (if Start_Counter \<in> set bs then {''message-counters''} else {})"
    using m(2) assms(2,3)
    by (auto simp: set_route b x)
  ultimately show ?thesis by blast
qed

text \<open>The messages that the broker has put into a queue.\<close>

definition queued :: "(string \<Rightarrow> string \<Rightarrow> bool) \<Rightarrow> topology \<Rightarrow> string \<Rightarrow> publication list \<Rightarrow> string multiset" where
  "queued matches T name ms = mset (map pub_body (filter (\<lambda>m. name \<in> set (route matches T m)) ms))"

lemma queued_append: "queued matches T name (ms @ ns) = queued matches T name ms + queued matches T name ns"
  by (simp add: queued_def)

text \<open>What is published to a post exchange and to the fan-out exchange, in the queues of those who started.\<close>

lemma queued_post:
  assumes "topic_broker matches" and "exchange \<noteq> ''ws-fanout''" and "exchange \<noteq> ''messages-exchange''"
    and "T = fold (start L exchange) bs no_topology" and "Start_Publisher \<in> set bs"
  shows "queued matches T ''feed-materialization'' [Publication exchange (''post.created.'' @ k) body] = {#body#}"
  using events_reach_their_consumers [OF assms(1-4), of k body] assms(5) by (simp add: queued_def)

lemma queued_fanout:
  assumes "topic_broker matches" and "exchange \<noteq> ''ws-fanout''" and "exchange \<noteq> ''messages-exchange''"
    and "T = fold (start L exchange) bs no_topology" and "Start_Fanout i \<in> set bs"
  shows "queued matches T (''ws-fanout-'' @ to_str L i) (map (Publication ''ws-fanout'' key) out) = mset out"
proof -
  have "''ws-fanout-'' @ to_str L i \<in> set (route matches T (Publication ''ws-fanout'' key body))" for body
    using events_reach_their_consumers [OF assms(1-4), of _ body key] assms(5) by blast
  then show ?thesis by (simp add: queued_def filter_map o_def)
qed

text \<open>
  The queue of an instance goes with its consumer, and no other component brings it back. The
  exchanges, the other queues and their bindings stay.
\<close>

lemma instance_queue_gone:
  assumes "library L" and "exchange \<noteq> ''ws-fanout''"
    and "T = fold (start L exchange) bs no_topology" and "Start_Fanout i \<in> set bs"
    and "T' = fold (start L exchange) bs' (consumers_gone (''ws-fanout-'' @ to_str L i) T)"
  shows "(e, q, p) \<in> set (bindings T') \<longleftrightarrow> (\<exists>b \<in> set bs'. (e, q, p) \<in> boot_bindings L exchange b)
      \<or> (q \<noteq> ''ws-fanout-'' @ to_str L i \<and> (\<exists>b \<in> set bs. (e, q, p) \<in> boot_bindings L exchange b))"
    and "set (exchanges T') = (\<Union>b \<in> set bs' \<union> set bs. boot_exchanges exchange b)"
proof -
  have "(''ws-fanout-'' @ to_str L i, [kAutoDelete]) \<in> set (declared_queues T)"
    unfolding assms(3) boots_sets Un_iff UN_iff boot_queues_member using assms(4) by blast
  then have gone: "consumers_gone (''ws-fanout-'' @ to_str L i) T
      = T\<lparr>declared_queues := filter (\<lambda>d. fst d \<noteq> ''ws-fanout-'' @ to_str L i) (declared_queues T),
          bindings := filter (\<lambda>(e, q, p). q \<noteq> ''ws-fanout-'' @ to_str L i) (bindings T)\<rparr>"
    unfolding consumers_gone_def by auto
  have "bindings no_topology = []" "exchanges no_topology = []" by (simp_all add: no_topology_def)
  then show "(e, q, p) \<in> set (bindings T') \<longleftrightarrow> (\<exists>b \<in> set bs'. (e, q, p) \<in> boot_bindings L exchange b)
      \<or> (q \<noteq> ''ws-fanout-'' @ to_str L i \<and> (\<exists>b \<in> set bs. (e, q, p) \<in> boot_bindings L exchange b))"
    and "set (exchanges T') = (\<Union>b \<in> set bs' \<union> set bs. boot_exchanges exchange b)"
    unfolding assms(5) boots_sets gone using boots_sets(1,2) [of L exchange bs no_topology, folded assms(3)]
    by (auto simp del: append_Cons)
qed

lemma instance_bindings:
  assumes "library L" and "(e, ''ws-fanout-'' @ to_str L i, p) \<in> boot_bindings L exchange b"
  shows "b = Start_Fanout i"
  using assms by (auto simp: boot_bindings_member library.to_str_inject)

lemma durable_queues_stay:
  assumes "T = fold (start L exchange) bs no_topology" and "q \<in> {''feed-materialization'', ''message-counters''}"
  shows "consumers_gone q T = T"
proof -
  have "kAutoDelete \<notin> set flags" if "(q, flags) \<in> set (declared_queues T)" for flags
    using that assms(2) unfolding assms(1) boots_sets Un_iff UN_iff boot_queues_member
    by (auto simp: no_topology_def)
  then show ?thesis by (auto simp: consumers_gone_def)
qed

text \<open>A message sent before the counter service has ever started is lost.\<close>

lemma sent_message_lost_before_counter:
  "set (route ref_matches (fold (start ref_lib ''feed-exchange'') [Start_Chat, Start_Publisher] no_topology)
     (Publication ''messages-exchange'' ''message.sent.u'' ''event'')) = {}
   \<and> set (route ref_matches (fold (start ref_lib ''feed-exchange'') [Start_Chat, Start_Publisher] no_topology)
     (Publication ''feed-exchange'' ''post.created.u'' ''event'')) = {''feed-materialization''}"
  using events_reach_their_consumers [OF ref_broker_axioms _ _ refl, of "''feed-exchange''" ref_lib
      "[Start_Chat, Start_Publisher]" "''u''" "''event''"]
  by simp

end
