(* ===== verification/Consumers.thy ===== *)
theory Consumers
  imports Delivery Messaging Counter_Service Notification_Liveness
begin

text \<open>
  The queues of the three consumers, with calls failing on the way: the materialisation of post
  events (\<open>post_feed_consumer.cpp\<close>), the fan-out to the sessions of an instance
  (\<open>ws_fanout_consumer.cpp\<close>) and the counters (\<open>counter_consumer.cpp\<close>). Each of them
  meets the contract of \<open>at_least_once\<close>; what it promises follows from the log of the
  deliveries.
\<close>

section \<open>The materialisation of post events\<close>

text \<open>What the consumers of post events read from a message.\<close>

definition read_event :: "lib \<Rightarrow> string \<Rightarrow> exn + uuid \<times> uuid \<times> string" where
  "read_event L message =
     sum_bind (json_from_string L message) (\<lambda>json.
     sum_bind (sum_bind (field_string json ''postId'') (string_generator L)) (\<lambda>post_id.
     sum_bind (sum_bind (field_string json ''author_user_id'') (string_generator L)) (\<lambda>author_id.
     sum_bind (field_string json ''postText'') (\<lambda>text. Inr (post_id, author_id, text)))))"

definition well_formed :: "lib \<Rightarrow> string \<Rightarrow> bool" where
  "well_formed L message \<longleftrightarrow> (\<exists>event. read_event L message = Inr event)"

definition event_post :: "lib \<Rightarrow> string \<Rightarrow> feed_post" where
  "event_post L message =
     (case read_event L message of
        Inr (post_id, author_id, text) \<Rightarrow> \<lparr>fp_post_id = post_id, fp_text = text, fp_author = author_id\<rparr>
      | Inl _ \<Rightarrow> undefined)"

text \<open>The messages that concern a user: those of the authors whom the user follows.\<close>

definition concerns :: "lib \<Rightarrow> db \<Rightarrow> uuid \<Rightarrow> string \<Rightarrow> bool" where
  "concerns L d u message \<longleftrightarrow> follows d u (fp_author (event_post L message))"

text \<open>
  What a run leaves for one user: the replica \<open>d\<close>, the posts pushed to the front of the feed
  \<open>ps\<close> it began with (only the newest thousand are sure to be seen, an untrimmed list may be
  longer), and the fan-out messages published.
\<close>

definition feed_rep :: "lib \<Rightarrow> 'r redis \<Rightarrow> db \<Rightarrow> uuid \<Rightarrow> feed_post list \<Rightarrow> publication list \<Rightarrow>
    ('r, 'z) world_scheme \<Rightarrow> feed_post list \<times> string list \<Rightarrow> bool" where
  "feed_rep L R d u ps pub w a \<longleftrightarrow>
     slave w = d \<and> published w = pub @ map (Publication ''ws-fanout'' []) (snd a) \<and>
     (\<exists>fs. feed_holds L R (feed_redis w) u fs \<and> (fs = [] \<longleftrightarrow> ps = []) \<and> take 1000 fs = take 1000 (fst a @ ps))"

definition pushed :: "lib \<Rightarrow> db \<Rightarrow> uuid \<Rightarrow> feed_post list \<Rightarrow> string \<Rightarrow> feed_post list \<Rightarrow> feed_post list" where
  "pushed L d u ps m x = (if concerns L d u m \<and> ps \<noteq> [] then event_post L m # x else x)"

definition feed_effect :: "lib \<Rightarrow> db \<Rightarrow> uuid \<Rightarrow> feed_post list \<Rightarrow> string \<Rightarrow> bool \<Rightarrow>
    feed_post list \<times> string list \<Rightarrow> feed_post list \<times> string list \<Rightarrow> bool" where
  "feed_effect L d u ps m ok a b \<longleftrightarrow>
     (if ok then b = (pushed L d u ps m (fst a), snd a @ [m])
      else b \<in> {a, (pushed L d u ps m (fst a), snd a), (pushed L d u ps m (fst a), snd a @ [m])})"

text \<open>One follower of the loop.\<close>

definition push_body :: "lib \<Rightarrow> 'r redis \<Rightarrow> feed_post \<Rightarrow> uuid \<Rightarrow> (('r, 'z) world_scheme, unit) eff" where
  "push_body L R p v = (let key = MakeKey L v in
       bind (redis_get (\<lambda>r. r_exists R r key)) (\<lambda>found.
       if 0 < found
       then bind (redis_put (\<lambda>r. r_lpush R r key (SerializePost L p))) (\<lambda>_.
            redis_put (\<lambda>r. r_ltrim R r key 0 (int kMaxFeedSize - 1)))
       else ret ()))"

context feed_env
begin

lemma read_post_event [simp]: "read_event L (post_event L a i t) = Inr (i, a, t)"
  using event_round by (simp add: read_event_def)

lemma well_formed_post_event [simp]: "well_formed L (post_event L a i t)"
  by (simp add: well_formed_def)

lemma event_post_event [simp]:
  "event_post L (post_event L a i t) = \<lparr>fp_post_id = i, fp_text = t, fp_author = a\<rparr>"
  by (simp add: event_post_def)

lemma concerns_post_event [simp]: "concerns L d u (post_event L a i t) = follows d u a"
  by (simp add: concerns_def)

lemma feed_rep_faults: "feed_rep L R d u ps pub w a \<Longrightarrow> feed_rep L R d u ps pub (w\<lparr>faults := fs\<rparr>) a"
  by (simp add: feed_rep_def)

lemma feed_rep_lpush:
  assumes "feed_rep L R d u ps pub w (x, out)" and "ps \<noteq> []"
  shows "feed_rep L R d u ps pub (w\<lparr>feed_redis := r_lpush R (feed_redis w) (key u) (SerializePost L p)\<rparr>) (p # x, out)"
proof -
  obtain fs where fs: "feed_holds L R (feed_redis w) u fs" "take 1000 fs = take 1000 (x @ ps)"
    using assms(1) by (auto simp: feed_rep_def)
  from arg_cong [OF fs(2), of "take 999"] have "take 999 fs = take 999 (x @ ps)"
    by (simp del: take_append)
  then have "take 1000 (p # fs) = take 1000 (p # x @ ps)" by (simp del: take_append)
  with holds_lpush [OF fs(1), of p] assms show ?thesis by (auto simp: feed_rep_def)
qed

lemma feed_rep_ltrim:
  assumes "feed_rep L R d u ps pub w a"
  shows "feed_rep L R d u ps pub (w\<lparr>feed_redis := r_ltrim R (feed_redis w) (key u) 0 (int kMaxFeedSize - 1)\<rparr>) a"
proof -
  obtain fs where fs: "feed_holds L R (feed_redis w) u fs" "fs = [] \<longleftrightarrow> ps = []" "take 1000 fs = take 1000 (fst a @ ps)"
    using assms by (auto simp: feed_rep_def)
  from fs(3) have "take 1000 (take 1000 fs) = take 1000 (fst a @ ps)" by (simp del: take_append)
  moreover have "take 1000 fs = [] \<longleftrightarrow> ps = []" using fs(2) by simp
  ultimately have "\<exists>gs. feed_holds L R (r_ltrim R (feed_redis w) (key u) 0 (int kMaxFeedSize - 1)) u gs
      \<and> (gs = [] \<longleftrightarrow> ps = []) \<and> take 1000 gs = take 1000 (fst a @ ps)"
    using holds_trim [OF fs(1)] by blast
  with assms show ?thesis unfolding feed_rep_def by simp
qed

lemma feed_rep_found:
  assumes "feed_rep L R d u ps pub w a"
  shows "0 < r_exists R (feed_redis w) (key u) \<longleftrightarrow> ps \<noteq> []"
  using assms by (auto simp: feed_rep_def exists_pos holds_present)

lemma feed_rep_other:
  assumes "v \<noteq> u" and "feed_rep L R d u ps pub w a"
  shows "feed_rep L R d u ps pub (w\<lparr>feed_redis := r_lpush R (feed_redis w) (key v) y\<rparr>) a"
    and "feed_rep L R d u ps pub (w\<lparr>feed_redis := r_ltrim R (feed_redis w) (key v) i j\<rparr>) a"
  using assms(2) holds_other [OF not_sym [OF assms(1)]] by (simp_all add: feed_rep_def)

lemma push_other:
  fixes w :: "('r, 'z) world_scheme"
  assumes "v \<noteq> u"
  shows "robust (\<lambda>w :: ('r, 'z) world_scheme. feed_rep L R d u ps pub w a) (push_body L R p v)
    (\<lambda>_ w. feed_rep L R d u ps pub w a) (\<lambda>w. feed_rep L R d u ps pub w a)"
  unfolding push_body_def Let_def
  by (rule robust_redis_if, erule feed_rep_faults,
      rule robust_bind [where M = "\<lambda>_ w. feed_rep L R d u ps pub w a"]; (rule robust_redis_put | rule robust_ret)?)
    (simp_all add: feed_rep_faults feed_rep_other [OF assms] robust_ret)

lemma push_own:
  fixes w :: "('r, 'z) world_scheme"
  assumes "x' = (if ps = [] then x else p # x)"
  shows "robust (\<lambda>w :: ('r, 'z) world_scheme. feed_rep L R d u ps pub w (x, out)) (push_body L R p u)
    (\<lambda>_ w. feed_rep L R d u ps pub w (x', out)) (\<lambda>w. feed_rep L R d u ps pub w (x, out) \<or> feed_rep L R d u ps pub w (x', out))"
proof -
  have own: "robust (\<lambda>w :: ('r, 'z) world_scheme. feed_rep L R d u ps pub w (x, out))
      (bind (redis_put (\<lambda>r. r_lpush R r (key u) (SerializePost L p)))
         (\<lambda>_. redis_put (\<lambda>r. r_ltrim R r (key u) 0 (int kMaxFeedSize - 1))))
      (\<lambda>_ w. feed_rep L R d u ps pub w (p # x, out))
      (\<lambda>w. feed_rep L R d u ps pub w (x, out) \<or> feed_rep L R d u ps pub w (p # x, out))" if "ps \<noteq> []"
    by (rule robust_bind [where M = "\<lambda>_ w. feed_rep L R d u ps pub w (p # x, out)"]; rule robust_redis_put)
      (auto simp: feed_rep_faults feed_rep_lpush that feed_rep_ltrim)
  show ?thesis
    unfolding push_body_def Let_def
    by (rule robust_redis_branch [where b = "ps \<noteq> []"])
      (use own in \<open>auto simp: assms feed_rep_faults feed_rep_found intro: robust_ret\<close>)
qed

lemma push_loop_other:
  "u \<notin> set us \<Longrightarrow> robust (\<lambda>w :: ('r, 'z) world_scheme. feed_rep L R d u ps pub w a) (for_each us (push_body L R p))
    (\<lambda>_ w. feed_rep L R d u ps pub w a) (\<lambda>w. feed_rep L R d u ps pub w a)"
proof (induction us)
  case Nil
  show ?case unfolding for_each.simps by (rule robust_ret)
next
  case (Cons v us)
  then show ?case unfolding for_each.simps
    by (intro robust_bind [OF push_other]) auto
qed

lemma push_loop:
  assumes "distinct us" and "x' = (if u \<in> set us \<and> ps \<noteq> [] then p # x else x)"
  shows "robust (\<lambda>w :: ('r, 'z) world_scheme. feed_rep L R d u ps pub w (x, out)) (for_each us (push_body L R p))
    (\<lambda>_ w. feed_rep L R d u ps pub w (x', out))
    (\<lambda>w. feed_rep L R d u ps pub w (x, out) \<or> feed_rep L R d u ps pub w (x', out))"
  using assms
proof (induction us arbitrary: x')
  case Nil
  then show ?case unfolding for_each.simps by (intro robust_ret) simp
next
  case (Cons v us)
  show ?case
  proof (cases "v = u")
    case True
    with Cons.prems have "u \<notin> set us" and x': "x' = (if ps = [] then x else p # x)" by auto
    from push_loop_other [OF this(1)] have rest: "robust (\<lambda>w :: ('r, 'z) world_scheme. feed_rep L R d u ps pub w (x', out))
      (for_each us (push_body L R p)) (\<lambda>_ w. feed_rep L R d u ps pub w (x', out))
      (\<lambda>w. feed_rep L R d u ps pub w (x, out) \<or> feed_rep L R d u ps pub w (x', out))"
      by (rule robust_conseq) auto
    show ?thesis
      unfolding for_each.simps True by (rule robust_bind [OF push_own [OF x'] rest])
  next
    case False
    with Cons.prems have "x' = (if u \<in> set us \<and> ps \<noteq> [] then p # x else x)" "distinct us" by auto
    note rest = Cons.IH [OF this(2,1)]
    from push_other [OF False] have "robust (\<lambda>w :: ('r, 'z) world_scheme. feed_rep L R d u ps pub w (x, out)) (push_body L R p v)
      (\<lambda>_ w. feed_rep L R d u ps pub w (x, out))
      (\<lambda>w. feed_rep L R d u ps pub w (x, out) \<or> feed_rep L R d u ps pub w (x', out))"
      by (rule robust_conseq) auto
    from robust_bind [OF this rest] show ?thesis unfolding for_each.simps .
  qed
qed

lemma process_well_formed:
  assumes "read_event L m = Inr (i, a, t)"
  shows "PostFeedConsumer_Process L R P m = bind (bind (GetFollowers P a)
      (\<lambda>followers. for_each followers (push_body L R \<lparr>fp_post_id = i, fp_text = t, fp_author = a\<rparr>)))
    (\<lambda>_. publish ''ws-fanout'' [] m)"
  by (simp add: PostFeedConsumer_Process_def read_event_def [symmetric] assms bind_lift_Inr OnPostCreated_def
      push_body_def [abs_def] Let_def)

lemma feed_rep_publish:
  "feed_rep L R d u ps pub w (x, out) \<Longrightarrow>
   feed_rep L R d u ps pub (w\<lparr>published := published w @ [Publication ''ws-fanout'' [] m]\<rparr>) (x, out @ [m])"
  by (simp add: feed_rep_def)

lemma feed_simulates:
  assumes "db_ok d" and "well_formed L m"
  shows "robust (\<lambda>w :: ('r, 'z) world_scheme. feed_rep L R d u ps pub w (x, out)) (PostFeedConsumer_Process L R P m)
    (\<lambda>_ w. feed_rep L R d u ps pub w (pushed L d u ps m x, out @ [m]))
    (\<lambda>w. \<exists>b. feed_rep L R d u ps pub w b \<and> feed_effect L d u ps m False (x, out) b)"
proof -
  let ?x = "pushed L d u ps m x" and ?rep = "feed_rep L R d u ps pub"
  let ?Z = "\<lambda>w. \<exists>b. ?rep w b \<and> feed_effect L d u ps m False (x, out) b"
  obtain i a t where m: "read_event L m = Inr (i, a, t)" using assms(2) by (auto simp: well_formed_def)
  let ?p = "\<lparr>fp_post_id = i, fp_text = t, fp_author = a\<rparr>"
  have x: "?x = (if u \<in> set (sql_followers P a d) \<and> ps \<noteq> [] then ?p # x else x)"
    by (simp add: pushed_def concerns_def event_post_def m set_sql_followers [OF planning_axioms])
  have Z: "?Z w" if "?rep w (x, out) \<or> ?rep w (?x, out) \<or> ?rep w (?x, out @ [m])" for w
    using that by (auto simp: feed_effect_def)
  have slave: "slave w = d" if "?rep w (x, out)" for w :: "('r, 'z) world_scheme"
    using that by (simp add: feed_rep_def)
  have followers: "robust (\<lambda>w :: ('r, 'z) world_scheme. ?rep w (x, out)) (GetFollowers P a)
    (\<lambda>v w. v = sql_followers P a d \<and> ?rep w (x, out)) ?Z"
    unfolding GetFollowers_def
    by (rule robust_conseq [OF robust_from_slave [of "\<lambda>w. ?rep w (x, out)"]]) (auto simp: feed_rep_faults slave intro: Z simp del: split_paired_Ex)
  have loop: "robust (\<lambda>w :: ('r, 'z) world_scheme. v = sql_followers P a d \<and> ?rep w (x, out))
      (for_each v (push_body L R ?p)) (\<lambda>_ w. ?rep w (?x, out)) ?Z" for v
  proof (cases "v = sql_followers P a d")
    case True
    show ?thesis unfolding True
      by (rule robust_conseq [OF push_loop [OF distinct_followers [OF assms(1)] x]]) (auto intro: Z simp del: split_paired_Ex)
  qed (simp add: robust_def)
  have "robust (\<lambda>w :: ('r, 'z) world_scheme. ?rep w (?x, out)) (publish ''ws-fanout'' [] m) (\<lambda>_ w. ?rep w (?x, out @ [m])) ?Z"
    by (rule robust_publish) (auto simp: feed_rep_faults feed_rep_publish intro: Z simp del: split_paired_Ex)
  then show ?thesis
    unfolding process_well_formed [OF m] by (intro robust_bind [OF robust_bind [OF followers loop]])
qed

text \<open>The consumer of post events keeps the contract of its queue.\<close>

lemma feed_contract:
  assumes "db_ok d"
  shows "at_least_once (PostFeedConsumer_Process L R P) (well_formed L)
    (\<lambda>_ w :: ('r, 'z) world_scheme. feed_rep L R d u ps pub w) (feed_effect L d u ps)"
proof
  fix m n and s :: "('r, 'z) world_scheme" and a
  assume m: "well_formed L m" and rep: "feed_rep L R d u ps pub s a"
  obtain x out where a: "a = (x, out)" by fastforce
  show "robust (\<lambda>t. t = s) (PostFeedConsumer_Process L R P m)
      (\<lambda>_ t. \<exists>b. feed_rep L R d u ps pub t b \<and> feed_effect L d u ps m True a b)
      (\<lambda>t. \<exists>b. feed_rep L R d u ps pub t b \<and> feed_effect L d u ps m False a b)"
    by (rule robust_conseq [OF feed_simulates [OF assms m, of u ps pub x out]])
      (use rep in \<open>auto simp: a feed_effect_def\<close>)
qed

end

interpretation ref_feed_queue: at_least_once "PostFeedConsumer_Process ref_lib ref_redis ref_planner" "well_formed ref_lib"
  "\<lambda>_ w :: keyspace world. feed_rep ref_lib ref_redis sample_db u ps pub w" "feed_effect ref_lib sample_db u ps"
  for u ps pub
  by (rule ref_feed.feed_contract [OF sample_db_ok])

text \<open>What the log says about the posts pushed and the messages passed on.\<close>

definition posts_for :: "lib \<Rightarrow> db \<Rightarrow> uuid \<Rightarrow> string multiset \<Rightarrow> feed_post multiset" where
  "posts_for L d u q = image_mset (event_post L) (filter_mset (concerns L d u) q)"

lemma posts_for_simps [simp]:
  "posts_for L d u {#} = {#}"
  "posts_for L d u (add_mset m q) = (if concerns L d u m then add_mset (event_post L m) (posts_for L d u q) else posts_for L d u q)"
  by (simp_all add: posts_for_def)

lemma feed_effects_log:
  assumes "effects (feed_effect L d u ps) log a b"
  shows "(ps \<noteq> [] \<longrightarrow> posts_for L d u (acknowledged log) + mset (fst a) \<subseteq># mset (fst b)
      \<and> mset (fst b) \<subseteq># posts_for L d u (delivered log) + mset (fst a))
    \<and> acknowledged log + mset (snd a) \<subseteq># mset (snd b) \<and> mset (snd b) \<subseteq># delivered log + mset (snd a)"
  using assms
proof (induction rule: effects.induct)
  case (step log a b m x c)
  have le: "X \<subseteq># add_mset y Z" if "X \<subseteq># Z" for X Z :: "'x multiset" and y
    by (rule subset_mset.order_trans [OF that subset_mset.less_imp_le [OF multi_psub_of_add_self]])
  from step show ?case
    by (cases a; cases b; cases c; cases x; cases "concerns L d u m")
      (auto simp: feed_effect_def pushed_def intro: le)
qed simp

section \<open>The fan-out to the sessions of one instance\<close>

text \<open>The text a session gets for a message: the event printed again.\<close>

definition fanout_text :: "lib \<Rightarrow> string \<Rightarrow> string" where
  "fanout_text L m = (let p = event_post L m in post_event L (fp_author p) (fp_post_id p) (fp_text p))"

definition fanout_rep :: "db \<Rightarrow> nat \<Rightarrow> ws_handler \<Rightarrow> string list \<Rightarrow> ('r, 'z) node_scheme \<Rightarrow> string list \<Rightarrow> bool" where
  "fanout_rep d s h before w a \<longleftrightarrow> ws_inv w \<and> slave w = d \<and> handlers w s = Some h \<and> push_log w s = before @ a"

definition notified :: "lib \<Rightarrow> db \<Rightarrow> ws_handler \<Rightarrow> string \<Rightarrow> bool" where
  "notified L d h m \<longleftrightarrow> open_phase (wh_phase h) \<and> concerns L d (wh_user h) m"

text \<open>A delivery that fails has pushed nothing: the only call that can fail comes before the pushes.\<close>

definition fanout_effect :: "lib \<Rightarrow> db \<Rightarrow> ws_handler \<Rightarrow> string \<Rightarrow> bool \<Rightarrow> string list \<Rightarrow> string list \<Rightarrow> bool" where
  "fanout_effect L d h m ok a b \<longleftrightarrow> b = (if ok \<and> notified L d h m then a @ [fanout_text L m] else a)"

lemma notify_user_world:
  "slave (notify_user msg fid w) = slave w" "faults (notify_user msg fid w) = faults w"
proof -
  have "slave (fold (\<lambda>wp w. if wp \<in> live w then PushNoblock wp msg w else w) l w) = slave w
      \<and> faults (fold (\<lambda>wp w. if wp \<in> live w then PushNoblock wp msg w else w) l w) = faults w" for l
    by (induction l arbitrary: w) (auto simp: PushNoblock_def)
  then show "slave (notify_user msg fid w) = slave w" "faults (notify_user msg fid w) = faults w"
    by (simp_all add: notify_user_def split: option.split)
qed

lemma notify_all_world:
  "for_each fids (\<lambda>fid. modify (notify_user msg fid)) w = (r, w') \<Longrightarrow> ws_inv w \<Longrightarrow>
   slave w' = slave w \<and> faults w' = faults w \<and> handlers w' = handlers w \<and> ws_inv w'"
  by (induction fids arbitrary: w)
    (auto simp: bind_def notify_user_world notify_user_frame notify_user_inv)

context feed_env
begin

lemma read_fanout:
  assumes "read_event L m = Inr (i, a, t)"
  shows "WsFanoutConsumer_Process L P m = NotifyFollowers L P a i t"
  using assms
  by (auto simp: WsFanoutConsumer_Process_def read_event_def bind_def fun_eq_iff sum_bind_def split: sum.splits)

text \<open>The pushes for one event, for one session.\<close>

lemma notify_followers_log:
  assumes "ws_inv w" and "db_ok (slave w)" and "handlers w s = Some h"
  shows "\<exists>w'. for_each (sql_followers P a (slave w)) (\<lambda>fid. modify (notify_user msg fid)) w = (Inr (), w')
    \<and> push_log w' s = push_log w s @ (if open_phase (wh_phase h) \<and> follows (slave w) (wh_user h) a then [msg] else [])"
proof -
  have user: "u = wh_user h" if "sessions w u = Some l" "s \<in> set l" for u l
    using ws_inv_parts(2) [OF assms(1) that] assms(3) by auto
  have "(s \<in> live w \<and> (\<exists>fid \<in> set (sql_followers P a (slave w)). \<exists>l. sessions w fid = Some l \<and> s \<in> set l))
      \<longleftrightarrow> open_phase (wh_phase h) \<and> follows (slave w) (wh_user h) a"
    using ws_inv_parts(3) [OF assms(1), of s] ws_inv_parts(4) [OF assms(1,3)] user assms(3)
    by (auto simp: set_sql_followers [OF planning_axioms])
  moreover have "\<exists>w'. for_each (sql_followers P a (slave w)) (\<lambda>fid. modify (notify_user msg fid)) w = (Inr (), w')
      \<and> push_log w' s = push_log w s @ (if s \<in> live w
        \<and> (\<exists>fid \<in> set (sql_followers P a (slave w)). \<exists>l. sessions w fid = Some l \<and> s \<in> set l) then [msg] else [])"
    using distinct_followers [OF assms(2)] ws_inv_parts(1) [OF assms(1)] user
    by (intro notify_all_log) blast+
  ultimately show ?thesis by simp
qed

lemma fanout_simulates:
  assumes "db_ok d" and "well_formed L m"
  shows "robust (\<lambda>w :: 'r node. fanout_rep d s h before w x) (WsFanoutConsumer_Process L P m)
    (\<lambda>_ w. \<exists>y. fanout_rep d s h before w y \<and> fanout_effect L d h m True x y)
    (\<lambda>w. fanout_rep d s h before w x)"
proof -
  obtain i a t where m: "read_event L m = Inr (i, a, t)" using assms(2) by (auto simp: well_formed_def)
  let ?rep = "fanout_rep d s h before" and ?msg = "post_event L a i t"
  have stable: "?rep (w\<lparr>faults := fs\<rparr>) x" if "?rep w x" for w :: "'r node" and fs
    using that by (simp add: fanout_rep_def ws_inv_def)
  have pushes: "robust (\<lambda>w :: 'r node. v = sql_followers P a (slave w) \<and> ?rep w x)
      (for_each v (\<lambda>fid. modify (notify_user ?msg fid)))
      (\<lambda>_ w. \<exists>y. ?rep w y \<and> fanout_effect L d h m True x y) (\<lambda>w. ?rep w x)" for v
  proof (rule robust_pure)
    fix w :: "'r node" assume "v = sql_followers P a (slave w) \<and> ?rep w x"
    then have w: "v = sql_followers P a (slave w)" "ws_inv w" "slave w = d" "handlers w s = Some h" "push_log w s = before @ x"
      by (simp_all add: fanout_rep_def)
    from notify_followers_log [OF w(2) _ w(4), of a ?msg] assms(1) w(1,3) obtain w' where
      w': "for_each v (\<lambda>fid. modify (notify_user ?msg fid)) w = (Inr (), w')"
      "push_log w' s = push_log w s @ (if open_phase (wh_phase h) \<and> follows d (wh_user h) a then [?msg] else [])"
      by auto
    have "\<exists>y. ?rep w' y \<and> fanout_effect L d h m True x y"
      using notify_all_world [OF w'(1) w(2)] w w'(2)
      by (simp add: fanout_rep_def fanout_effect_def notified_def concerns_def fanout_text_def event_post_def m Let_def)
    with w'(1) notify_all_world [OF w'(1) w(2)]
    show "\<exists>v' t. for_each v (\<lambda>fid. modify (notify_user ?msg fid)) w = (Inr v', t)
        \<and> (\<exists>y. ?rep t y \<and> fanout_effect L d h m True x y) \<and> faults t = faults w" by blast
  qed
  have followers: "robust (\<lambda>w :: 'r node. ?rep w x) (WsManager_GetFollowers P a)
      (\<lambda>v w. v = sql_followers P a (slave w) \<and> ?rep w x) (\<lambda>w. ?rep w x)"
    unfolding WsManager_GetFollowers_def by (rule robust_from_slave) (rule stable)
  from robust_bind [OF followers pushes] show ?thesis
    unfolding read_fanout [OF m] NotifyFollowers_def Let_def by (simp add: post_event_def)
qed

lemma fanout_contract:
  assumes "db_ok d"
  shows "at_least_once (WsFanoutConsumer_Process L P) (well_formed L)
    (\<lambda>_ w :: 'r node. fanout_rep d s h before w) (fanout_effect L d h)"
proof
  fix m n a and w :: "'r node"
  assume m: "well_formed L m" and rep: "fanout_rep d s h before w a"
  show "robust (\<lambda>t. t = w) (WsFanoutConsumer_Process L P m)
      (\<lambda>_ t. \<exists>b. fanout_rep d s h before t b \<and> fanout_effect L d h m True a b)
      (\<lambda>t. \<exists>b. fanout_rep d s h before t b \<and> fanout_effect L d h m False a b)"
    by (rule robust_conseq [OF fanout_simulates [OF assms m, of s h before a]])
      (use rep in \<open>auto simp: fanout_effect_def\<close>)
qed

end

lemma fanout_effects_log:
  "effects (fanout_effect L d h) log a b \<Longrightarrow>
   b = a @ map (fanout_text L) (filter (notified L d h) (returned log))"
  by (induction rule: effects.induct) (auto simp: fanout_effect_def)

interpretation ref_fanout_queue: at_least_once "WsFanoutConsumer_Process ref_lib ref_planner" "well_formed ref_lib"
  "\<lambda>_ w :: keyspace node. fanout_rep sample_db s h before w" "fanout_effect ref_lib sample_db h"
  for s h before
  by (rule ref_feed.fanout_contract [OF sample_db_ok])

section \<open>The counters\<close>

definition read_sent :: "lib \<Rightarrow> string \<Rightarrow> exn + string \<times> string" where
  "read_sent L message =
     sum_bind (json_from_string L message) (\<lambda>json.
     sum_bind (field_string json ''to_user_id'') (\<lambda>to_user_id.
     sum_bind (field_string json ''from_user_id'') (\<lambda>from_user_id. Inr (to_user_id, from_user_id))))"

type_synonym tally = "string \<Rightarrow> counts \<times> int option"

text \<open>The two increments for one message.\<close>

definition add_total :: "string \<Rightarrow> tally \<Rightarrow> tally" where
  "add_total receiver a = a(receiver := (fst (a receiver), Some (total_of (snd (a receiver)) + 1)))"

definition add_dialog :: "string \<Rightarrow> string \<Rightarrow> tally \<Rightarrow> tally" where
  "add_dialog receiver sender a =
     a(receiver := ((fst (a receiver))(sender \<mapsto> Suc (count_of (fst (a receiver)) sender)), snd (a receiver)))"

definition counter_effect :: "lib \<Rightarrow> string \<Rightarrow> bool \<Rightarrow> tally \<Rightarrow> tally \<Rightarrow> bool" where
  "counter_effect L m ok a b \<longleftrightarrow>
     (case read_sent L m of
        Inl _ \<Rightarrow> False
      | Inr (receiver, sender) \<Rightarrow>
          (if ok then b = add_dialog receiver sender (add_total receiver a)
           else b \<in> {a, add_total receiver a, add_dialog receiver sender (add_total receiver a)}))"

text \<open>The hashes hold the tally, with room for \<open>k\<close> increments of a total and \<open>n\<close> of a dialog.\<close>

definition tally_rep :: "'r redis \<Rightarrow> nat \<Rightarrow> nat \<Rightarrow> ('r, 'z) dialog_world_scheme \<Rightarrow> tally \<Rightarrow> bool" where
  "tally_rep R k n w a \<longleftrightarrow> (\<forall>u. counter_holds R (counter_redis w) u (fst (a u)) (snd (a u))
     \<and> 0 \<le> total_of (snd (a u)) \<and> total_of (snd (a u)) + int k < 2 ^ 53
     \<and> int (unread (fst (a u))) + int n < 2 ^ 53)"

lemma tally_repD:
  assumes "tally_rep R k n w a"
  shows "counter_holds R (counter_redis w) u (fst (a u)) (snd (a u))"
    and "0 \<le> total_of (snd (a u))" and "total_of (snd (a u)) + int k < 2 ^ 53"
    and "int (unread (fst (a u))) + int n < 2 ^ 53"
  using assms unfolding tally_rep_def by blast+

lemma tally_rep_less:
  assumes "tally_rep R k n w a" and "k' \<le> k" and "n' \<le> n"
  shows "tally_rep R k' n' w a"
  unfolding tally_rep_def
proof (intro allI conjI)
  fix u
  note d = tally_repD [OF assms(1), of u]
  show "counter_holds R (counter_redis w) u (fst (a u)) (snd (a u))" "0 \<le> total_of (snd (a u))" by (fact d)+
  show "total_of (snd (a u)) + int k' < 2 ^ 53" "int (unread (fst (a u))) + int n' < 2 ^ 53"
    using d(3,4) assms(2,3) by linarith+
qed

lemma tally_rep_faults: "tally_rep R k n w a \<Longrightarrow> tally_rep R k n (w\<lparr>faults := fs\<rparr>) a"
  by (simp add: tally_rep_def)

text \<open>A step on the hash of one user.\<close>

lemma tally_step:
  assumes "tally_rep R k n w a" and "\<And>v. v \<noteq> u \<Longrightarrow> b v = a v"
    and "\<And>v m t. v \<noteq> u \<Longrightarrow> counter_holds R (counter_redis w) v m t \<Longrightarrow> counter_holds R r v m t"
    and "counter_holds R r u (fst (b u)) (snd (b u))" and "0 \<le> total_of (snd (b u))"
    and "k' \<le> k" and "total_of (snd (b u)) + int k' < 2 ^ 53"
    and "n' \<le> n" and "int (unread (fst (b u))) + int n' < 2 ^ 53"
  shows "tally_rep R k' n' (w\<lparr>counter_redis := r\<rparr>) b"
  unfolding tally_rep_def
proof (intro allI)
  fix v
  show "counter_holds R (counter_redis (w\<lparr>counter_redis := r\<rparr>)) v (fst (b v)) (snd (b v)) \<and> 0 \<le> total_of (snd (b v))
      \<and> total_of (snd (b v)) + int k' < 2 ^ 53 \<and> int (unread (fst (b v))) + int n' < 2 ^ 53"
    using tally_repD [OF tally_rep_less [OF assms(1,6,8)], of v] assms(2-5,7,9) by (cases "v = u") auto
qed

context chat_env
begin

lemma tally_add_total:
  assumes "tally_rep R (Suc k) n w a"
  shows "\<exists>v r. r_hincrby R (counter_redis w) (counter_key u) ''total'' 1 = (Inr v, r)
    \<and> tally_rep R k n (w\<lparr>counter_redis := r\<rparr>) (add_total u a)"
proof -
  note d = tally_repD [OF assms]
  have "in_int64 (total_of (snd (a u)))" "in_int64 (total_of (snd (a u)) + 1)"
    using d(2,3) [of u] by (auto simp: in_int64_def)
  note run = holds_incr_total [OF d(1) this]
  have "tally_rep R k n (w\<lparr>counter_redis := snd (r_hincrby R (counter_redis w) (counter_key u) ''total'' 1)\<rparr>) (add_total u a)"
    by (rule tally_step [OF assms, where u = u])
      (use run d(2-4) [of u] holds_other_user(2) in \<open>auto simp: add_total_def total_of_def\<close>)
  with run show ?thesis
    by (cases "r_hincrby R (counter_redis w) (counter_key u) ''total'' 1") auto
qed

lemma tally_add_dialog:
  assumes "tally_rep R k (Suc n) w a"
  shows "\<exists>v r. r_hincrby R (counter_redis w) (counter_key u) (dialog_field p) 1 = (Inr v, r)
    \<and> tally_rep R k n (w\<lparr>counter_redis := r\<rparr>) (add_dialog u p a)"
proof -
  note d = tally_repD [OF assms]
  have fin: "finite (dom (fst (a u)))" using d(1) [of u] by (simp add: counter_holds_def)
  have "in_int64 (int (Suc (count_of (fst (a u)) p)))"
    using count_le_unread [OF fin, of p] d(4) [of u] by (auto simp: in_int64_def)
  note run = holds_incr_dialog [OF d(1) this]
  have "tally_rep R k n (w\<lparr>counter_redis := snd (r_hincrby R (counter_redis w) (counter_key u) (dialog_field p) 1)\<rparr>)
      (add_dialog u p a)"
    by (rule tally_step [OF assms, where u = u])
      (use run d(2-4) [of u] holds_other_user(2) in \<open>auto simp: add_dialog_def unread_suc [OF fin]\<close>)
  with run show ?thesis
    by (cases "r_hincrby R (counter_redis w) (counter_key u) (dialog_field p) 1") auto
qed

lemma robust_counter_call:
  assumes "\<And>w fs. X w \<Longrightarrow> X (w\<lparr>faults := fs\<rparr>)"
    and "\<And>w. X w \<Longrightarrow> \<exists>v r. f (counter_redis w) = (Inr v, r) \<and> Y (w\<lparr>counter_redis := r\<rparr>)"
    and "\<And>w. X w \<Longrightarrow> Z w" and "\<And>w. Y w \<Longrightarrow> Z w"
  shows "robust X (counter_call f) (\<lambda>_. Y) Z"
  unfolding counter_call_def
proof (rule robust_ext)
  fix w assume "X w"
  with assms(2) show "\<exists>a t. (case f (counter_redis w) of (x, r) \<Rightarrow> (x, w\<lparr>counter_redis := r\<rparr>)) = (Inr a, t)
      \<and> Y t \<and> faults t = faults w" by fastforce
qed (use assms in auto)

lemma read_counted:
  assumes "read_sent L m = Inr (u, p)"
  shows "CounterConsumer_Process L R m
    = bind (counter_call (\<lambda>r. r_hincrby R r (counter_key u) ''total'' 1)) (\<lambda>_.
      bind (counter_call (\<lambda>r. r_hincrby R r (counter_key u) (dialog_field p) 1)) (\<lambda>_. ret ()))"
  by (simp add: CounterConsumer_Process_def read_sent_def [symmetric] assms bind_def fun_eq_iff Let_def)

lemma read_sent_event [simp]: "read_sent L (message_sent_event L a b) = Inr (b, a)"
  using sent_event_round by (simp add: read_sent_def)

lemma counter_simulates:
  assumes "read_sent L m = Inr (u, p)"
  shows "robust (\<lambda>w :: ('r, 'z) dialog_world_scheme. tally_rep R (Suc n) (Suc n) w a) (CounterConsumer_Process L R m)
    (\<lambda>_ w. tally_rep R n n w (add_dialog u p (add_total u a)))
    (\<lambda>w. tally_rep R n n w a \<or> tally_rep R n n w (add_total u a) \<or> tally_rep R n n w (add_dialog u p (add_total u a)))"
  unfolding read_counted [OF assms]
  by (rule robust_bind [where M = "\<lambda>_ w. tally_rep R n (Suc n) w (add_total u a)"],
      rule robust_counter_call; (rule robust_bind [where M = "\<lambda>_ w. tally_rep R n n w (add_dialog u p (add_total u a))"],
      rule robust_counter_call)?)
    (auto simp: tally_rep_faults tally_add_total tally_add_dialog intro: robust_ret tally_rep_less)

lemma counter_contract:
  "at_least_once (CounterConsumer_Process L R) (\<lambda>m. \<exists>x. read_sent L m = Inr x)
    (\<lambda>n w :: ('r, 'z) dialog_world_scheme. tally_rep R n n w) (counter_effect L)"
proof
  fix m n a and w :: "('r, 'z) dialog_world_scheme"
  assume "\<exists>x. read_sent L m = Inr x" and rep: "tally_rep R (Suc n) (Suc n) w a"
  then obtain u p where m: "read_sent L m = Inr (u, p)" by auto
  show "robust (\<lambda>t. t = w) (CounterConsumer_Process L R m)
      (\<lambda>_ t. \<exists>b. tally_rep R n n t b \<and> counter_effect L m True a b)
      (\<lambda>t. \<exists>b. tally_rep R n n t b \<and> counter_effect L m False a b)"
    by (rule robust_conseq [OF counter_simulates [OF m, of n a]])
      (use rep in \<open>auto simp: counter_effect_def m\<close>)
qed

end

interpretation ref_counter_queue: at_least_once "CounterConsumer_Process ref_lib ref_redis"
  "\<lambda>m. \<exists>x. read_sent ref_lib m = Inr x" "\<lambda>n w :: keyspace dialog_world. tally_rep ref_redis n n w" "counter_effect ref_lib"
  by (rule ref_chat.counter_contract)

text \<open>How many of the messages go to a user, and from one sender to a user.\<close>

definition received :: "lib \<Rightarrow> string \<Rightarrow> string multiset \<Rightarrow> nat" where
  "received L u q = size (filter_mset (\<lambda>m. \<exists>p. read_sent L m = Inr (u, p)) q)"

definition sent_by :: "lib \<Rightarrow> string \<Rightarrow> string \<Rightarrow> string multiset \<Rightarrow> nat" where
  "sent_by L p u q = size (filter_mset (\<lambda>m. read_sent L m = Inr (u, p)) q)"

lemma add_both_counts:
  "count_of (fst (add_dialog v p (add_total v a) u)) s = count_of (fst (a u)) s + (if u = v \<and> s = p then 1 else 0)"
  "total_of (snd (add_dialog v p (add_total v a) u)) = total_of (snd (a u)) + (if u = v then 1 else 0)"
  "count_of (fst (add_total v a u)) s = count_of (fst (a u)) s"
  "total_of (snd (add_total v a u)) = total_of (snd (a u)) + (if u = v then 1 else 0)"
  "fst (add_total v a u) = fst (a u)"
  by (auto simp: add_dialog_def add_total_def count_of_upd total_of_def)

lemma add_both_unread:
  assumes "finite (dom (fst (a u)))"
  shows "unread (fst (add_dialog v p (add_total v a) u)) = unread (fst (a u)) + (if u = v then 1 else 0)"
    and "finite (dom (fst (add_dialog v p (add_total v a) u)))"
  using assms by (auto simp: add_dialog_def add_total_def unread_suc)

lemma counter_effectE:
  assumes "counter_effect L m ok a b"
  obtains v s where "read_sent L m = Inr (v, s)" and "b = add_dialog v s (add_total v a)"
  | v s where "read_sent L m = Inr (v, s)" and "\<not> ok" and "b = a"
  | v s where "read_sent L m = Inr (v, s)" and "\<not> ok" and "b = add_total v a"
  using assms by (auto simp: counter_effect_def split: sum.splits if_splits)

lemma counter_effects_counts:
  assumes "effects (counter_effect L) log a b"
  shows "count_of (fst (a u)) p + sent_by L p u (acknowledged log) \<le> count_of (fst (b u)) p
    \<and> count_of (fst (b u)) p \<le> count_of (fst (a u)) p + sent_by L p u (delivered log)
    \<and> total_of (snd (b u)) \<le> total_of (snd (a u)) + int (received L u (delivered log))"
  using assms
proof (induction rule: effects.induct)
  case (step log a b m x c)
  from step.hyps(2) show ?case
    using step.IH by (cases rule: counter_effectE) (auto simp: add_both_counts sent_by_def received_def)
qed (simp add: sent_by_def received_def)

text \<open>The total runs ahead of the dialogs by at most one for each delivery that threw.\<close>

lemma counter_effects_drift:
  assumes "effects (counter_effect L) log a b" and "finite (dom (fst (a u)))"
  shows "finite (dom (fst (b u)))
    \<and> total_of (snd (a u)) - int (unread (fst (a u))) \<le> total_of (snd (b u)) - int (unread (fst (b u)))
    \<and> total_of (snd (b u)) - int (unread (fst (b u)))
        \<le> total_of (snd (a u)) - int (unread (fst (a u))) + int (throws log)"
  using assms
proof (induction rule: effects.induct)
  case (step log a b m x c)
  from step.hyps(2) show ?case
    using step.IH step.prems by (cases rule: counter_effectE) (auto simp: add_both_counts add_both_unread)
qed simp

lemma counter_effects_total:
  assumes "effects (counter_effect L) log a b"
  shows "total_of (snd (a u)) + int (received L u (acknowledged log)) \<le> total_of (snd (b u))
    \<and> total_of (snd (b u)) \<le> total_of (snd (a u)) + int (received L u (acknowledged log)) + int (losses log + throws log)"
  using assms
proof (induction rule: effects.induct)
  case (step log a b m x c)
  from step.hyps(2) show ?case
    using step.IH by (cases rule: counter_effectE; cases x) (auto simp: add_both_counts received_def)
qed (simp add: received_def)

section \<open>Malformed messages\<close>

lemma malformed_throws:
  assumes "\<not> well_formed L m"
  shows "\<exists>e. PostFeedConsumer_Process L R P m w = (Inl e, w)"
    and "\<exists>e. WsFanoutConsumer_Process L P m v = (Inl e, v)"
proof -
  obtain e where e: "read_event L m = Inl e" using assms by (cases "read_event L m") (auto simp: well_formed_def)
  then show "\<exists>e. PostFeedConsumer_Process L R P m w = (Inl e, w)"
    by (simp add: PostFeedConsumer_Process_def read_event_def [symmetric] bind_def)
  from e show "\<exists>e. WsFanoutConsumer_Process L P m v = (Inl e, v)"
    by (auto simp: WsFanoutConsumer_Process_def read_event_def bind_def sum_bind_def split: sum.splits)
qed

text \<open>
  A message that does not parse is never acknowledged and can be delivered any number of times
  without any other message being delivered: the queue has no limit for redeliveries.
\<close>

lemma malformed_event_stays:
  assumes "\<not> well_formed L m" and "m \<in># q"
  shows "delivers (PostFeedConsumer_Process L R P) q w log q' w' \<Longrightarrow> m \<in># q'"
    and "\<exists>w'. delivers (PostFeedConsumer_Process L R P) q w (replicate n (m, Threw)) q w'"
  using poison_stays [of "PostFeedConsumer_Process L R P" q w log q' w' m]
    poison_forever [of m q "PostFeedConsumer_Process L R P" w n] assms(2) malformed_throws(1) [OF assms(1), of R P]
  by blast+

section \<open>Runs of the queues\<close>

lemma feed_queue_run:
  fixes w :: "('r, 'z) world_scheme"
  assumes "feed_env L R P" and "db_ok (slave w)" and "\<forall>m \<in># q. well_formed L m"
    and "feed_holds L R (feed_redis w) u ps"
  shows "\<exists>log w'. losses log = 0 \<and> delivers (PostFeedConsumer_Process L R P) q w log {#} w'"
    and "delivers (PostFeedConsumer_Process L R P) q w log q' w' \<Longrightarrow>
         length log + size q' \<le> size q + failures w + losses log"
    and "delivers (PostFeedConsumer_Process L R P) q w log {#} w' \<Longrightarrow>
         (ps \<noteq> [] \<longrightarrow> (\<exists>x fs. feed_holds L R (feed_redis w') u fs \<and> take 1000 fs = take 1000 (x @ ps)
            \<and> posts_for L (slave w) u q \<subseteq># mset x \<and> mset x \<subseteq># posts_for L (slave w) u (delivered log)))
       \<and> (\<exists>out. published w' = published w @ map (Publication ''ws-fanout'' []) out
            \<and> q \<subseteq># mset out \<and> mset out \<subseteq># delivered log)"
proof -
  note contract = feed_env.feed_contract [OF assms(1,2), of u ps "published w", where 'z = 'z]
  have rep: "feed_rep L R (slave w) u ps (published w) w ([], [])"
    using assms(4) by (auto simp: feed_rep_def)
  note run = at_least_once.run [OF contract _ assms(3) rep order_refl]
  show "\<exists>log w'. losses log = 0 \<and> delivers (PostFeedConsumer_Process L R P) q w log {#} w'"
    using at_least_once.empties [OF contract assms(3) rep delivers.none order_refl] by auto
  show "length log + size q' \<le> size q + failures w + losses log" if "delivers (PostFeedConsumer_Process L R P) q w log q' w'"
    using run [OF that] by simp
  assume del: "delivers (PostFeedConsumer_Process L R P) q w log {#} w'"
  obtain x out where rep': "feed_rep L R (slave w) u ps (published w) w' (x, out)"
    and eff: "effects (feed_effect L (slave w) u ps) log ([], []) (x, out)"
    using run [OF del] by auto
  have "acknowledged log = q" using delivers_account [OF del] by simp
  with feed_effects_log [OF eff] rep' show "(ps \<noteq> [] \<longrightarrow> (\<exists>x fs. feed_holds L R (feed_redis w') u fs
        \<and> take 1000 fs = take 1000 (x @ ps)
        \<and> posts_for L (slave w) u q \<subseteq># mset x \<and> mset x \<subseteq># posts_for L (slave w) u (delivered log)))
     \<and> (\<exists>out. published w' = published w @ map (Publication ''ws-fanout'' []) out
        \<and> q \<subseteq># mset out \<and> mset out \<subseteq># delivered log)" by (auto simp: feed_rep_def)
qed

lemma instance_queue_run:
  fixes R :: "'r redis" and w :: "'r node"
  assumes "feed_env L R P" and "ws_inv w" and "db_ok (slave w)" and "handlers w s = Some h"
    and "\<forall>m \<in># q. well_formed L m"
  shows "\<exists>log w'. losses log = 0 \<and> delivers (WsFanoutConsumer_Process L P) q w log {#} w'"
    and "delivers (WsFanoutConsumer_Process L P) q w log q' w' \<Longrightarrow>
         length log + size q' \<le> size q + failures w + losses log
       \<and> push_log w' s = push_log w s @ map (fanout_text L) (filter (notified L (slave w) h) (returned log))
       \<and> q = q' + acknowledged log"
proof -
  note contract = feed_env.fanout_contract [OF assms(1,3), of s h "push_log w s"]
  have rep: "fanout_rep (slave w) s h (push_log w s) w []"
    using assms(2,4) by (simp add: fanout_rep_def)
  note run = at_least_once.run [OF contract _ assms(5) rep order_refl]
  show "\<exists>log w'. losses log = 0 \<and> delivers (WsFanoutConsumer_Process L P) q w log {#} w'"
    using at_least_once.empties [OF contract assms(5) rep delivers.none order_refl] by auto
  assume del: "delivers (WsFanoutConsumer_Process L P) q w log q' w'"
  obtain x where x: "fanout_rep (slave w) s h (push_log w s) w' x" "effects (fanout_effect L (slave w) h) log [] x"
    and len: "length log + size q' + failures w' \<le> size q + failures w + losses log" using run [OF del] by auto
  from fanout_effects_log [OF x(2)] x(1) len delivers_account [OF del]
  show "length log + size q' \<le> size q + failures w + losses log
       \<and> push_log w' s = push_log w s @ map (fanout_text L) (filter (notified L (slave w) h) (returned log))
       \<and> q = q' + acknowledged log"
    by (simp add: fanout_rep_def)
qed

lemma counter_queue_run:
  fixes w :: "('r, 'z) dialog_world_scheme"
  assumes "chat_env L R U" and "counters_refine R (counter_redis w) c" and "\<forall>m \<in># q. \<exists>x. read_sent L m = Inr x"
    and "\<forall>u. unread (c u) + size q + failures w + k < 2 ^ 53"
  shows "\<exists>log w'. losses log = 0 \<and> delivers (CounterConsumer_Process L R) q w log {#} w'"
    and "delivers (CounterConsumer_Process L R) q w log {#} w' \<Longrightarrow> losses log \<le> k \<Longrightarrow>
         length log \<le> size q + failures w + losses log
       \<and> (\<exists>m t. counter_holds R (counter_redis w') u m t \<and> total_of t < 2 ^ 53
            \<and> (\<forall>p. count_of (c u) p + sent_by L p u q \<le> count_of m p
                 \<and> count_of m p \<le> count_of (c u) p + sent_by L p u (delivered log))
            \<and> int (unread m) \<le> total_of t \<and> total_of t \<le> int (unread m) + int (failures w)
            \<and> int (unread (c u) + received L u q) \<le> total_of t
            \<and> total_of t \<le> int (unread (c u) + received L u q + failures w + losses log))"
proof -
  obtain tot where tot: "counter_holds R (counter_redis w) v (c v) (tot v)" "total_of (tot v) = int (unread (c v))" for v
    using assms(2) unfolding counters_refine_def by metis
  let ?a = "\<lambda>v. (c v, tot v)"
  note contract = chat_env.counter_contract [OF assms(1), where 'z = 'z]
  let ?n = "size q + failures w + k"
  have "int (unread (c v)) + int ?n < 2 ^ 53" for v
    using assms(4) by (metis add.assoc of_nat_add of_nat_less_iff of_nat_numeral of_nat_power)
  with tot have rep: "tally_rep R ?n ?n w ?a"
    by (simp add: tally_rep_def)
  show "\<exists>log w'. losses log = 0 \<and> delivers (CounterConsumer_Process L R) q w log {#} w'"
    using at_least_once.empties [OF contract, OF assms(3) rep delivers.none] by auto
  assume del: "delivers (CounterConsumer_Process L R) q w log {#} w'" and "losses log \<le> k"
  then obtain b n where b: "tally_rep R n n w' b" "effects (counter_effect L) log ?a b"
    and len: "length log + failures w' \<le> size q + failures w + losses log"
    using at_least_once.run [OF contract, OF del assms(3) rep] by auto
  have q: "acknowledged log = q" using delivers_account [OF del] by simp
  have "finite (dom (c u))" using tot(1) [of u] by (simp add: counter_holds_def)
  with counter_effects_drift [OF b(2), of u] tot(2) log_sizes(1) [of log] len q
  have drift: "int (unread (fst (b u))) \<le> total_of (snd (b u))
    \<and> total_of (snd (b u)) \<le> int (unread (fst (b u))) + int (failures w)" by simp
  from counter_effects_total [OF b(2), of u] tot(2) log_sizes(1) [of log] len q
  have total: "int (unread (c u) + received L u q) \<le> total_of (snd (b u))
    \<and> total_of (snd (b u)) \<le> int (unread (c u) + received L u q + failures w + losses log)" by simp
  have "total_of (snd (b u)) < 2 ^ 53" using tally_repD(3) [OF b(1), of u] by simp
  with drift total counter_effects_counts [OF b(2), of u] tally_repD(1) [OF b(1), of u] len q
  show "length log \<le> size q + failures w + losses log
       \<and> (\<exists>m t. counter_holds R (counter_redis w') u m t \<and> total_of t < 2 ^ 53
            \<and> (\<forall>p. count_of (c u) p + sent_by L p u q \<le> count_of m p
                 \<and> count_of m p \<le> count_of (c u) p + sent_by L p u (delivered log))
            \<and> int (unread m) \<le> total_of t \<and> total_of t \<le> int (unread m) + int (failures w)
            \<and> int (unread (c u) + received L u q) \<le> total_of t
            \<and> total_of t \<le> int (unread (c u) + received L u q + failures w + losses log))"
    by (intro conjI exI [of _ "fst (b u)"] exI [of _ "snd (b u)"]) auto
qed

section \<open>Properties\<close>

text \<open>
  C8. Post events are materialised at least once. Whatever calls fail and in whatever order the
  broker delivers, the well-formed events of the queue are all processed after at most as many
  deliveries as there are events, failing calls and lost acknowledgements, and some run gets there
  that loses none. A follower who had a cached feed then has every event's post in it, each as often
  as the event was acknowledged and at most as often as it was delivered, within the newest
  thousand; and each event was passed on to the fan-out in the same bounds.
\<close>

theorem post_events_are_materialised:
  fixes w :: "('r, 'z) world_scheme"
  assumes "feed_env L R P" and "db_ok (slave w)" and "\<forall>m \<in># q. well_formed L m"
    and "feed_holds L R (feed_redis w) u ps" and "ps \<noteq> []"
  shows "(\<exists>log w'. losses log = 0 \<and> delivers (PostFeedConsumer_Process L R P) q w log {#} w')
    \<and> (\<forall>log q' w'. delivers (PostFeedConsumer_Process L R P) q w log q' w' \<longrightarrow>
         length log + size q' \<le> size q + failures w + losses log)
    \<and> (\<forall>log w'. delivers (PostFeedConsumer_Process L R P) q w log {#} w' \<longrightarrow>
         (\<exists>x fs. feed_holds L R (feed_redis w') u fs \<and> take 1000 fs = take 1000 (x @ ps)
            \<and> posts_for L (slave w) u q \<subseteq># mset x \<and> mset x \<subseteq># posts_for L (slave w) u (delivered log))
       \<and> (\<exists>out. published w' = published w @ map (Publication ''ws-fanout'' []) out
            \<and> q \<subseteq># mset out \<and> mset out \<subseteq># delivered log))"
  using feed_queue_run [OF assms(1-4)] assms(5) by blast

theorem post_events_are_materialised_witness:
  "\<exists>log w' x fs. delivers (PostFeedConsumer_Process ref_lib ref_redis ref_planner) {#post_event ref_lib (Uuid 2) (Uuid 12) ''x''#}
      ((sample_world (cached_keyspace (Uuid 1) sample_feed))\<lparr>faults := [No_Fault, No_Fault, Fail_After]\<rparr>) log {#} w'
    \<and> length log \<le> 2 \<and> feed_holds ref_lib ref_redis (feed_redis w') (Uuid 1) fs
    \<and> take 1000 fs = take 1000 (x @ sample_feed) \<and> \<lparr>fp_post_id = Uuid 12, fp_text = ''x'', fp_author = Uuid 2\<rparr> \<in> set x"
proof -
  let ?w = "(sample_world (cached_keyspace (Uuid 1) sample_feed))\<lparr>faults := [No_Fault, No_Fault, Fail_After]\<rparr>"
  let ?q = "{#post_event ref_lib (Uuid 2) (Uuid 12) ''x''#}"
  have "sample_feed \<noteq> []" by (simp add: sample_feed_def)
  from post_events_are_materialised [OF ref_feed_axioms, of ?w ?q "Uuid 1" sample_feed, OF _ _ _ this]
  show ?thesis
    using sample_db_ok cached_holds [of "Uuid 1" sample_feed "Uuid 1"] sample_follows
    by (fastforce simp: ref_feed.well_formed_post_event failures_def dest: set_mset_mono)
qed

text \<open>
  C28. Notifications of an instance follow its deliveries. Whatever calls fail, the messages of an
  instance's queue are all processed after at most as many deliveries as there are messages, failing
  calls and lost acknowledgements, and some run gets there that loses none. Each open session of a
  follower then got a message once for each delivery of it that returned, in the order of the
  deliveries, and other sessions got nothing: once when the acknowledgement arrived and once more
  for each that was lost, while a delivery that failed has pushed nothing. The messages of a run
  that is cut short (the queue goes with its consumer) are those that were not acknowledged.
\<close>

theorem instance_notifies_each_delivery:
  fixes R :: "'r redis" and w :: "'r node"
  assumes "feed_env L R P" and "ws_reach L P w" and "db_ok (slave w)" and "handlers w s = Some h"
    and "\<forall>m \<in># q. well_formed L m"
  shows "(\<exists>log w'. losses log = 0 \<and> delivers (WsFanoutConsumer_Process L P) q w log {#} w')
    \<and> (\<forall>log q' w'. delivers (WsFanoutConsumer_Process L P) q w log q' w' \<longrightarrow>
         length log + size q' \<le> size q + failures w + losses log
       \<and> push_log w' s = push_log w s @ map (fanout_text L) (filter (notified L (slave w) h) (returned log))
       \<and> acknowledged log \<subseteq># mset (returned log) \<and> size (mset (returned log)) = size (acknowledged log) + losses log
       \<and> q = q' + acknowledged log)"
  using instance_queue_run [OF assms(1) ws_reach_inv [OF assms(2)] assms(3-5)] acknowledged_returned log_sizes(2)
  by (metis size_mset)

theorem instance_notifies_each_delivery_witness:
  "\<exists>log w'. delivers (WsFanoutConsumer_Process ref_lib ref_planner) {#post_event ref_lib (Uuid 2) (Uuid 12) ''x''#}
      connected_node log {#} w' \<and> push_log w' 0 = [post_event ref_lib (Uuid 2) (Uuid 12) ''x'']"
proof -
  let ?m = "post_event ref_lib (Uuid 2) (Uuid 12) ''x''"
  have s: "slave connected_node = sample_db" "push_log connected_node 0 = []"
    "handlers connected_node 0 = Some (new_handler (Uuid 1))"
    by (simp_all add: connected_node_def set_handler_def Subscribe_def Let_def sample_node_def)
  have n: "notified ref_lib sample_db (new_handler (Uuid 1)) ?m"
    by (simp add: notified_def new_handler_def open_phase_def ref_feed.concerns_post_event sample_follows)
  have t: "fanout_text ref_lib ?m = ?m" by (simp add: fanout_text_def ref_feed.event_post_event Let_def)
  have wf: "\<forall>m \<in># {#?m#}. well_formed ref_lib m" by (simp add: ref_feed.well_formed_post_event)
  note each = instance_notifies_each_delivery [OF ref_feed_axioms connected_reach _ s(3) wf, unfolded s(1,2), OF sample_db_ok]
  obtain log w' where lost: "losses log = 0"
    and del: "delivers (WsFanoutConsumer_Process ref_lib ref_planner) {#?m#} connected_node log {#} w'"
    using each by blast
  from conjunct2 [OF each, rule_format, OF del] have push: "push_log w' 0 = map (fanout_text ref_lib)
      (filter (notified ref_lib sample_db (new_handler (Uuid 1))) (returned log))"
    and acked: "{#?m#} = acknowledged log" by simp_all
  from nothing_lost [OF lost] acked have "mset (returned log) = {#?m#}" by simp
  then have "returned log = [?m]" by (simp only: mset_single_iff)
  with push del n t show ?thesis by auto
qed

text \<open>
  C10. The counters never lose a message. Whatever calls fail, the messages sent are all counted
  after at most as many deliveries as there are messages, failing calls and lost acknowledgements.
  Each dialog then counts at least the messages and at most the deliveries; the total is at least
  the sum of the dialogs and exceeds it by at most one for each failing call. The bound on the
  counters leaves room for \<open>k\<close> lost acknowledgements, for any \<open>k\<close>.
\<close>

theorem counters_never_lose_a_message:
  fixes w :: "('r, 'z) dialog_world_scheme"
  assumes "chat_env L R U" and "counters_refine R (counter_redis w) c" and "\<forall>m \<in># q. \<exists>x. read_sent L m = Inr x"
    and "\<forall>u. unread (c u) + size q + failures w + k < 2 ^ 53"
  shows "(\<exists>log w'. losses log = 0 \<and> delivers (CounterConsumer_Process L R) q w log {#} w')
    \<and> (\<forall>log w'. delivers (CounterConsumer_Process L R) q w log {#} w' \<longrightarrow> losses log \<le> k \<longrightarrow>
         length log \<le> size q + failures w + losses log
       \<and> (\<exists>m t. counter_holds R (counter_redis w') u m t
            \<and> (\<forall>p. count_of (c u) p + sent_by L p u q \<le> count_of m p
                 \<and> count_of m p \<le> count_of (c u) p + sent_by L p u (delivered log))
            \<and> int (unread m) \<le> total_of t \<and> total_of t \<le> int (unread m) + int (failures w)))"
  using counter_queue_run [OF assms] by blast

theorem counters_never_lose_a_message_witness:
  "\<exists>log w' m t. delivers (CounterConsumer_Process ref_lib ref_redis) {#message_sent_event ref_lib ''eve'' ''bob''#}
      (sample_dialogs\<lparr>faults := [No_Fault, Fail_Before]\<rparr>) log {#} w'
    \<and> length log \<le> 2 \<and> counter_holds ref_redis (counter_redis w') ''bob'' m t
    \<and> 1 \<le> count_of m ''eve'' \<and> int (unread m) \<le> total_of t \<and> total_of t \<le> int (unread m) + 1"
proof -
  let ?w = "sample_dialogs\<lparr>faults := [No_Fault, Fail_Before]\<rparr>"
  let ?m = "message_sent_event ref_lib ''eve'' ''bob''" and ?c = "\<lambda>_ :: string. Map.empty :: counts"
  have c: "counters_refine ref_redis (counter_redis ?w) ?c" by (simp add: empty_counters)
  have wf: "\<forall>m \<in># {#?m#}. \<exists>x. read_sent ref_lib m = Inr x" by (simp add: ref_chat.read_sent_event)
  have "failures ?w = 1" by (simp add: failures_def)
  then have bound: "\<forall>u. unread (?c u) + size {#?m#} + failures ?w + 0 < 2 ^ 53" by (simp add: unread_def)
  note counted = counters_never_lose_a_message [OF ref_chat_axioms c wf bound, of "''bob''"]
  obtain log w' where lost: "losses log = 0"
    and del: "delivers (CounterConsumer_Process ref_lib ref_redis) {#?m#} ?w log {#} w'"
    using counted by blast
  from conjunct2 [OF counted, rule_format, OF del, unfolded lost, OF le0] obtain m t where
    "length log \<le> size {#?m#} + failures ?w + 0" "counter_holds ref_redis (counter_redis w') ''bob'' m t"
    "count_of (?c ''bob'') ''eve'' + sent_by ref_lib ''eve'' ''bob'' {#?m#} \<le> count_of m ''eve''"
    "int (unread m) \<le> total_of t" "total_of t \<le> int (unread m) + int (failures ?w)" by blast
  with del \<open>failures ?w = 1\<close> show ?thesis
    by (intro exI [of _ log] exI [of _ w'] exI [of _ m] exI [of _ t])
      (simp add: sent_by_def ref_chat.read_sent_event count_of_def)
qed

end
