(* ===== verification/Dialog_Handlers.thy ===== *)
theory Dialog_Handlers
  imports Counter_Service Posts
begin

text \<open>
  The dialog handlers of the monolith (\<open>src/dialog/dialog_send_handler.cpp\<close>,
  \<open>dialog_list_handler.cpp\<close>, \<open>dialog_unread_handler.cpp\<close>). They call the chat and the
  counter service through gRPC clients, which are parameters; the locale \<open>dialog_backend\<close> is
  the contract the handlers rely on, and the models of the two services behind a gRPC transport
  satisfy it.
\<close>

section \<open>The handlers\<close>

definition is_rpc_error :: "exn \<Rightarrow> bool" where
  "is_rpc_error e = (case e of RpcError _ \<Rightarrow> True | _ \<Rightarrow> False)"

type_synonym 's send_rpc = "metadata \<Rightarrow> string \<Rightarrow> string \<Rightarrow> ('s, unit) eff"
type_synonym 's list_rpc = "metadata \<Rightarrow> string \<Rightarrow> ('s, chat_message list) eff"
type_synonym 's reset_rpc = "metadata \<Rightarrow> string \<Rightarrow> ('s, int) eff"
type_synonym 's unread_rpc = "metadata \<Rightarrow> ('s, int) eff"

definition user_metadata :: "lib \<Rightarrow> uuid \<Rightarrow> metadata" where
  "user_metadata L user_id = [(''x-user-id'', to_str L user_id)]"

definition DialogSendHandler ::
  "lib \<Rightarrow> 's send_rpc \<Rightarrow> uuid \<Rightarrow> http_request \<Rightarrow> json_body \<Rightarrow> ('s, http_status \<times> json) eff"
where
  "DialogSendHandler L send from_user_id req body =
     (if \<not> has_member body ''text''
      then ret (kBadRequest, error_json ''Expected body has `text` field'')
      else parse_or_bad_request (string_generator L (path_arg req)) JNull (\<lambda>to_user_id.
           bind (lift_sum (field_string (JObject body) ''text'')) (\<lambda>text.
           bind (try_catch (bind (send (user_metadata L from_user_id) (to_str L to_user_id) text) (\<lambda>_. ret True))
                   is_rpc_error (ret False)) (\<lambda>sent.
           if sent then ret (kOk, JNull) else ret (kInternalServerError, JNull)))))"

definition message_json :: "chat_message \<Rightarrow> json" where
  "message_json msg = JObject
     [(''from'', JString (cm_from msg)), (''to'', JString (cm_to msg)), (''text'', JString (cm_text msg))]"

definition DialogListHandler ::
  "lib \<Rightarrow> 's reset_rpc \<Rightarrow> 's list_rpc \<Rightarrow> uuid \<Rightarrow> http_request \<Rightarrow> ('s, http_status \<times> string) eff"
where
  "DialogListHandler L reset list user_id req =
     parse_or_bad_request (string_generator L (path_arg req)) [] (\<lambda>other_user_id.
     let meta = user_metadata L user_id; other_id_str = to_str L other_user_id in
     bind (try_catch (bind (reset meta other_id_str) (\<lambda>_. ret ())) is_rpc_error (ret ())) (\<lambda>_.
     bind (try_catch (bind (list meta other_id_str) (\<lambda>messages. ret (Some messages))) is_rpc_error (ret None)) (\<lambda>resp.
     case resp of
       None \<Rightarrow> ret (kInternalServerError, [])
     | Some messages \<Rightarrow> ret (kOk, json_dump L (JArray (map message_json messages))))))"

definition DialogUnreadHandler :: "lib \<Rightarrow> 's unread_rpc \<Rightarrow> uuid \<Rightarrow> ('s, http_status \<times> string) eff" where
  "DialogUnreadHandler L unread_count user_id =
     bind (try_catch (unread_count (user_metadata L user_id)) is_rpc_error (ret 0)) (\<lambda>total.
     ret (kOk, json_dump L (JObject [(''unread_count'', JInt total)])))"

section \<open>The contract of the services\<close>

text \<open>
  Only gRPC errors come out of a call; while the services are up, a listing returns the dialog and
  changes nothing, a reset leaves the dialogs, and a send in a state ready for it appends.
\<close>

locale dialog_backend =
  fixes send :: "'s send_rpc" and list :: "'s list_rpc" and reset :: "'s reset_rpc"
    and unread_count :: "'s unread_rpc"
    and up :: "'s \<Rightarrow> bool" and ready :: "'s \<Rightarrow> bool"
    and dialog :: "'s \<Rightarrow> string \<Rightarrow> string \<Rightarrow> chat_message list \<Rightarrow> bool"
  assumes ready_up: "ready s \<Longrightarrow> up s"
    and dialog_sym: "dialog s a b ms \<Longrightarrow> dialog s b a ms"
    and send_rpc_only: "fst (send meta p x s) = Inl e \<Longrightarrow> is_rpc_error e"
    and list_rpc_only: "fst (list meta p s) = Inl e \<Longrightarrow> is_rpc_error e"
    and reset_rpc_only: "fst (reset meta p s) = Inl e \<Longrightarrow> is_rpc_error e"
    and unread_rpc_only: "fst (unread_count meta s) = Inl e \<Longrightarrow> is_rpc_error e"
    and list_ok: "up s \<Longrightarrow> dialog s a b ms \<Longrightarrow> list [(''x-user-id'', a)] b s = (Inr ms, s)"
    and reset_keeps: "up s \<Longrightarrow> dialog s a b ms \<Longrightarrow>
      up (snd (reset meta p s)) \<and> dialog (snd (reset meta p s)) a b ms"
    and send_ok: "ready s \<Longrightarrow> id_ok a \<Longrightarrow> id_ok b \<Longrightarrow> dialog s a b ms \<Longrightarrow>
      fst (send [(''x-user-id'', a)] b x s) = Inr () \<and> up (snd (send [(''x-user-id'', a)] b x s)) \<and>
      dialog (snd (send [(''x-user-id'', a)] b x s)) a b (ms @ [\<lparr>cm_from = a, cm_to = b, cm_text = x\<rparr>])"
begin

lemma list_handler:
  assumes "gen L (path_arg req) = Some v" and "up s" and "dialog s (to_str L u) (to_str L v) ms"
  shows "fst (DialogListHandler L reset list u req s) = Inr (kOk, json_dump L (JArray (map message_json ms)))"
proof -
  let ?meta = "[(''x-user-id'', to_str L u)]"
  obtain x t where r: "reset ?meta (to_str L v) s = (x, t)" by fastforce
  have t: "up t" "dialog t (to_str L u) (to_str L v) ms"
    using reset_keeps [OF assms(2,3), of ?meta "to_str L v"] by (simp_all add: r)
  have "is_rpc_error e" if "x = Inl e" for e
    using reset_rpc_only [of ?meta "to_str L v" s e] by (simp add: r that)
  with r list_ok [OF t] assms(1) show ?thesis
    by (cases x) (simp_all add: DialogListHandler_def string_generator_def user_metadata_def Let_def bind_def try_catch_def)
qed

text \<open>Whatever the services do, a well-formed request is answered.\<close>

lemma list_handler_answers:
  assumes "gen L (path_arg req) = Some v"
  shows "\<exists>answer. fst (DialogListHandler L reset list u req s) = Inr answer"
proof -
  let ?meta = "[(''x-user-id'', to_str L u)]" and ?v = "to_str L v"
  obtain x t where r: "reset ?meta ?v s = (x, t)" by fastforce
  obtain y t' where l: "list ?meta ?v t = (y, t')" by fastforce
  have "is_rpc_error e" if "x = Inl e" for e
    using reset_rpc_only [of ?meta ?v s e] by (simp add: r that)
  moreover have "is_rpc_error e" if "y = Inl e" for e
    using list_rpc_only [of ?meta ?v t e] by (simp add: l that)
  ultimately show ?thesis
    using assms r l
    by (cases x; cases y)
      (simp_all add: DialogListHandler_def string_generator_def user_metadata_def Let_def bind_def try_catch_def)
qed

lemma unread_handler:
  "fst (DialogUnreadHandler L unread_count u s) = Inr (kOk, json_dump L (JObject [(''unread_count'',
     JInt (case fst (unread_count [(''x-user-id'', to_str L u)] s) of Inl e \<Rightarrow> 0 | Inr n \<Rightarrow> n))]))"
  using unread_rpc_only [of "[(''x-user-id'', to_str L u)]" s]
  by (cases "unread_count [(''x-user-id'', to_str L u)] s"; cases "fst (unread_count [(''x-user-id'', to_str L u)] s)")
    (auto simp: DialogUnreadHandler_def user_metadata_def bind_def try_catch_def)

lemma send_then_list:
  assumes L: "library L" and "ready s" and "field_string (JObject body) ''text'' = Inr x"
    and "dialog s (to_str L u) (to_str L v) ms"
  shows "fst (DialogSendHandler L send u \<lparr>path_arg = to_str L v, args = []\<rparr> body s) = Inr (kOk, JNull)
    \<and> fst (DialogListHandler L reset list v \<lparr>path_arg = to_str L u, args = []\<rparr>
        (snd (DialogSendHandler L send u \<lparr>path_arg = to_str L v, args = []\<rparr> body s)))
      = Inr (kOk, json_dump L (JArray (map message_json
          (ms @ [\<lparr>cm_from = to_str L u, cm_to = to_str L v, cm_text = x\<rparr>]))))"
proof -
  have ids: "id_ok (to_str L u)" "id_ok (to_str L v)"
    using library.to_str_no_colon [OF L] by (simp_all add: id_ok_def)
  have member: "has_member body ''text''"
    using assms(3) by (auto simp: has_member_def field_string_def split: option.splits)
  obtain y t where s: "send [(''x-user-id'', to_str L u)] (to_str L v) x s = (y, t)" by fastforce
  have t: "y = Inr ()" "up t" "dialog t (to_str L u) (to_str L v) (ms @ [\<lparr>cm_from = to_str L u, cm_to = to_str L v, cm_text = x\<rparr>])"
    using send_ok [OF assms(2) ids assms(4), of x] by (simp_all add: s)
  have run: "DialogSendHandler L send u \<lparr>path_arg = to_str L v, args = []\<rparr> body s = (Inr (kOk, JNull), t)"
    using member assms(3) s t(1) library.string_generator_to_str [OF L, of v]
    by (simp add: DialogSendHandler_def user_metadata_def bind_def try_catch_def)
  have "gen L (path_arg \<lparr>path_arg = to_str L u, args = []\<rparr>) = Some u"
    using library.gen_to_str [OF L] by simp
  from list_handler [OF this t(2) dialog_sym [OF t(3)]] show ?thesis by (simp add: run)
qed

end

section \<open>The services behind gRPC\<close>

text \<open>
  A transport: the call may fail on its way, and an exception of the service reaches the client
  as a gRPC error.
\<close>

definition grpc_call :: "('z svc_scheme, 'a) eff \<Rightarrow> ('z svc_scheme, 'a) eff" where
  "grpc_call m = ext (RpcError ''UNAVAILABLE'')
     (\<lambda>s. case m s of
        (Inl e, t) \<Rightarrow> (Inl (if is_rpc_error e then e else RpcError ''UNKNOWN''), t)
      | (Inr a, t) \<Rightarrow> (Inr a, t))"

lemma grpc_errors: "fst (grpc_call m s) = Inl e \<Longrightarrow> is_rpc_error e"
  by (auto simp: grpc_call_def ext_def is_rpc_error_def Let_def split: list.splits fault.splits prod.splits sum.splits if_splits)

lemma grpc_ok: "faults s = [] \<Longrightarrow> m s = (Inr a, t) \<Longrightarrow> grpc_call m s = (Inr a, t)"
  by (simp add: grpc_call_def)

lemma grpc_state: "faults s = [] \<Longrightarrow> snd (grpc_call m s) = snd (m s)"
  by (simp add: grpc_call_def split: prod.split sum.split)

definition send_via :: "lib \<Rightarrow> 'r redis \<Rightarrow> lua \<Rightarrow> uuid \<Rightarrow> ('r, 'z) dialog_world_scheme send_rpc" where
  "send_via L R U i meta b x = grpc_call (SendMessage L R U i meta b x)"

definition list_via :: "lib \<Rightarrow> 'r redis \<Rightarrow> lua \<Rightarrow> ('r, 'z) dialog_world_scheme list_rpc" where
  "list_via L R U meta b = grpc_call (ListMessages L R U meta b)"

definition reset_via :: "'r redis \<Rightarrow> lua \<Rightarrow> ('r, 'z) dialog_world_scheme reset_rpc" where
  "reset_via R U meta b = grpc_call (ResetDialogCounter R U meta b)"

definition unread_via :: "'r redis \<Rightarrow> ('r, 'z) dialog_world_scheme unread_rpc" where
  "unread_via R meta = grpc_call (GetUnreadCount R meta)"

definition store_up :: "('r, 'z) dialog_world_scheme \<Rightarrow> bool" where
  "store_up w \<longleftrightarrow> faults w = []"

definition store_ready :: "lib \<Rightarrow> 'r redis \<Rightarrow> uuid \<Rightarrow> ('r, 'z) dialog_world_scheme \<Rightarrow> bool" where
  "store_ready L R i w \<longleftrightarrow> faults w = [] \<and> fresh_id R (dialog_redis w) (to_str L i)"

definition store_dialog :: "'r redis \<Rightarrow> lua \<Rightarrow> ('r, 'z) dialog_world_scheme \<Rightarrow> string \<Rightarrow> string \<Rightarrow> chat_message list \<Rightarrow> bool" where
  "store_dialog R U w a b ms \<longleftrightarrow> dialog_holds R U (dialog_redis w) a b ms"

locale chat_rpc = chat_env L R U for L :: lib and R :: "'r redis" and U :: lua +
  fixes new_id :: uuid

sublocale chat_rpc \<subseteq> backend: dialog_backend "send_via L R U new_id" "list_via L R U" "reset_via R U" "unread_via R"
  store_up "store_ready L R new_id" "store_dialog R U"
proof
  fix s :: "('r, 'z) dialog_world_scheme" and a b x :: string and ms :: "chat_message list"
  assume ready: "store_ready L R new_id s" and ids: "id_ok a" "id_ok b" and d: "store_dialog R U s a b ms"
  let ?m = "\<lparr>cm_from = a, cm_to = b, cm_text = x\<rparr>"
  have f: "faults s = []" "fresh_id R (dialog_redis s) (to_str L new_id)"
    using ready by (simp_all add: store_ready_def)
  have "dialog_holds R U (snd (dialog_send R U a b x (to_str L new_id) (dialog_redis s))) a b (ms @ [?m])"
    using send_holds [OF f(2) _ ids ids] d by (simp add: store_dialog_def)
  moreover have meta: "map_of [(''x-user-id'', a)] ''x-user-id'' = Some a" by simp
  have g: "grpc_call (SendMessage L R U new_id [(''x-user-id'', a)] b x) s
      = SendMessage L R U new_id [(''x-user-id'', a)] b x s"
    unfolding send_run [OF f(1) meta] by (rule grpc_ok [OF f(1)]) (rule send_run [OF f(1) meta])
  ultimately show "fst (send_via L R U new_id [(''x-user-id'', a)] b x s) = Inr ()
      \<and> store_up (snd (send_via L R U new_id [(''x-user-id'', a)] b x s))
      \<and> store_dialog R U (snd (send_via L R U new_id [(''x-user-id'', a)] b x s)) a b (ms @ [?m])"
    using f(1) by (simp add: send_via_def store_up_def store_dialog_def g send_run [OF f(1) meta])
next
  fix s :: "('r, 'z) dialog_world_scheme" and a b p :: string and ms :: "chat_message list" and meta :: metadata
  assume up: "store_up s" and d: "store_dialog R U s a b ms"
  have "faults (snd (ResetDialogCounter R U meta p s)) = [] \<and> dialog_redis (snd (ResetDialogCounter R U meta p s)) = dialog_redis s"
    using up by (cases "ExtractUserId meta") (simp_all add: ResetDialogCounter_def store_up_def bind_def counter_call_ok)
  with up d show "store_up (snd (reset_via R U meta p s)) \<and> store_dialog R U (snd (reset_via R U meta p s)) a b ms"
    by (simp add: reset_via_def grpc_state store_up_def store_dialog_def)
next
  fix s :: "('r, 'z) dialog_world_scheme" and a b :: string and ms :: "chat_message list"
  assume "store_up s" and "store_dialog R U s a b ms"
  then have "faults s = []" "dialog_holds R U (dialog_redis s) a b ms" by (simp_all add: store_up_def store_dialog_def)
  moreover have meta: "map_of [(''x-user-id'', a)] ''x-user-id'' = Some a" by simp
  ultimately show "list_via L R U [(''x-user-id'', a)] b s = (Inr ms, s)"
    unfolding list_via_def by (intro grpc_ok list_run [OF _ meta])
qed (auto simp: store_ready_def store_up_def store_dialog_def holds_sym send_via_def list_via_def
    reset_via_def unread_via_def dest: grpc_errors)

context chat_rpc
begin

lemmas handlers_send_then_list = backend.send_then_list
lemmas handlers_list = backend.list_handler
lemmas handlers_answer = backend.list_handler_answers
lemmas handlers_unread = backend.unread_handler

end

interpretation ref_rpc: chat_rpc ref_lib ref_redis ref_lua "Uuid 77" ..

section \<open>Runs over the stores\<close>

lemma chat_rpc_env: "chat_env L R U \<Longrightarrow> chat_rpc L R U"
  by (simp add: chat_rpc_def)

lemma send_handler_run:
  assumes env: "chat_env L R U" and f: "faults w = []" and "field_string (JObject body) ''text'' = Inr x"
  shows "DialogSendHandler L (send_via L R U i) u \<lparr>path_arg = to_str L v, args = []\<rparr> body w
    = (Inr (kOk, JNull), snd (SendMessage L R U i [(''x-user-id'', to_str L u)] (to_str L v) x w))"
proof -
  have member: "has_member body ''text''"
    using assms(3) by (auto simp: has_member_def field_string_def split: option.splits)
  have meta: "map_of [(''x-user-id'', to_str L u)] ''x-user-id'' = Some (to_str L u)" by simp
  have lib: "library L" using env by (rule chat_env.axioms(1))
  obtain t where run: "SendMessage L R U i [(''x-user-id'', to_str L u)] (to_str L v) x w = (Inr (), t)"
    using chat_env.send_run [OF env f meta] by blast
  have "grpc_call (SendMessage L R U i [(''x-user-id'', to_str L u)] (to_str L v) x) w = (Inr (), t)"
    by (rule grpc_ok [OF f]) (rule run)
  with member assms(3) run library.string_generator_to_str [OF lib, of v] show ?thesis
    by (simp add: DialogSendHandler_def user_metadata_def send_via_def bind_def try_catch_def)
qed

lemma list_handler_state:
  assumes env: "chat_env L R U" and f: "faults w = []" and d: "dialog_holds R U (dialog_redis w) (to_str L u) (to_str L v) ms"
  shows "snd (DialogListHandler L (reset_via R U) (list_via L R U) u \<lparr>path_arg = to_str L v, args = []\<rparr> w)
    = snd (ResetDialogCounter R U [(''x-user-id'', to_str L u)] (to_str L v) w)"
proof -
  let ?meta = "[(''x-user-id'', to_str L u)]"
  have lib: "library L" using env by (rule chat_env.axioms(1))
  have meta: "map_of ?meta ''x-user-id'' = Some (to_str L u)" by simp
  obtain x t where r: "ResetDialogCounter R U ?meta (to_str L v) w = (x, t)" by fastforce
  have t: "faults t = []" "dialog_redis t = dialog_redis w"
    using r f by (auto simp: ResetDialogCounter_def ExtractUserId_def bind_def counter_call_ok)
  have list: "list_via L R U ?meta (to_str L v) t = (Inr ms, t)"
    unfolding list_via_def using d t by (intro grpc_ok chat_env.list_run [OF env _ meta]) simp_all
  obtain y where g: "reset_via R U ?meta (to_str L v) w = (y, t)" "\<And>e. y = Inl e \<Longrightarrow> is_rpc_error e"
    using grpc_state [OF f, of "ResetDialogCounter R U ?meta (to_str L v)"] r
      grpc_errors [of "ResetDialogCounter R U ?meta (to_str L v)" w]
    by (cases "grpc_call (ResetDialogCounter R U ?meta (to_str L v)) w") (auto simp: reset_via_def)
  then show ?thesis
    using list r library.string_generator_to_str [OF lib, of v]
    by (cases y) (simp_all add: DialogListHandler_def user_metadata_def Let_def bind_def try_catch_def)
qed

section \<open>Properties\<close>

text \<open>
  A message sent through the monolith is listed. A user's send is answered with success, and
  the recipient's listing then returns the whole dialog with the new message last.
\<close>

lemma sent_message_is_listed:
  fixes w :: "('r, 'z) dialog_world_scheme"
  assumes "chat_env L R U" and "faults w = []" and "fresh_id R (dialog_redis w) (to_str L i)"
    and "field_string (JObject body) ''text'' = Inr x"
    and "dialog_holds R U (dialog_redis w) (to_str L u) (to_str L v) ms"
    and "w' = snd (DialogSendHandler L (send_via L R U i) u \<lparr>path_arg = to_str L v, args = []\<rparr> body w)"
  shows "fst (DialogSendHandler L (send_via L R U i) u \<lparr>path_arg = to_str L v, args = []\<rparr> body w) = Inr (kOk, JNull)
    \<and> fst (DialogListHandler L (reset_via R U) (list_via L R U) v \<lparr>path_arg = to_str L u, args = []\<rparr> w')
      = Inr (kOk, json_dump L (JArray (map message_json (ms @ [\<lparr>cm_from = to_str L u, cm_to = to_str L v, cm_text = x\<rparr>]))))"
  unfolding assms(6)
  by (rule chat_rpc.handlers_send_then_list [OF chat_rpc_env [OF assms(1)] chat_env.axioms(1) [OF assms(1)] _ assms(4)])
    (simp_all add: store_ready_def store_dialog_def assms(2,3,5))

lemma sent_message_is_listed_example:
  "fst (DialogListHandler ref_lib (reset_via ref_redis ref_lua) (list_via ref_lib ref_redis ref_lua) (Uuid 2)
      \<lparr>path_arg = to_str ref_lib (Uuid 1), args = []\<rparr>
      (snd (DialogSendHandler ref_lib (send_via ref_lib ref_redis ref_lua (Uuid 9)) (Uuid 1)
         \<lparr>path_arg = to_str ref_lib (Uuid 2), args = []\<rparr> [(''text'', JString ''hi'')] sample_dialogs)))
   = Inr (kOk, json_dump ref_lib (JArray [message_json
       \<lparr>cm_from = to_str ref_lib (Uuid 1), cm_to = to_str ref_lib (Uuid 2), cm_text = ''hi''\<rparr>]))"
  using sent_message_is_listed [OF ref_chat_axioms _ _ _ _ refl, of sample_dialogs "Uuid 9" "[(''text'', JString ''hi'')]" "''hi''"
      "Uuid 1" "Uuid 2" "[]"]
  by (simp add: empty_fresh empty_dialog field_string_def)

text \<open>
  C38. A message that was read can stay unread. When the recipient lists the dialog before the
  counter service has consumed the event of a message, the listing shows the message, and after
  the event is consumed the unread count contains it.
\<close>

theorem read_message_stays_unread:
  fixes w :: "('r, 'z) dialog_world_scheme"
  assumes "chat_env L R U" and "faults w = []" and "fresh_id R (dialog_redis w) (to_str L i)"
    and "field_string (JObject body) ''text'' = Inr x"
    and "dialog_holds R U (dialog_redis w) (to_str L u) (to_str L v) ms"
    and "counter_holds R (counter_redis w) (to_str L v) m t" and "total_of t = int (unread m)"
    and "int (unread m) + 1 < 2 ^ 53"
    and "w1 = snd (DialogSendHandler L (send_via L R U i) u \<lparr>path_arg = to_str L v, args = []\<rparr> body w)"
    and "w2 = snd (DialogListHandler L (reset_via R U) (list_via L R U) v \<lparr>path_arg = to_str L u, args = []\<rparr> w1)"
    and "w3 = snd (CounterConsumer_Process L R (pub_body (last (broker w1))) w2)"
  shows "fst (DialogListHandler L (reset_via R U) (list_via L R U) v \<lparr>path_arg = to_str L u, args = []\<rparr> w1)
      = Inr (kOk, json_dump L (JArray (map message_json (ms @ [\<lparr>cm_from = to_str L u, cm_to = to_str L v, cm_text = x\<rparr>]))))
    \<and> fst (GetUnreadCount R [(''x-user-id'', to_str L v)] w3)
      = Inr (int (unread m) - int (count_of m (to_str L u)) + 1)"
proof -
  let ?a = "to_str L u" and ?b = "to_str L v"
  let ?m = "\<lparr>cm_from = ?a, cm_to = ?b, cm_text = x\<rparr>"
  have lib: "library L" using assms(1) by (rule chat_env.axioms(1))
  have ids: "id_ok ?a" "id_ok ?b" using library.to_str_no_colon [OF lib] by (simp_all add: id_ok_def)
  have meta: "map_of [(''x-user-id'', ?a)] ''x-user-id'' = Some ?a" by simp
  have w1: "w1 = w\<lparr>dialog_redis := snd (dialog_send R U ?a ?b x (to_str L i) (dialog_redis w)),
       broker := broker w @ [Publication ''messages-exchange'' (''message.sent.'' @ ?b) (message_sent_event L ?a ?b)]\<rparr>"
    unfolding assms(9) send_handler_run [OF assms(1,2,4)] chat_env.send_run [OF assms(1,2) meta] by simp
  have f1: "faults w1 = []" and c1: "counter_holds R (counter_redis w1) ?b m t"
    using assms(2,6) by (simp_all add: w1)
  have d1: "dialog_holds R U (dialog_redis w1) ?b ?a (ms @ [?m])"
    using chat_env.send_holds [OF assms(1,3,5) ids ids, of x] chat_env.holds_sym [OF assms(1)] by (simp add: w1)
  have listing: "fst (DialogListHandler L (reset_via R U) (list_via L R U) v \<lparr>path_arg = ?a, args = []\<rparr> w1)
      = Inr (kOk, json_dump L (JArray (map message_json (ms @ [?m]))))"
  proof (rule chat_rpc.handlers_list [OF chat_rpc_env [OF assms(1)]])
    show "gen L (path_arg \<lparr>path_arg = ?a, args = []\<rparr>) = Some u" by (simp add: library.gen_to_str [OF lib])
    show "store_up w1" using f1 by (simp add: store_up_def)
    show "store_dialog R U w1 ?b ?a (ms @ [?m])" using d1 unfolding store_dialog_def .
  qed
  have fin: "finite (dom m)" using assms(6) by (simp add: counter_holds_def)
  have cnt: "int (count_of m ?a) \<le> int (unread m)" using count_le_unread [OF fin] by simp
  have exact: "exact_number (int (count_of m ?a))" "0 \<le> total_of t" "exact_number (total_of t)"
    using assms(7,8) cnt by (simp_all add: exact_number_def)
  have w2: "w2 = w1\<lparr>counter_redis := snd (counter_reset_dialog R U ?b ?a (counter_redis w1))\<rparr>"
    unfolding assms(10) list_handler_state [OF assms(1) f1 d1] using f1
    by (simp add: ResetDialogCounter_def ExtractUserId_def bind_def counter_call_ok)
  let ?t = "reset_total m t ?a" and ?n = "reset_counts m ?a"
  have c2: "counter_holds R (counter_redis w2) ?b ?n ?t"
    using chat_env.reset_run [OF assms(1) c1 exact] by (simp add: w2)
  have tot: "total_of ?t = int (unread m) - int (count_of m ?a)"
    using assms(7) cnt by (simp add: reset_total_def total_of_def)
  have zero: "count_of ?n ?a = 0" by (simp add: reset_counts_def count_of_upd)
  have bounds: "in_int64 (total_of ?t)" "in_int64 (total_of ?t + 1)" "in_int64 (int (Suc (count_of ?n ?a)))"
    using assms(8) cnt by (simp_all add: tot zero in_int64_def)
  have f2: "faults w2 = []" using f1 by (simp add: w2)
  have event: "pub_body (last (broker w1)) = message_sent_event L ?a ?b" by (simp add: w1)
  obtain r where r: "w3 = w2\<lparr>counter_redis := r\<rparr>"
    "counter_holds R r ?b (?n(?a \<mapsto> Suc (count_of ?n ?a))) (Some (total_of ?t + 1))"
    using chat_env.consume_run [OF assms(1) f2 c2 bounds] unfolding assms(11) event by auto
  have f3: "faults w3 = []" using f2 by (simp add: r(1))
  have c3: "counter_holds R (counter_redis w3) ?b (?n(?a \<mapsto> Suc (count_of ?n ?a))) (Some (total_of ?t + 1))"
    using r(2) by (simp add: r(1))
  have some: "total_of (Some y) = y" for y by (simp add: total_of_def)
  from chat_env.unread_run [OF assms(1) f3 c3, unfolded some, OF bounds(2)] listing tot show ?thesis by simp
qed

theorem read_message_stays_unread_witness:
  "\<exists>w3. fst (GetUnreadCount ref_redis [(''x-user-id'', to_str ref_lib (Uuid 2))] (w3 :: keyspace dialog_world)) = Inr 1"
proof -
  have h: "counter_holds ref_redis (counter_redis sample_dialogs) (to_str ref_lib (Uuid 2)) Map.empty None"
    by (auto simp: counter_holds_def ref_redis_def empty_keyspace_def counter_hash_def fun_eq_iff)
  from read_message_stays_unread [OF ref_chat_axioms _ _ _ _ h _ _ refl refl refl,
      of "Uuid 9" "[(''text'', JString ''hi'')]" "''hi''" "Uuid 1" "[]"]
  show ?thesis
    by (auto simp: empty_fresh empty_dialog field_string_def total_of_def unread_def count_of_def)
qed

end
