(* ===== verification/Server.thy ===== *)
theory Server
  imports Auth Dialog_Handlers
begin

text \<open>
  The monolith as one server: the HTTP handlers behind the authorization that
  \<open>configs/static_config.yaml\<close> configures for them, composed with the token cache, replication
  and the consumer of post events. What a request may do to the state is an abstract relation,
  \<open>act\<close>; every handler performs only steps of it, whatever calls fail, and the invariants of
  the whole server follow from the relation.
\<close>

section \<open>Handlers and their configuration\<close>

datatype handler =
    Handler_Login | Handler_User_Register | Handler_User_Get | Handler_User_Search
  | Handler_Friend_Add | Handler_Friend_Delete
  | Handler_Post_Create | Handler_Post_Update | Handler_Post_Delete | Handler_Post_Get | Handler_Post_Feed
  | Handler_Dialog_Send | Handler_Dialog_List | Handler_Dialog_Unread

text \<open>The names under which the handlers are configured (\<open>kName\<close>).\<close>

fun handler_name :: "handler \<Rightarrow> string" where
  "handler_name Handler_Login = ''handler-login''"
| "handler_name Handler_User_Register = ''handler-user-register''"
| "handler_name Handler_User_Get = ''handler-user-get''"
| "handler_name Handler_User_Search = ''handler-user-search''"
| "handler_name Handler_Friend_Add = ''handler-friend-add''"
| "handler_name Handler_Friend_Delete = ''handler-friend-delete''"
| "handler_name Handler_Post_Create = ''handler-post-create''"
| "handler_name Handler_Post_Update = ''handler-post-update''"
| "handler_name Handler_Post_Delete = ''handler-post-delete''"
| "handler_name Handler_Post_Get = ''handler-post-get''"
| "handler_name Handler_Post_Feed = ''handler-post-feed''"
| "handler_name Handler_Dialog_Send = ''handler-dialog-send''"
| "handler_name Handler_Dialog_List = ''handler-dialog-list''"
| "handler_name Handler_Dialog_Unread = ''handler-dialog-unread-count''"

record handler_config =
  hc_path :: string
  hc_method :: string
  hc_scopes :: "string list option"

definition bearer_route :: "string \<Rightarrow> string \<Rightarrow> handler_config" where
  "bearer_route path method = \<lparr>hc_path = path, hc_method = method, hc_scopes = Some [''read'']\<rparr>"

definition open_route :: "string \<Rightarrow> string \<Rightarrow> handler_config" where
  "open_route path method = \<lparr>hc_path = path, hc_method = method, hc_scopes = None\<rparr>"

definition static_config :: "(string \<times> handler_config) list" where
  "static_config =
     [(''handler-login'', open_route ''/login'' ''POST''),
      (''handler-user-register'', open_route ''/user/register'' ''POST''),
      (''handler-user-get'', bearer_route ''/user/get/*'' ''GET''),
      (''handler-user-search'', bearer_route ''/user/search/*'' ''GET''),
      (''handler-friend-add'', bearer_route ''/friend/add/*'' ''PUT''),
      (''handler-friend-delete'', bearer_route ''/friend/delete/*'' ''PUT''),
      (''handler-post-create'', bearer_route ''/post/create'' ''POST''),
      (''handler-post-update'', bearer_route ''/post/update'' ''PUT''),
      (''handler-post-delete'', bearer_route ''/post/delete/*'' ''PUT''),
      (''handler-post-get'', open_route ''/post/get/*'' ''GET''),
      (''handler-post-feed'', bearer_route ''/post/feed'' ''GET''),
      (''handler-post-feed-ws'', bearer_route ''/post/feed/posted'' ''GET''),
      (''handler-dialog-send'', bearer_route ''/dialog/{user_id}/send'' ''POST''),
      (''handler-dialog-list'', bearer_route ''/dialog/{user_id}/list'' ''GET''),
      (''handler-dialog-unread-count'', bearer_route ''/dialog/unread-count'' ''GET'')]"

section \<open>Requests\<close>

text \<open>
  A request as the router hands it to a handler: the authorization header, path and query
  arguments and the members of a JSON body.
\<close>

record server_request =
  sr_handler :: handler
  sr_authorization :: string
  sr_http :: http_request
  sr_body :: json_body

text \<open>What the database and the random engines draw while a request runs.\<close>

record chance =
  ch_id :: uuid
  ch_now :: int
  ch_draw :: "nat \<Rightarrow> nat \<Rightarrow> nat"
  ch_dist :: "nat \<Rightarrow> nat"

text \<open>The code outside the repository and the gRPC clients, all in one place.\<close>

record ('r, 's) environment =
  env_lib :: lib
  env_redis :: "'r redis"
  env_planner :: planner
  env_hash :: std_hash
  env_dates :: dates
  env_send :: "'s send_rpc"
  env_list :: "'s list_rpc"
  env_reset :: "'s reset_rpc"
  env_unread :: "'s unread_rpc"

datatype response = Refused auth_status | Answer http_status string

text \<open>
  The check before the handler. A handler that is configured without \<open>auth\<close> is called without a
  user; for the others the result of the check is kept, and what the framework answers for a
  refusal is its own matter.
\<close>

definition auth_scopes :: "handler \<Rightarrow> string list option" where
  "auth_scopes h = Option.bind (map_of static_config (handler_name h)) hc_scopes"

definition authorize :: "auth_snapshot \<Rightarrow> handler \<Rightarrow> string \<Rightarrow> auth_status + uuid option" where
  "authorize cache h header =
     (case auth_scopes h of
        None \<Rightarrow> Inr None
      | Some scopes \<Rightarrow>
          (case MakeAuthChecker (Some scopes) cache header of
             (kAuthOk, user) \<Rightarrow> Inr user
           | (refused, _) \<Rightarrow> Inl refused))"

definition json_answer :: "lib \<Rightarrow> ('s, http_status \<times> json) eff \<Rightarrow> ('s, response) eff" where
  "json_answer L m = bind m (\<lambda>(status, body). ret (Answer status (json_dump L body)))"

definition text_answer :: "('s, http_status \<times> string) eff \<Rightarrow> ('s, response) eff" where
  "text_answer m = bind m (\<lambda>(status, body). ret (Answer status body))"

text \<open>\<open>GetData("user_id")\<close>: throws when the checker has not set it.\<close>

definition with_user :: "uuid option \<Rightarrow> (uuid \<Rightarrow> ('s, 'a) eff) \<Rightarrow> ('s, 'a) eff" where
  "with_user user k = (case user of None \<Rightarrow> throw RuntimeError | Some u \<Rightarrow> k u)"

definition feed_exchange :: string where
  "feed_exchange = ''feed-exchange''"

fun call ::
  "('r, ('r, 'z) app_scheme) environment \<Rightarrow> chance \<Rightarrow> uuid option \<Rightarrow> server_request \<Rightarrow> handler
     \<Rightarrow> (('r, 'z) app_scheme, response) eff"
where
  "call E c user q Handler_Login =
     json_answer (env_lib E) (Login (env_lib E) (env_hash E) (ch_draw c) (ch_now c) (sr_body q))"
| "call E c user q Handler_User_Register =
     json_answer (env_lib E) (UserRegisterHandler (env_lib E) (env_hash E) (env_dates E) (ch_dist c) (ch_id c) (sr_body q))"
| "call E c user q Handler_User_Get = text_answer (UserGetHandler (env_lib E) (env_dates E) (sr_http q))"
| "call E c user q Handler_User_Search = text_answer (UserSearchHandler (env_lib E) (env_dates E) (sr_http q))"
| "call E c user q Handler_Friend_Add = with_user user (\<lambda>u.
     text_answer (FriendAddHandler (env_lib E) (env_redis E) (ch_now c) u (sr_http q)))"
| "call E c user q Handler_Friend_Delete = with_user user (\<lambda>u.
     text_answer (FriendDeleteHandler (env_lib E) (env_redis E) u (sr_http q)))"
| "call E c user q Handler_Post_Create = with_user user (\<lambda>u.
     json_answer (env_lib E) (PostCreateHandler (env_lib E) feed_exchange (ch_id c) (ch_now c) u (sr_body q)))"
| "call E c user q Handler_Post_Update =
     json_answer (env_lib E) (PostUpdateHandler (env_lib E) (env_redis E) (env_planner E) (sr_body q))"
| "call E c user q Handler_Post_Delete =
     text_answer (PostDeleteHandler (env_lib E) (env_redis E) (env_planner E) (sr_http q))"
| "call E c user q Handler_Post_Get = text_answer (PostGetHandler (env_lib E) (sr_http q))"
| "call E c user q Handler_Post_Feed = with_user user (\<lambda>u.
     text_answer (PostFeedHandler (env_lib E) (env_redis E) (env_planner E) u (sr_http q)))"
| "call E c user q Handler_Dialog_Send = with_user user (\<lambda>u.
     json_answer (env_lib E) (DialogSendHandler (env_lib E) (env_send E) u (sr_http q) (sr_body q)))"
| "call E c user q Handler_Dialog_List = with_user user (\<lambda>u.
     text_answer (DialogListHandler (env_lib E) (env_reset E) (env_list E) u (sr_http q)))"
| "call E c user q Handler_Dialog_Unread = with_user user (\<lambda>u.
     text_answer (DialogUnreadHandler (env_lib E) (env_unread E) u))"

definition serve ::
  "('r, ('r, 'z) app_scheme) environment \<Rightarrow> chance \<Rightarrow> server_request \<Rightarrow> (('r, 'z) app_scheme, response) eff"
where
  "serve E c q w =
     (case authorize (auth_cache w) (sr_handler q) (sr_authorization q) of
        Inl status \<Rightarrow> (Inr (Refused status), w)
      | Inr user \<Rightarrow> call E c user q (sr_handler q) w)"

section \<open>What a request may do\<close>

text \<open>
  The steps a request may take on behalf of its user, one rule per effect. Without a user a
  request can only register a user or issue a token to a registered one; with a user it can
  change that user's friendships, add posts of that user, fill and trim that user's cached feed,
  announce that user's posts and call the dialog services under that user's name. Posts are
  updated and deleted, and feeds dropped, whoever their owner is.
\<close>

inductive act ::
  "('r, ('r, 'z) app_scheme) environment \<Rightarrow> uuid option \<Rightarrow> ('r, 'z) app_scheme \<Rightarrow> ('r, 'z) app_scheme \<Rightarrow> bool"
  for E :: "('r, ('r, 'z) app_scheme) environment" and user :: "uuid option"
where
  call_made: "act E user w (w\<lparr>faults := fs\<rparr>)"
| update_requested: "act E user w (w\<lparr>cache_invalidations := n\<rparr>)"
| user_added: "act E user w (w\<lparr>master := snd (sql_insert_user row (master w))\<rparr>)"
| token_issued: "i \<in> user_ids (master w) \<Longrightarrow>
    act E user w (w\<lparr>master := snd (sql_insert_token token i [''read'', ''user''] now (master w))\<rparr>)"
| friend_added: "user = Some u \<Longrightarrow> act E user w (w\<lparr>master := snd (sql_insert_friendship u f now (master w))\<rparr>)"
| friend_removed: "user = Some u \<Longrightarrow> act E user w (w\<lparr>master := snd (sql_delete_friendship u f (master w))\<rparr>)"
| post_added: "user = Some u \<Longrightarrow> act E user w (w\<lparr>master := snd (sql_insert_post i now u text (master w))\<rparr>)"
| post_updated: "user = Some u \<Longrightarrow> act E user w (w\<lparr>master := snd (sql_update_post i text (master w))\<rparr>)"
| post_deleted: "user = Some u \<Longrightarrow> act E user w (w\<lparr>master := snd (sql_delete_post i (master w))\<rparr>)"
| post_announced: "user = Some u \<Longrightarrow> act E user w (w\<lparr>published := published w @
    [Publication feed_exchange (''post.created.'' @ to_str (env_lib E) u) (post_event (env_lib E) u i text)]\<rparr>)"
| feeds_dropped: "user = Some u \<Longrightarrow>
    act E user w (w\<lparr>feed_redis := r_del (env_redis E) (feed_redis w) (map (MakeKey (env_lib E)) us)\<rparr>)"
| feed_filled: "user = Some u \<Longrightarrow> ps \<noteq> [] \<Longrightarrow> act E user w (w\<lparr>feed_redis :=
    r_rpush (env_redis E) (feed_redis w) (MakeKey (env_lib E) u) (map (SerializePost (env_lib E)) ps)\<rparr>)"
| feed_trimmed: "user = Some u \<Longrightarrow> act E user w (w\<lparr>feed_redis :=
    r_ltrim (env_redis E) (feed_redis w) (MakeKey (env_lib E) u) 0 (int kMaxFeedSize - 1)\<rparr>)"
| message_sent: "user = Some u \<Longrightarrow> act E user w (snd (env_send E (user_metadata (env_lib E) u) to_user text w))"
| messages_listed: "user = Some u \<Longrightarrow> act E user w (snd (env_list E (user_metadata (env_lib E) u) other w))"
| dialog_reset: "user = Some u \<Longrightarrow> act E user w (snd (env_reset E (user_metadata (env_lib E) u) other w))"
| unread_read: "user = Some u \<Longrightarrow> act E user w (snd (env_unread E (user_metadata (env_lib E) u) w))"

inductive_cases act_without_user: "act E None w w'"

section \<open>Every handler performs only such steps\<close>

named_theorems performs_intros \<open>rules that a program performs only permitted steps\<close>

definition performs ::
  "('r, ('r, 'z) app_scheme) environment \<Rightarrow> uuid option \<Rightarrow> (('r, 'z) app_scheme, 'a) eff \<Rightarrow> bool"
where
  "performs E user m \<longleftrightarrow> (\<forall>w. (act E user)\<^sup>*\<^sup>* w (snd (m w)))"

lemma performsD: "performs E user m \<Longrightarrow> (act E user)\<^sup>*\<^sup>* w (snd (m w))"
  by (simp add: performs_def)

lemma performs_preserves: "performs E user m \<longleftrightarrow> (\<forall>w. preserves ((act E user)\<^sup>*\<^sup>* w) m)"
  unfolding performs_def preserves_def by (meson rtranclp.rtrancl_refl rtranclp_trans)

lemma performs_step: "(\<And>w. act E user w (snd (m w))) \<Longrightarrow> performs E user m"
  unfolding performs_def by (meson r_into_rtranclp)

lemma performs_basic [performs_intros]:
  "performs E user (ret a)" "performs E user (throw e)" "performs E user (lift_sum x)" "performs E user (query f)"
  by (simp_all add: performs_def)

lemma performs_bind [performs_intros]:
  "performs E user m \<Longrightarrow> (\<And>a. performs E user (k a)) \<Longrightarrow> performs E user (bind m k)"
  unfolding performs_preserves by (blast intro: preserves_bind)

lemma performs_try_catch [performs_intros]:
  "performs E user m \<Longrightarrow> performs E user h \<Longrightarrow> performs E user (try_catch m caught h)"
  unfolding performs_preserves by (blast intro: preserves_try_catch)

lemma performs_if [performs_intros]:
  "(b \<Longrightarrow> performs E user m) \<Longrightarrow> (\<not> b \<Longrightarrow> performs E user n) \<Longrightarrow> performs E user (if b then m else n)"
  by simp

lemma performs_list [performs_intros]:
  "performs E user m \<Longrightarrow> (\<And>x xs. performs E user (k x xs)) \<Longrightarrow>
   performs E user (case l of [] \<Rightarrow> m | x # xs \<Rightarrow> k x xs)"
  by (cases l) simp_all

lemma performs_option [performs_intros]:
  "performs E user m \<Longrightarrow> (\<And>x. performs E user (k x)) \<Longrightarrow>
   performs E user (case l of None \<Rightarrow> m | Some x \<Rightarrow> k x)"
  by (cases l) simp_all

lemma performs_sum [performs_intros]:
  "(\<And>x. performs E user (m x)) \<Longrightarrow> (\<And>x. performs E user (k x)) \<Longrightarrow>
   performs E user (case l of Inl x \<Rightarrow> m x | Inr x \<Rightarrow> k x)"
  by (cases l) simp_all

lemma performs_prod [performs_intros]:
  "(\<And>x y. performs E user (k x y)) \<Longrightarrow> performs E user (case p of (x, y) \<Rightarrow> k x y)"
  by (cases p) simp

lemma performs_parse [performs_intros]:
  "(\<And>x. performs E user (k x)) \<Longrightarrow> performs E user (parse_or_bad_request parsed body k)"
  unfolding parse_or_bad_request_def by (intro performs_intros)

lemma performs_for_each [performs_intros]:
  "(\<And>x. performs E user (f x)) \<Longrightarrow> performs E user (for_each xs f)"
  unfolding performs_preserves by (blast intro: preserves_for_each)

lemma performs_answers [performs_intros]:
  "performs E user m \<Longrightarrow> performs E user (json_answer L m)"
  "performs E user n \<Longrightarrow> performs E user (text_answer n)"
  unfolding json_answer_def text_answer_def by (intro performs_intros; assumption)+

lemma performs_with_user [performs_intros]:
  "(\<And>u. user = Some u \<Longrightarrow> performs E (Some u) (k u)) \<Longrightarrow> performs E user (with_user user k)"
  unfolding with_user_def by (cases user) (auto intro: performs_intros)

text \<open>The calls: whatever their fault, a call is no step, its effect, or both.\<close>

lemma performs_ext [performs_intros]: "performs E user m \<Longrightarrow> performs E user (ext e m)"
  unfolding performs_preserves
  by (blast intro: preserves_ext rtranclp.rtrancl_into_rtrancl act.call_made)

lemma performs_reads [performs_intros]:
  "performs E user (from_master q)" "performs E user (from_slave q)" "performs E user (redis_get p)"
  unfolding from_master_def from_slave_def redis_get_def by (intro performs_intros)+

lemma performs_on_master:
  assumes "\<And>w. act E user w (w\<lparr>master := snd (stmt (master w))\<rparr>)"
  shows "performs E user (on_master stmt)"
  unfolding on_master_def
  by (intro performs_ext performs_step) (use assms in \<open>simp add: split_beta\<close>)

lemma performs_redis_put:
  assumes "\<And>w. act E user w (w\<lparr>feed_redis := f (feed_redis w)\<rparr>)"
  shows "performs E user (redis_put f)"
  unfolding redis_put_def
  by (intro performs_ext performs_step) (use assms in simp)

lemma performs_publish:
  assumes "\<And>w. act E user w (w\<lparr>published := published w @ [Publication e k b]\<rparr>)"
  shows "performs E user (publish e k b)"
  unfolding publish_def
  by (intro performs_ext performs_step) (use assms in simp)

lemmas performs_statements [performs_intros] =
  performs_on_master [OF act.user_added]
  performs_on_master [OF act.friend_added [OF refl]]
  performs_on_master [OF act.friend_removed [OF refl]]
  performs_on_master [OF act.post_added [OF refl]]
  performs_on_master [OF act.post_updated [OF refl]]
  performs_on_master [OF act.post_deleted [OF refl]]

lemma performs_friend_add: "performs E (Some u) (FriendAddHandler (env_lib E) (env_redis E) now u req)"
  unfolding FriendAddHandler_def InvalidateFeed_def
  by (intro performs_intros performs_redis_put act.feeds_dropped [of "Some u" u _ _ "[u]", simplified] refl)

lemma performs_friend_delete: "performs E (Some u) (FriendDeleteHandler (env_lib E) (env_redis E) u req)"
  unfolding FriendDeleteHandler_def InvalidateFeed_def
  by (intro performs_intros performs_redis_put act.feeds_dropped [of "Some u" u _ _ "[u]", simplified] refl)

lemma performs_invalidate:
  "performs E (Some u) (InvalidateFeedsOfFollowersOf (env_lib E) (env_redis E) (env_planner E) a)"
  unfolding InvalidateFeedsOfFollowersOf_def GetFollowers_def
  by (intro performs_intros performs_redis_put act.feeds_dropped [OF refl])

lemma performs_post_create:
  "performs E (Some u) (PostCreateHandler (env_lib E) feed_exchange i now u body)"
  unfolding PostCreateHandler_def Publish_def Let_def
  by (intro performs_intros performs_publish act.post_announced refl)

lemma performs_post_update:
  "performs E (Some u) (PostUpdateHandler (env_lib E) (env_redis E) (env_planner E) body)"
  unfolding PostUpdateHandler_def
  by (intro performs_intros performs_invalidate)

lemma performs_post_delete:
  "performs E (Some u) (PostDeleteHandler (env_lib E) (env_redis E) (env_planner E) req)"
  unfolding PostDeleteHandler_def
  by (intro performs_intros performs_invalidate)

lemma performs_get_feed:
  "performs E (Some u) (GetFeed (env_lib E) (env_redis E) (env_planner E) u offset limit)"
proof -
  have fill: "performs E (Some u)
     (if db_feed \<noteq> [] then bind (redis_put (\<lambda>r. r_rpush (env_redis E) r (MakeKey (env_lib E) u)
           (map (SerializePost (env_lib E)) db_feed)))
         (\<lambda>_. redis_put (\<lambda>r. r_ltrim (env_redis E) r (MakeKey (env_lib E) u) 0 (int kMaxFeedSize - 1)))
      else ret ())" for db_feed
    by (intro performs_if performs_bind performs_redis_put performs_basic act.feed_filled act.feed_trimmed refl)
  show ?thesis
    unfolding GetFeed_def LoadFeedFromDb_def Let_def by (intro performs_intros fill)
qed

lemma performs_post_feed:
  "performs E (Some u) (PostFeedHandler (env_lib E) (env_redis E) (env_planner E) u req)"
  unfolding PostFeedHandler_def by (intro performs_intros performs_get_feed)

lemma performs_calls:
  "performs E (Some u) (env_send E (user_metadata (env_lib E) u) to_user text)"
  "performs E (Some u) (env_list E (user_metadata (env_lib E) u) other)"
  "performs E (Some u) (env_reset E (user_metadata (env_lib E) u) other)"
  "performs E (Some u) (env_unread E (user_metadata (env_lib E) u))"
  by (intro performs_step act.message_sent act.messages_listed act.dialog_reset act.unread_read refl)+

lemma performs_dialogs:
  "performs E (Some u) (DialogSendHandler (env_lib E) (env_send E) u req body)"
  "performs E (Some u) (DialogListHandler (env_lib E) (env_reset E) (env_list E) u req)"
  "performs E (Some u) (DialogUnreadHandler (env_lib E) (env_unread E) u)"
  unfolding DialogSendHandler_def DialogListHandler_def DialogUnreadHandler_def Let_def
  by (intro performs_intros performs_calls)+

text \<open>Login issues its token after it has seen the user's row; no step removes a user.\<close>

lemma performs_generate_token:
  assumes "i \<in> user_ids (master w)"
  shows "(act E user)\<^sup>*\<^sup>* w (snd (GenerateToken draw now i w))"
proof -
  let ?stmt = "sql_insert_token (GenerateBearerToken draw token_length) i [''read'', ''user''] now"
  obtain x w' where run: "on_master ?stmt w = (x, w')" by fastforce
  have issued: "act E user v (v\<lparr>master := snd (?stmt (master v))\<rparr>)" if "master v = master w" for v
    using act.token_issued assms that by metis
  have step: "(act E user)\<^sup>*\<^sup>* w w'"
  proof (cases "faults w")
    case Nil
    with run issued [of w] show ?thesis by (auto simp: on_master_def split: prod.splits)
  next
    case (Cons f fs)
    have "(act E user)\<^sup>*\<^sup>* w (w\<lparr>faults := fs\<rparr>)" by (simp add: act.call_made r_into_rtranclp)
    with run issued [of "w\<lparr>faults := fs\<rparr>"] Cons show ?thesis
      by (cases f) (auto simp: on_master_def ext_def Let_def split: prod.splits intro: rtranclp.rtrancl_into_rtrancl)
  qed
  have "(act E user)\<^sup>*\<^sup>* w (w'\<lparr>cache_invalidations := n\<rparr>)" for n
    using step act.update_requested by (rule rtranclp.rtrancl_into_rtrancl)
  with step run show ?thesis
    by (cases x) (auto simp: GenerateToken_def Let_def bind_def)
qed

lemma credentials_user: "sql_select_credentials i d \<noteq> [] \<Longrightarrow> i \<in> user_ids d"
  using no_credentials [of i d] by blast

lemma from_master_result:
  fixes w :: "('r, 'z) world_scheme"
  assumes "from_master q w = (Inr x, w')"
  shows "x = q (master w)" and "\<exists>fs. w' = w\<lparr>faults := fs\<rparr>"
proof -
  have "x = q (master w) \<and> (w' = w \<or> (\<exists>fs. w' = w\<lparr>faults := fs\<rparr>))"
    using assms by (auto simp: from_master_def ext_def Let_def split: list.splits fault.splits)
  then show "x = q (master w)" and "\<exists>fs. w' = w\<lparr>faults := fs\<rparr>"
    by (auto intro: exI [of _ "faults w"])
qed

lemma performs_login: "performs E user (Login (env_lib E) H draw now body)"
proof -
  have select: "(act E user)\<^sup>*\<^sup>* w (snd (bind (from_master (sql_select_credentials i)) (\<lambda>result. case result of
          [] \<Rightarrow> ret (kNotFound, JObject [])
        | row # _ \<Rightarrow> bind (lift_sum (verify row)) (\<lambda>verified.
            if \<not> verified then ret (kNotFound, JObject [])
            else bind (GenerateToken draw now i) (\<lambda>(token, success).
                 if \<not> success then ret (kInternalServerError, JObject [])
                 else ret (kOk, JObject [(''token'', JString token)])))) w))" for verify i w
  proof -
    obtain x w' where run: "from_master (sql_select_credentials i) w = (x, w')" by fastforce
    have read: "(act E user)\<^sup>*\<^sup>* w w'"
      using performsD [OF performs_reads(1), of E user w "sql_select_credentials i"] by (simp add: run)
    show ?thesis
    proof (cases "\<exists>row rows. x = Inr (row # rows)")
      case False
      with run read show ?thesis by (cases x) (auto simp: bind_def neq_Nil_conv split: list.splits)
    next
      case True
      then obtain row rows where x: "x = Inr (row # rows)" by blast
      note result = from_master_result [OF run [unfolded x]]
      from result(1) have "sql_select_credentials i (master w) \<noteq> []" by (metis list.distinct(1))
      then have "i \<in> user_ids (master w)" by (rule credentials_user)
      with result(2) have "i \<in> user_ids (master w')" by auto
      from performs_generate_token [OF this] have "(act E user)\<^sup>*\<^sup>* w' (snd (GenerateToken draw now i w'))" .
      with read have "(act E user)\<^sup>*\<^sup>* w (snd (GenerateToken draw now i w'))" by (rule rtranclp_trans)
      with read run x show ?thesis
        by (cases "verify row"; cases "GenerateToken draw now i w'")
          (auto simp: bind_def split: sum.splits prod.splits)
    qed
  qed
  show ?thesis
    unfolding Login_def
    by (rule performs_if, rule performs_basic, rule performs_bind, rule performs_basic)
      (subst performs_def, intro allI, rule select)
qed

lemma performs_register: "performs E user (UserRegisterHandler (env_lib E) H D dist i body)"
  unfolding UserRegisterHandler_def Let_def by (intro performs_intros)

lemma performs_user_reads:
  "performs E user (UserGetHandler L D req)" "performs E user (UserSearchHandler L D req)"
  "performs E user (PostGetHandler L req)"
  unfolding UserGetHandler_def UserSearchHandler_def PostGetHandler_def Let_def by (intro performs_intros)+

lemmas performs_handlers = performs_login performs_register performs_user_reads performs_friend_add
  performs_friend_delete performs_post_create performs_post_update performs_post_delete performs_post_feed
  performs_dialogs

section \<open>Authorization\<close>

text \<open>The handlers that are configured without authorization.\<close>

definition open_handler :: "handler \<Rightarrow> bool" where
  "open_handler h \<longleftrightarrow> h \<in> {Handler_Login, Handler_User_Register, Handler_Post_Get}"

lemma authorize_handler:
  "authorize cache h header =
     (if open_handler h then Inr None
      else case CheckAuth cache [''read''] header of
             (kAuthOk, user) \<Rightarrow> Inr user
           | (refused, _) \<Rightarrow> Inl refused)"
  by (cases h) (simp_all add: authorize_def auth_scopes_def static_config_def bearer_route_def open_route_def open_handler_def MakeAuthChecker_def)

text \<open>A cached token that grants the scope \<open>read\<close>, in a header of the right form.\<close>

definition bears_token :: "auth_snapshot \<Rightarrow> string \<Rightarrow> uuid \<Rightarrow> bool" where
  "bears_token cache header u \<longleftrightarrow>
     (\<exists>text info. header = ''Bearer '' @ text \<and> cache (c_string text) = Some info
        \<and> ''read'' \<in> set (ui_scopes info) \<and> ui_user_id info = u)"

lemma check_auth_read:
  "CheckAuth cache [''read''] header = (kAuthOk, user) \<longleftrightarrow> (\<exists>u. user = Some u \<and> bears_token cache header u)"
  by (auto simp: check_auth_cases bears_token_def split: option.splits)

lemma authorize_bearer:
  assumes "\<not> open_handler h"
  shows "bears_token cache header u \<Longrightarrow> authorize cache h header = Inr (Some u)"
    and "\<nexists>u. bears_token cache header u \<Longrightarrow>
      authorize cache h header = Inl (fst (CheckAuth cache [''read''] header))"
proof -
  show "authorize cache h header = Inr (Some u)" if "bears_token cache header u"
    using that assms check_auth_read [of cache header "Some u"] by (simp add: authorize_handler)
  show "authorize cache h header = Inl (fst (CheckAuth cache [''read''] header))"
    if "\<nexists>u. bears_token cache header u"
    using that assms
    by (auto simp: authorize_handler check_auth_read split: prod.split auth_status.split)
qed

text \<open>The two ways to be refused: no bearer header, or a token that is unknown or lacks the scope.\<close>

lemma refused_status:
  assumes "\<nexists>u. bears_token cache header u"
  shows "case fst (CheckAuth cache [''read''] header) of
       kAuthOk \<Rightarrow> False
     | kTokenNotFound _ \<Rightarrow> \<not> (\<exists>r. header = ''Bearer '' @ r)
     | kAuthForbidden _ \<Rightarrow> \<exists>r. header = ''Bearer '' @ r"
  using assms by (auto simp: check_auth_cases bears_token_def split: option.splits)

lemma authorize_open: "open_handler h \<Longrightarrow> authorize cache h header = Inr None"
  by (simp add: authorize_handler)

lemma serve_bearer:
  "\<not> open_handler (sr_handler q) \<Longrightarrow> bears_token (auth_cache w) (sr_authorization q) u \<Longrightarrow>
   serve E c q w = call E c (Some u) q (sr_handler q) w"
  by (simp add: serve_def authorize_bearer(1))

lemma serve_open: "open_handler (sr_handler q) \<Longrightarrow> serve E c q w = call E c None q (sr_handler q) w"
  by (simp add: serve_def authorize_open)

text \<open>A handler that reads the user from the context is called with one, so reading it never throws.\<close>

lemma authorized_has_user: "authorize cache h header = Inr user \<Longrightarrow> \<not> open_handler h \<Longrightarrow> user \<noteq> None"
  by (auto simp: authorize_handler check_auth_read split: prod.splits auth_status.splits)

lemma performs_call:
  assumes "authorize cache h header = Inr user"
  shows "performs E user (call E c user q h)"
  using authorized_has_user [OF assms]
  by (cases h) (auto simp: open_handler_def intro!: performs_answers performs_with_user performs_handlers)

text \<open>The user a request acts for.\<close>

definition caller :: "('r, 'z) app_scheme \<Rightarrow> server_request \<Rightarrow> uuid option" where
  "caller w q = (case authorize (auth_cache w) (sr_handler q) (sr_authorization q) of Inl _ \<Rightarrow> None | Inr user \<Rightarrow> user)"

lemma serve_performs: "(act E (caller w q))\<^sup>*\<^sup>* w (snd (serve E c q w))"
proof (cases "authorize (auth_cache w) (sr_handler q) (sr_authorization q)")
  case (Inr user)
  from performsD [OF performs_call [OF Inr]] show ?thesis by (simp add: serve_def caller_def Inr)
qed (simp add: serve_def)

section \<open>What requests do for their user\<close>

text \<open>
  The effect of any number of permitted steps: only the user's own friendships and posts are added
  or removed (updates and deletions of posts aside), announcements carry the user's identifier,
  users and tokens are only added, every new token belongs to a registered user; without a user
  nothing but users and tokens changes.
\<close>

definition acts_for :: "lib \<Rightarrow> uuid option \<Rightarrow> ('r, 'z) app_scheme \<Rightarrow> ('r, 'z) app_scheme \<Rightarrow> bool" where
  "acts_for L user w w' \<longleftrightarrow>
     filter (\<lambda>f. Some (fr_user f) \<noteq> user) (friendships (master w'))
       = filter (\<lambda>f. Some (fr_user f) \<noteq> user) (friendships (master w)) \<and>
     (\<forall>p \<in> set (posts (master w')). Some (po_author p) = user \<or>
        (\<exists>p0 \<in> set (posts (master w)). po_id p0 = po_id p \<and> po_author p0 = po_author p)) \<and>
     (\<exists>ms. published w' = published w @ ms \<and>
        (\<forall>m \<in> set ms. \<exists>u i text. user = Some u \<and>
           m = Publication feed_exchange (''post.created.'' @ to_str L u) (post_event L u i text))) \<and>
     (\<exists>us. users (master w') = users (master w) @ us) \<and>
     (\<exists>ts. tokens (master w') = tokens (master w) @ ts \<and>
        (\<forall>t \<in> set ts. tk_user t \<in> user_ids (master w') \<and> tk_scopes t = [''read'', ''user''])) \<and>
     slave w' = slave w \<and> auth_cache w' = auth_cache w \<and>
     (user = None \<longrightarrow> friendships (master w') = friendships (master w) \<and> posts (master w') = posts (master w) \<and>
        feed_redis w' = feed_redis w \<and> published w' = published w \<and> app.more w' = app.more w)"

lemma acts_for_refl: "acts_for L user w w"
  by (auto simp: acts_for_def)

lemma acts_forD:
  assumes "acts_for L user w w'"
  shows "filter (\<lambda>f. Some (fr_user f) \<noteq> user) (friendships (master w'))
      = filter (\<lambda>f. Some (fr_user f) \<noteq> user) (friendships (master w))"
    and "p \<in> set (posts (master w')) \<Longrightarrow> Some (po_author p) = user \<or>
      (\<exists>p0 \<in> set (posts (master w)). po_id p0 = po_id p \<and> po_author p0 = po_author p)"
    and "\<exists>ms. published w' = published w @ ms \<and> (\<forall>m \<in> set ms. \<exists>u i text. user = Some u \<and>
      m = Publication feed_exchange (''post.created.'' @ to_str L u) (post_event L u i text))"
    and "\<exists>us. users (master w') = users (master w) @ us"
    and "\<exists>ts. tokens (master w') = tokens (master w) @ ts \<and>
      (\<forall>t \<in> set ts. tk_user t \<in> user_ids (master w') \<and> tk_scopes t = [''read'', ''user''])"
  by (insert assms [unfolded acts_for_def], (elim conjE, (assumption | erule bspec, assumption))+)

lemma acts_for_trans:
  assumes "acts_for L user w v" and "acts_for L user v x"
  shows "acts_for L user w x"
  unfolding acts_for_def
proof (intro conjI)
  note a = acts_forD [OF assms(1)] and b = acts_forD [OF assms(2)]
  show "filter (\<lambda>f. Some (fr_user f) \<noteq> user) (friendships (master x))
      = filter (\<lambda>f. Some (fr_user f) \<noteq> user) (friendships (master w))"
    using a(1) b(1) by (rule trans [rotated])
  show "\<forall>p \<in> set (posts (master x)). Some (po_author p) = user \<or>
      (\<exists>p0 \<in> set (posts (master w)). po_id p0 = po_id p \<and> po_author p0 = po_author p)"
    using a(2) b(2) by metis
  obtain ms where ms: "published v = published w @ ms" "\<forall>m \<in> set ms. \<exists>u i text. user = Some u \<and>
      m = Publication feed_exchange (''post.created.'' @ to_str L u) (post_event L u i text)"
    using a(3) by (elim exE conjE)
  obtain ns where "published x = published v @ ns" "\<forall>m \<in> set ns. \<exists>u i text. user = Some u \<and>
      m = Publication feed_exchange (''post.created.'' @ to_str L u) (post_event L u i text)"
    using b(3) by (elim exE conjE)
  with ms show "\<exists>ms. published x = published w @ ms \<and> (\<forall>m \<in> set ms. \<exists>u i text. user = Some u \<and>
      m = Publication feed_exchange (''post.created.'' @ to_str L u) (post_event L u i text))"
    by (intro exI [of _ "ms @ ns"]) (simp add: ball_Un)
  from a(4) b(4) show "\<exists>us. users (master x) = users (master w) @ us" by auto
  obtain vs where more: "users (master x) = users (master v) @ vs" using b(4) by (elim exE)
  obtain ts where ts: "tokens (master v) = tokens (master w) @ ts"
    "\<forall>t \<in> set ts. tk_user t \<in> user_ids (master v) \<and> tk_scopes t = [''read'', ''user'']"
    using a(5) by (elim exE conjE)
  obtain us where us: "tokens (master x) = tokens (master v) @ us"
    "\<forall>t \<in> set us. tk_user t \<in> user_ids (master x) \<and> tk_scopes t = [''read'', ''user'']"
    using b(5) by (elim exE conjE)
  from ts us more show "\<exists>ts. tokens (master x) = tokens (master w) @ ts \<and>
      (\<forall>t \<in> set ts. tk_user t \<in> user_ids (master x) \<and> tk_scopes t = [''read'', ''user''])"
    by (intro exI [of _ "ts @ us"]) auto
qed (use assms in \<open>simp_all add: acts_for_def\<close>)

text \<open>The services that the gRPC clients call keep their own state: they leave that of the monolith alone.\<close>

definition same_app :: "('r, 'z) app_scheme \<Rightarrow> ('r, 'z) app_scheme \<Rightarrow> bool" where
  "same_app w w' \<longleftrightarrow> master w' = master w \<and> slave w' = slave w \<and> feed_redis w' = feed_redis w
     \<and> published w' = published w \<and> auth_cache w' = auth_cache w"

locale rpc_clients =
  fixes E :: "('r, ('r, 'z) app_scheme) environment"
  assumes send_frame: "same_app w (snd (env_send E meta p x w))"
    and list_frame: "same_app w (snd (env_list E meta p w))"
    and reset_frame: "same_app w (snd (env_reset E meta p w))"
    and unread_frame: "same_app w (snd (env_unread E meta w))"
begin

lemmas frames = send_frame list_frame reset_frame unread_frame

lemma acts_for_call: "user = Some u \<Longrightarrow> same_app w w' \<Longrightarrow> acts_for L user w w'"
  by (auto simp: acts_for_def same_app_def)

lemma act_acts_for: "act E user w w' \<Longrightarrow> acts_for (env_lib E) user w w'"
proof (induction rule: act.induct)
  case (user_added w row)
  then show ?case by (auto simp: acts_for_def sql_insert_user_def)
next
  case (token_issued i w token now)
  then show ?case by (auto simp: acts_for_def sql_insert_token_def)
next
  case (friend_added u w f now)
  then show ?case by (auto simp: acts_for_def sql_insert_friendship_def)
next
  case (friend_removed u w f)
  then show ?case by (auto simp: acts_for_def sql_delete_friendship_def filter_filter intro!: filter_cong)
next
  case (post_added u w i now x)
  then show ?case by (auto simp: acts_for_def sql_insert_post_def)
next
  case (post_updated u w i x)
  then show ?case by (auto simp: acts_for_def sql_update_post_def)
next
  case (post_deleted u w i)
  then show ?case by (auto simp: acts_for_def sql_delete_post_def)
next
  case (message_sent u w to_user x)
  with send_frame show ?case by (rule acts_for_call [rotated])
next
  case (messages_listed u w other)
  with list_frame show ?case by (rule acts_for_call [rotated])
next
  case (dialog_reset u w other)
  with reset_frame show ?case by (rule acts_for_call [rotated])
next
  case (unread_read u w)
  with unread_frame show ?case by (rule acts_for_call [rotated])
qed (auto simp: acts_for_def)

lemma serve_acts_for: "acts_for (env_lib E) (caller w q) w (snd (serve E c q w))"
proof -
  have "acts_for (env_lib E) user w w'" if "(act E user)\<^sup>*\<^sup>* w w'" for user w w'
    using that by induction (auto intro: acts_for_refl acts_for_trans act_acts_for)
  with serve_performs show ?thesis by blast
qed

end

section \<open>Every reachable state of the server\<close>

text \<open>
  Requests one after the other, each with any faults; in between the replica catches up, the
  token cache is updated, the consumer takes a post event (any of those published, again and
  again), and everything outside the monolith's own data changes at will.
\<close>

definition server_start :: "('r, ('r, 'z) app_scheme) environment \<Rightarrow> ('r, 'z) app_scheme \<Rightarrow> bool" where
  "server_start E w \<longleftrightarrow> db_ok (master w) \<and> tokens (master w) = [] \<and> slave w = master w \<and> published w = []
     \<and> auth_cache w = Map.empty \<and> (\<forall>u. r_type (env_redis E) (feed_redis w) (MakeKey (env_lib E) u) = TNone)"

inductive server_step :: "('r, ('r, 'z) app_scheme) environment \<Rightarrow> ('r, 'z) app_scheme \<Rightarrow> ('r, 'z) app_scheme \<Rightarrow> bool"
  for E :: "('r, ('r, 'z) app_scheme) environment"
where
  request: "server_step E w (snd (serve E c q w))"
| replicate: "server_step E w (replicate_now w)"
| update_cache: "server_step E w (update_auth_cache t w)"
| consume: "m \<in> set (published w) \<Longrightarrow>
    server_step E w (snd (PostFeedConsumer_Process (env_lib E) (env_redis E) (env_planner E) (pub_body m) w))"
| elsewhere: "same_app w w' \<Longrightarrow> server_step E w w'"

inductive server_reach :: "('r, ('r, 'z) app_scheme) environment \<Rightarrow> ('r, 'z) app_scheme \<Rightarrow> bool"
  for E :: "('r, ('r, 'z) app_scheme) environment"
where
  start: "server_start E w \<Longrightarrow> server_reach E w"
| step: "server_reach E w \<Longrightarrow> server_step E w w' \<Longrightarrow> server_reach E w'"

lemmas reach_request = server_reach.step [OF _ server_step.request]
lemmas reach_update_cache = server_reach.step [OF _ server_step.update_cache]

definition tokens_ok :: "db \<Rightarrow> bool" where
  "tokens_ok d \<longleftrightarrow> (\<forall>t \<in> set (tokens d). tk_user t \<in> user_ids d \<and> tk_scopes t = [''read'', ''user''])"

text \<open>The cache holds tokens of the replica, and the replica those of an earlier master.\<close>

definition cache_of_tokens :: "('r, 'z) app_scheme \<Rightarrow> bool" where
  "cache_of_tokens w \<longleftrightarrow> set (tokens (slave w)) \<subseteq> set (tokens (master w)) \<and>
     (\<forall>k info. auth_cache w k = Some info \<longrightarrow> (\<exists>t \<in> set (tokens (slave w)). tk_token t = k \<and> info = info_of_row t))"

definition events_ok :: "lib \<Rightarrow> publication list \<Rightarrow> bool" where
  "events_ok L ms \<longleftrightarrow> (\<forall>m \<in> set ms. \<exists>a i text. pub_body m = post_event L a i text)"

definition server_inv :: "('r, ('r, 'z) app_scheme) environment \<Rightarrow> ('r, 'z) app_scheme \<Rightarrow> bool" where
  "server_inv E w \<longleftrightarrow> db_ok (master w) \<and> db_ok (slave w) \<and> tokens_ok (master w) \<and> cache_of_tokens w
     \<and> cache_decodable (env_lib E) (env_redis E) (feed_redis w) \<and> events_ok (env_lib E) (published w)"

lemma server_invD:
  assumes "server_inv E w"
  shows "db_ok (master w)" and "db_ok (slave w)" and "tokens_ok (master w)" and "cache_of_tokens w"
    and "cache_decodable (env_lib E) (env_redis E) (feed_redis w)" and "events_ok (env_lib E) (published w)"
  using assms by (simp_all add: server_inv_def)

text \<open>Statements only add users and tokens.\<close>

definition grows :: "db \<Rightarrow> db \<Rightarrow> bool" where
  "grows d d' \<longleftrightarrow> user_ids d \<subseteq> user_ids d' \<and> set (tokens d) \<subseteq> set (tokens d')"

lemma grows_statements:
  "grows d (snd (sql_insert_user row d))" "grows d (snd (sql_insert_token t i sc now d))"
  "grows d (snd (sql_insert_friendship u f now d))" "grows d (snd (sql_delete_friendship u f d))"
  "grows d (snd (sql_insert_post i now u x d))" "grows d (snd (sql_update_post i x d))"
  "grows d (snd (sql_delete_post i d))"
  by (auto simp: grows_def sql_insert_user_def sql_insert_token_def sql_insert_friendship_def
      sql_delete_friendship_def sql_insert_post_def sql_update_post_def sql_delete_post_def)

lemma tokens_ok_statements:
  assumes "tokens_ok d"
  shows "tokens_ok (snd (sql_insert_user row d))"
    and "i \<in> user_ids d \<Longrightarrow> tokens_ok (snd (sql_insert_token t i [''read'', ''user''] now d))"
    and "tokens_ok (snd (sql_insert_friendship u f now d))" "tokens_ok (snd (sql_delete_friendship u f d))"
    and "tokens_ok (snd (sql_insert_post j now u x d))" "tokens_ok (snd (sql_update_post j x d))"
    and "tokens_ok (snd (sql_delete_post j d))"
  using assms
  by (auto simp: tokens_ok_def sql_insert_user_def sql_insert_token_def sql_insert_friendship_def
      sql_delete_friendship_def sql_insert_post_def sql_update_post_def sql_delete_post_def)

lemmas db_ok_statements = sql_insert_user_ok [THEN preservesD] sql_insert_token_ok [THEN preservesD]
  sql_insert_friendship_ok [THEN preservesD] sql_delete_friendship_ok [THEN preservesD]
  sql_insert_post_ok [THEN preservesD] sql_update_post_ok [THEN preservesD] sql_delete_post_ok [THEN preservesD]

lemma server_inv_master:
  assumes "server_inv E w" and "db_ok d" and "tokens_ok d" and "grows (master w) d"
  shows "server_inv E (w\<lparr>master := d\<rparr>)"
  using assms by (fastforce simp: server_inv_def cache_of_tokens_def grows_def)

lemma server_inv_redis:
  "server_inv E w \<Longrightarrow> cache_decodable (env_lib E) (env_redis E) r \<Longrightarrow> server_inv E (w\<lparr>feed_redis := r\<rparr>)"
  by (simp add: server_inv_def cache_of_tokens_def)

lemma server_inv_publish:
  "server_inv E w \<Longrightarrow> pub_body m = post_event (env_lib E) a i x \<Longrightarrow>
   server_inv E (w\<lparr>published := published w @ [m]\<rparr>)"
  by (auto simp: server_inv_def cache_of_tokens_def events_ok_def)

lemma server_inv_same: "server_inv E w \<Longrightarrow> same_app w w' \<Longrightarrow> server_inv E w'"
  by (auto simp: server_inv_def cache_of_tokens_def same_app_def)

lemma server_inv_faults: "server_inv E w \<Longrightarrow> server_inv E (w\<lparr>faults := fs\<rparr>)"
  by (rule server_inv_same) (simp_all add: same_app_def)

lemma loaded_cache_rows:
  "AuthCachePolicy_load rows k = Some info \<Longrightarrow> \<exists>t \<in> set rows. tk_token t = k \<and> info = info_of_row t"
  by (auto simp: AuthCachePolicy_load_def info_of_row_def dest!: map_of_SomeD)

locale server = feed_env "env_lib E" "env_redis E" "env_planner E" + rpc_clients E
  for E :: "('r, ('r, 'z) app_scheme) environment"
begin

lemma act_inv: "act E user w w' \<Longrightarrow> server_inv E w \<Longrightarrow> server_inv E w'"
proof (induction rule: act.induct)
  case (post_announced u w i x)
  then show ?case by (auto intro: server_inv_publish)
next
  case (update_requested w n)
  then show ?case by (rule server_inv_same) (simp add: same_app_def)
next
  case (message_sent u w to_user x)
  then show ?case by (blast intro: server_inv_same send_frame)
next
  case (messages_listed u w other)
  then show ?case by (blast intro: server_inv_same list_frame)
next
  case (dialog_reset u w other)
  then show ?case by (blast intro: server_inv_same reset_frame)
next
  case (unread_read u w)
  then show ?case by (blast intro: server_inv_same unread_frame)
qed (blast intro: server_inv_faults server_inv_master server_inv_redis decodable_steps grows_statements
      tokens_ok_statements db_ok_statements dest: server_invD)+

lemma serve_inv:
  assumes "server_inv E w"
  shows "server_inv E (snd (serve E c q w))"
  using serve_performs assms by (induction rule: rtranclp_induct) (auto intro: act_inv)

text \<open>The consumer keeps the invariant and, on an event of the server, fails only with a service.\<close>

lemma pres_inv_calls:
  "preserves (server_inv E) (from_slave q)" "preserves (server_inv E) (redis_get p)"
  "(\<And>r. cache_decodable (env_lib E) (env_redis E) r \<Longrightarrow> cache_decodable (env_lib E) (env_redis E) (f r)) \<Longrightarrow>
   preserves (server_inv E) (redis_put f)"
  "preserves (server_inv E) (publish e k (post_event (env_lib E) a i x))"
  unfolding from_slave_def redis_get_def redis_put_def publish_def
  by (intro preserves_ext preserves_query preserves_modify server_inv_faults server_inv_publish
      server_inv_redis; force dest: server_invD(5))+

lemma consume_inv:
  assumes "server_inv E w" and "m \<in> set (published w)"
  shows "server_inv E (snd (PostFeedConsumer_Process (env_lib E) (env_redis E) (env_planner E) (pub_body m) w))"
proof -
  obtain a i x where m: "pub_body m = post_event (env_lib E) a i x"
    using server_invD(6) [OF assms(1)] assms(2) unfolding events_ok_def by blast
  have "preserves (server_inv E) (OnPostCreated (env_lib E) (env_redis E) (env_planner E) a i x)"
    unfolding OnPostCreated_def GetFollowers_def Let_def
    by (intro preserves_bind preserves_if preserves_for_each preserves_ret pres_inv_calls decodable_steps)
  then have "preserves (server_inv E) (bind (OnPostCreated (env_lib E) (env_redis E) (env_planner E) a i x)
      (\<lambda>_. publish ''ws-fanout'' [] (post_event (env_lib E) a i x)))"
    by (intro preserves_bind pres_inv_calls)
  from preservesD [OF this assms(1)] show ?thesis unfolding m consumer_process .
qed

lemma step_inv:
  assumes "server_step E w w'" and "server_inv E w"
  shows "server_inv E w'"
  using assms
proof (induction rule: server_step.induct)
  case (request w c q)
  then show ?case by (rule serve_inv)
next
  case (replicate w)
  then show ?case by (auto simp: server_inv_def replicate_now_def cache_of_tokens_def) blast
next
  case (update_cache w t)
  then show ?case
    by (cases t) (auto simp: server_inv_def update_auth_cache_def cache_of_tokens_def map_add_Some_iff dest!: loaded_cache_rows)
next
  case (consume m w)
  then show ?case by (blast intro: consume_inv)
next
  case (elsewhere w w')
  then show ?case by (blast intro: server_inv_same)
qed

lemma reach_inv: "server_reach E w \<Longrightarrow> server_inv E w"
proof (induction rule: server_reach.induct)
  case (start w)
  then have "feed_holds (env_lib E) (env_redis E) (feed_redis w) u []" for u
    using none_list [of "feed_redis w" "MakeKey (env_lib E) u"] by (simp add: server_start_def feed_holds_def)
  with start show ?case
    by (auto simp: server_inv_def server_start_def tokens_ok_def cache_of_tokens_def events_ok_def cache_decodable_def)
next
  case (step w w')
  then show ?case by (blast intro: step_inv)
qed

text \<open>No step takes a token out of the cache: tokens are not deleted, and a replica does not go back.\<close>

lemma consume_keeps_tokens:
  assumes "PostFeedConsumer_Process (env_lib E) (env_redis E) (env_planner E) message w = (r, w')"
  shows "master w' = master w \<and> slave w' = slave w \<and> auth_cache w' = auth_cache w"
proof -
  let ?same = "\<lambda>v. master v = master w \<and> slave v = slave w \<and> auth_cache v = auth_cache w"
  have calls: "preserves ?same (from_slave q)" "preserves ?same (redis_get p)" "preserves ?same (redis_put f)"
    "preserves ?same (publish e k b)" for q p f e k b
    unfolding from_slave_def redis_get_def redis_put_def publish_def
    by (intro preserves_ext preserves_query preserves_modify; simp)+
  have "preserves ?same (PostFeedConsumer_Process (env_lib E) (env_redis E) (env_planner E) message)"
    unfolding PostFeedConsumer_Process_def OnPostCreated_def GetFollowers_def Let_def
    by (intro preserves_bind preserves_lift_sum)
      (auto intro!: preserves_bind preserves_if preserves_for_each preserves_ret calls split: prod.split)
  from preservesD [OF this, of w] assms show ?thesis by simp
qed

lemma load_row:
  assumes "distinct (map tk_token rows)" and "t \<in> set rows"
  shows "AuthCachePolicy_load rows (tk_token t) = Some (info_of_row t)"
proof -
  have keys: "map fst (map (\<lambda>r. (ui_token (info_of_row r), info_of_row r)) rows) = map tk_token rows"
    by (simp add: info_of_row_def)
  have "distinct (map fst (map (\<lambda>r. (ui_token (info_of_row r), info_of_row r)) rows))"
    unfolding keys by (rule assms(1))
  moreover have "(tk_token t, info_of_row t) \<in> set (map (\<lambda>r. (ui_token (info_of_row r), info_of_row r)) rows)"
    using assms(2) by (force simp: info_of_row_def)
  ultimately show ?thesis unfolding AuthCachePolicy_load_def by (rule map_of_is_SomeI)
qed

lemma update_keeps_cache:
  assumes "cache_of_tokens w" and "db_ok (slave w)" and "auth_cache w k = Some info"
  shows "auth_cache (update_auth_cache t w) k = Some info"
proof -
  from assms(1,3) obtain r where r: "r \<in> set (tokens (slave w))" "tk_token r = k" "info = info_of_row r"
    by (fastforce simp: cache_of_tokens_def)
  have distinct: "distinct (map tk_token (tokens (slave w)))" using assms(2) by (simp add: db_ok_def)
  show ?thesis
  proof (cases t)
    case kFull
    with load_row [OF distinct r(1)] r(2,3) show ?thesis by (simp add: update_auth_cache_def)
  next
    case (kIncremental since)
    let ?new = "AuthCachePolicy_load (filter (\<lambda>r. since \<le> tk_updated r) (tokens (slave w)))"
    show ?thesis
    proof (cases "?new k")
      case None
      with kIncremental assms(3) show ?thesis by (simp add: update_auth_cache_def map_add_def)
    next
      case (Some info')
      from loaded_cache_rows [OF this] obtain r' where r': "r' \<in> set (tokens (slave w))" "tk_token r' = k" "info' = info_of_row r'"
        by auto
      with r distinct have "r' = r" by (auto simp: distinct_map dest: inj_onD)
      with Some r(3) r'(3) kIncremental show ?thesis by (simp add: update_auth_cache_def)
    qed
  qed
qed

lemma step_keeps_cache:
  assumes "server_step E w w'" and "server_inv E w" and "auth_cache w k = Some info"
  shows "auth_cache w' k = Some info"
  using assms
proof (induction rule: server_step.induct)
  case (request w c q)
  with serve_acts_for [of w q c] show ?case by (simp add: acts_for_def)
next
  case (consume m w)
  then show ?case using consume_keeps_tokens [of "pub_body m" w] by (metis prod.collapse)
next
  case (update_cache w t)
  then show ?case by (blast intro: update_keeps_cache dest: server_invD)
qed (auto simp: replicate_now_def same_app_def)

lemma bearer_stays:
  assumes "(server_step E)\<^sup>*\<^sup>* w w'" and "server_inv E w" and "bears_token (auth_cache w) header u"
  shows "server_inv E w' \<and> bears_token (auth_cache w') header u"
  using assms(1)
proof (induction rule: rtranclp_induct)
  case base
  then show ?case using assms(2,3) by simp
next
  case (step v v')
  then show ?case using step_inv [OF step.hyps(2)] step_keeps_cache [OF step.hyps(2)]
    by (fastforce simp: bears_token_def)
qed

lemma bearer_is_user:
  assumes "server_inv E w" and "bears_token (auth_cache w) header u"
  shows "u \<in> user_ids (master w)"
  using assms unfolding server_inv_def cache_of_tokens_def tokens_ok_def bears_token_def info_of_row_def by fastforce

end

section \<open>Malformed requests\<close>

text \<open>
  The members that a handler reads from its body, the handlers that read an identifier from the
  path, and what makes a request malformed: a member that is missing, an identifier that is no UUID,
  a page argument that is no number, a member that is no string, a date of birth that is no date.
  A login's password is only read once a user with the identifier is found, so it is left out.
\<close>

fun members :: "handler \<Rightarrow> string list" where
  "members Handler_Login = [''id'', ''password'']"
| "members Handler_User_Register = register_fields"
| "members Handler_Post_Create = [''text'']"
| "members Handler_Post_Update = [''id'', ''text'']"
| "members Handler_Dialog_Send = [''text'']"
| "members h = []"

definition path_handlers :: "handler list" where
  "path_handlers = [Handler_User_Get, Handler_Friend_Add, Handler_Friend_Delete, Handler_Post_Delete,
     Handler_Post_Get, Handler_Dialog_Send, Handler_Dialog_List]"

definition bad_uuid :: "lib \<Rightarrow> string \<Rightarrow> bool" where
  "bad_uuid L s \<longleftrightarrow> gen L s = None"

definition reads :: "exn + 'a \<Rightarrow> bool" where
  "reads x = (case x of Inl _ \<Rightarrow> False | Inr _ \<Rightarrow> True)"

definition is_text :: "json_body \<Rightarrow> string \<Rightarrow> bool" where
  "is_text body name \<longleftrightarrow> reads (field_string (JObject body) name)"

definition is_uuid :: "lib \<Rightarrow> json_body \<Rightarrow> string \<Rightarrow> bool" where
  "is_uuid L body name \<longleftrightarrow> (case field_string (JObject body) name of Inl _ \<Rightarrow> False | Inr s \<Rightarrow> \<not> bad_uuid L s)"

definition is_date :: "dates \<Rightarrow> json_body \<Rightarrow> string \<Rightarrow> bool" where
  "is_date D body name \<longleftrightarrow> (case field_string (JObject body) name of Inl _ \<Rightarrow> False | Inr s \<Rightarrow> parse_date D s \<noteq> None)"

definition bad_page :: "http_request \<Rightarrow> bool" where
  "bad_page req \<longleftrightarrow> \<not> reads (feed_arg req ''offset'' 0) \<or> \<not> reads (feed_arg req ''limit'' 10)"

fun bad_value :: "lib \<Rightarrow> dates \<Rightarrow> json_body \<Rightarrow> handler \<Rightarrow> bool" where
  "bad_value L D body Handler_Login = (\<not> is_uuid L body ''id'')"
| "bad_value L D body Handler_User_Register =
     (\<not> list_all (is_text body) register_fields \<or> \<not> is_date D body ''birthdate'')"
| "bad_value L D body Handler_Post_Create = (\<not> is_text body ''text'')"
| "bad_value L D body Handler_Post_Update = (\<not> is_uuid L body ''id'' \<or> \<not> is_text body ''text'')"
| "bad_value L D body Handler_Dialog_Send = (\<not> is_text body ''text'')"
| "bad_value L D body h = False"

text \<open>
  What the handlers answer themselves: all but the values of the body, of which only the identifier
  of a changed post is read inside a \<open>try\<close> block, which catches the exception of the UUID parser.
\<close>

definition caught_by_handler :: "lib \<Rightarrow> server_request \<Rightarrow> handler \<Rightarrow> bool" where
  "caught_by_handler L q h \<longleftrightarrow> \<not> list_all (has_member (sr_body q)) (members h)
     \<or> h \<in> set path_handlers \<and> bad_uuid L (path_arg (sr_http q))
     \<or> h = Handler_Post_Feed \<and> bad_page (sr_http q)
     \<or> h = Handler_Post_Update \<and> is_text (sr_body q) ''id'' \<and> \<not> is_uuid L (sr_body q) ''id''"

definition malformed :: "lib \<Rightarrow> dates \<Rightarrow> server_request \<Rightarrow> handler \<Rightarrow> bool" where
  "malformed L D q h \<longleftrightarrow> caught_by_handler L q h \<or> bad_value L D (sr_body q) h"

lemma caught_call:
  assumes "caught_by_handler (env_lib E) q h" and "user = None \<longleftrightarrow> open_handler h"
  shows "\<exists>body. call E c user q h w = (Inr (Answer kBadRequest body), w)"
  using assms
  by (cases h)
    (auto simp: caught_by_handler_def path_handlers_def bad_page_def reads_def is_text_def is_uuid_def
      open_handler_def bad_uuid_def string_generator_def bind_def json_answer_def text_answer_def
      with_user_def Login_def login_IsCorrectRequest_def UserRegisterHandler_def register_IsCorrectRequest_def
      UserGetHandler_def FriendAddHandler_def FriendDeleteHandler_def PostCreateHandler_def PostUpdateHandler_def
      PostDeleteHandler_def PostGetHandler_def PostFeedHandler_def DialogSendHandler_def DialogListHandler_def
      sum_bind_eq_Inr split: sum.splits)

lemma field_string_throws:
  "field_string j name = Inl e \<Longrightarrow> \<not> is_runtime_error e"
  by (auto simp: field_string_def is_runtime_error_def split: json.splits option.splits)

text \<open>Registration reads every member, and the date, before it stores the user.\<close>

lemma bad_registration:
  assumes "register_IsCorrectRequest body" and "bad_value L D body Handler_User_Register"
  shows "\<exists>e. UserRegisterHandler L H D dist i body w = (Inl e, w)"
  using assms
  by (auto simp: UserRegisterHandler_def bind_def is_text_def is_date_def reads_def register_fields_def
      DateFromRFC3339String_def lift_sum_def Let_def split: sum.splits prod.splits option.splits)

lemma uncaught_call:
  assumes "\<not> caught_by_handler (env_lib E) q h" and "bad_value (env_lib E) (env_dates E) (sr_body q) h"
    and "user = None \<longleftrightarrow> open_handler h"
  shows "\<exists>e. call E c user q h w = (Inl e, w)"
proof (cases "h = Handler_User_Register")
  case True
  with assms(1,2) bad_registration [of "sr_body q" "env_lib E" "env_dates E" "env_hash E" "ch_dist c" "ch_id c" w]
  show ?thesis by (auto simp: caught_by_handler_def register_IsCorrectRequest_def json_answer_def bind_def)
next
  case False
  with assms show ?thesis
    by (cases h)
      (auto simp: caught_by_handler_def path_handlers_def reads_def is_text_def is_uuid_def open_handler_def bad_uuid_def
        string_generator_def bind_def json_answer_def with_user_def Login_def login_IsCorrectRequest_def
        PostCreateHandler_def PostUpdateHandler_def DialogSendHandler_def lift_sum_def sum_bind_def
        parse_or_bad_request_def dest: field_string_throws split: sum.splits option.splits)
qed

section \<open>The server with both services\<close>

text \<open>
  The state of the monolith beside that of the chat and the counter service, and the gRPC clients
  that reach them: a call runs on the services' part of the state.
\<close>

record 'r social = "'r app" +
  dialogs :: "'r dialog_world"

definition rpc_at :: "('r dialog_world, 'a) eff \<Rightarrow> ('r social, 'a) eff" where
  "rpc_at m w = (case m (dialogs w) of (x, d) \<Rightarrow> (x, w\<lparr>dialogs := d\<rparr>))"

lemma rpc_at_frame: "same_app w (snd (rpc_at m w))"
  by (simp add: rpc_at_def same_app_def split: prod.split)

definition social_environment ::
  "lib \<Rightarrow> 'r redis \<Rightarrow> planner \<Rightarrow> lua \<Rightarrow> std_hash \<Rightarrow> dates \<Rightarrow> uuid \<Rightarrow> ('r, 'r social) environment"
where
  "social_environment L R P U H D new_id =
     \<lparr>env_lib = L, env_redis = R, env_planner = P, env_hash = H, env_dates = D,
      env_send = (\<lambda>meta b x. rpc_at (send_via L R U new_id meta b x)),
      env_list = (\<lambda>meta b. rpc_at (list_via L R U meta b)),
      env_reset = (\<lambda>meta b. rpc_at (reset_via R U meta b)),
      env_unread = (\<lambda>meta. rpc_at (unread_via R meta))\<rparr>"

lemma social_environment_simps [simp]:
  "env_lib (social_environment L R P U H D i) = L" "env_redis (social_environment L R P U H D i) = R"
  "env_planner (social_environment L R P U H D i) = P"
  by (simp_all add: social_environment_def)

interpretation social: rpc_clients "social_environment L R P U H D i"
  by unfold_locales (simp_all add: social_environment_def rpc_at_frame)

lemma social_server: "feed_env L R P \<Longrightarrow> server (social_environment L R P U H D i)"
  by (simp add: server_def social.rpc_clients_axioms)

definition sample_hash :: std_hash where
  "sample_hash = \<lparr>hash_string = (\<lambda>s. 7), hash_size = (\<lambda>n. n)\<rparr>"

definition sample_environment :: "(keyspace, keyspace social) environment" where
  "sample_environment = social_environment ref_lib ref_redis ref_planner ref_lua sample_hash sample_dates (Uuid 77)"

interpretation ref_social: server sample_environment
  unfolding sample_environment_def by (rule social_server) (rule ref_feed_axioms)

lemmas ref_social_axioms = ref_social.server_axioms

text \<open>A start, and a state in which the token \<open>t\<close> of user 1 is cached.\<close>

definition sample_social :: "keyspace social" where
  "sample_social = \<lparr>faults = [], master = sample_db, slave = sample_db, feed_redis = empty_keyspace,
     published = [], auth_cache = Map.empty, cache_invalidations = 0, dialogs = sample_dialogs\<rparr>"

lemma sample_social_simps [simp]:
  "faults sample_social = []" "master sample_social = sample_db" "slave sample_social = sample_db"
  "feed_redis sample_social = empty_keyspace" "published sample_social = []"
  "auth_cache sample_social = Map.empty" "dialogs sample_social = sample_dialogs"
  by (simp_all add: sample_social_def)

definition sample_info :: user_db_info where
  "sample_info = \<lparr>ui_token = ''t'', ui_user_id = Uuid 1, ui_scopes = [''read'', ''user'']\<rparr>"

definition logged_in_social :: "keyspace social" where
  "logged_in_social = sample_social
     \<lparr>master := sample_db\<lparr>tokens := [\<lparr>tk_token = ''t'', tk_user = Uuid 1, tk_scopes = [''read'', ''user''], tk_updated = 3\<rparr>]\<rparr>,
      slave := sample_db\<lparr>tokens := [\<lparr>tk_token = ''t'', tk_user = Uuid 1, tk_scopes = [''read'', ''user''], tk_updated = 3\<rparr>]\<rparr>,
      auth_cache := [''t'' \<mapsto> sample_info]\<rparr>"

lemma sample_social_start: "server_start sample_environment sample_social"
  by (simp add: server_start_def sample_db_ok sample_environment_def)
    (simp add: sample_db_def ref_redis_def empty_keyspace_def)

lemma logged_in_inv: "server_inv sample_environment logged_in_social"
proof -
  have "server_inv sample_environment sample_social"
    using sample_social_start by (intro ref_social.reach_inv server_reach.start)
  then show ?thesis
    using sample_db_ok
    by (auto simp: server_inv_def logged_in_social_def tokens_ok_def cache_of_tokens_def sample_info_def
        info_of_row_def db_ok_def sample_db_def sample_user_def)
qed

lemma logged_in_bears: "bears_token (auth_cache logged_in_social) ''Bearer t'' (Uuid 1)"
  by (auto simp: bears_token_def logged_in_social_def sample_info_def c_string_def)

definition sample_chance :: chance where
  "sample_chance = \<lparr>ch_id = Uuid 20, ch_now = 5, ch_draw = (\<lambda>i m. 0), ch_dist = (\<lambda>_. 65)\<rparr>"

definition sample_request :: "handler \<Rightarrow> string \<Rightarrow> json_body \<Rightarrow> server_request" where
  "sample_request h path body =
     \<lparr>sr_handler = h, sr_authorization = ''Bearer t'', sr_http = \<lparr>path_arg = path, args = []\<rparr>, sr_body = body\<rparr>"

lemma sample_caller: "caller logged_in_social (sample_request h path body) = (if open_handler h then None else Some (Uuid 1))"
  using authorize_bearer(1) [OF _ logged_in_bears, of h] authorize_open [of h]
  by (simp add: caller_def sample_request_def)

text \<open>User 4 registers and logs in, and the token cache is updated.\<close>

definition registered_social :: "keyspace social" where
  "registered_social = snd (serve sample_environment sample_chance
     (sample_request Handler_User_Register [] (sample_registration ''pw'')) sample_social)"

definition session_social :: "keyspace social" where
  "session_social = update_auth_cache (kIncremental 4) (replicate_now (snd (serve sample_environment sample_chance
     (sample_request Handler_Login [] (login_body ref_lib (Uuid 20) ''pw'')) registered_social)))"

definition session_token :: string where
  "session_token = GenerateBearerToken (\<lambda>i m. 0) token_length"

lemma session_reach: "server_reach sample_environment session_social"
  unfolding session_social_def registered_social_def
  by (intro reach_update_cache server_reach.step [OF reach_request server_step.replicate] reach_request
      server_reach.start sample_social_start)

lemma registered_social_run: "registered_social =
  sample_social\<lparr>master := sample_db\<lparr>users := users sample_db @ [sample_row sample_hash (\<lambda>_. 65) (Uuid 20) ''pw'']\<rparr>\<rparr>"
proof -
  have "Uuid 20 \<notin> user_ids (master sample_social)" by (simp add: sample_db_def sample_user_def)
  from register_run [OF _ sample_registered this, of ref_lib sample_hash "\<lambda>_. 65" "''pw''"] show ?thesis
    by (simp add: registered_social_def serve_open open_handler_def sample_request_def sample_environment_def
        sample_chance_def json_answer_def bind_def) (simp add: social_environment_def)
qed

lemma session_run: "session_social = update_auth_cache (kIncremental 4) (replicate_now (registered_social
    \<lparr>master := (master registered_social)\<lparr>tokens := [\<lparr>tk_token = session_token, tk_user = Uuid 20,
        tk_scopes = [''read'', ''user''], tk_updated = 5\<rparr>]\<rparr>, cache_invalidations := 1\<rparr>))"
proof -
  let ?row = "sample_row sample_hash (\<lambda>_. 65) (Uuid 20) ''pw''"
  have row: "ur_id ?row = Uuid 20" by (simp add: sample_row_def)
  have reach: "server_reach sample_environment registered_social"
    unfolding registered_social_def by (intro reach_request server_reach.start sample_social_start)
  have inv: "db_ok (master registered_social)"
    using server_invD(1) [OF ref_social.reach_inv [OF reach]] .
  have field: "field_string (JObject (sample_registration ''pw'')) ''password'' = Inr ''pw''"
    by (simp add: sample_registration_def field_string_def)
  have tokens: "tokens (master registered_social) = []" "faults registered_social = []"
    "cache_invalidations registered_social = 0" "?row \<in> set (users (master registered_social))"
    by (simp_all add: registered_social_run sample_db_def) (simp_all add: sample_social_def)
  have "Login ref_lib sample_hash (\<lambda>i m. 0) 5 (login_body ref_lib (Uuid 20) ''pw'') registered_social =
    (Inr (kOk, JObject [(''token'', JString session_token)]),
     registered_social\<lparr>master := (master registered_social)\<lparr>tokens := [\<lparr>tk_token = session_token, tk_user = Uuid 20,
        tk_scopes = [''read'', ''user''], tk_updated = 5\<rparr>]\<rparr>, cache_invalidations := 1\<rparr>)"
    using login_run [OF ref_library_axioms tokens(2) inv tokens(4) registered_credentials [OF sample_registered field],
        of "\<lambda>i m. 0" 5 "''pw''"] tokens passwords.same_refl [of sample_hash "\<lambda>_. 65" "''pw''"]
    by (simp add: row session_token_def)
  then show ?thesis
    by (simp add: session_social_def serve_open open_handler_def sample_request_def sample_environment_def
        sample_chance_def json_answer_def bind_def) (simp add: social_environment_def)
qed

lemma session_bears: "bears_token (auth_cache session_social) (''Bearer '' @ session_token) (Uuid 20)"
  by (simp add: bears_token_def session_run update_auth_cache_def replicate_now_def AuthCachePolicy_load_def info_of_row_def
      session_token_def c_string_token)

lemma session_faults: "faults session_social = []"
  by (simp add: session_run update_auth_cache_def replicate_now_def) (simp add: registered_social_run)

section \<open>Properties\<close>

text \<open>
  C19. Authorization guards the server. Except for login, registration and reading one post, a
  request whose header does not carry a cached token with the scope \<open>read\<close> is refused with the
  status of the check and changes nothing: \<open>kTokenNotFound\<close> without a bearer header, \<open>kForbidden\<close>
  otherwise. One that does is handled as the token's user. The three open handlers are called
  without a user.
\<close>

theorem unauthorized_requests_change_nothing:
  "(if open_handler (sr_handler q) then serve E c q w = call E c None q (sr_handler q) w
    else if \<exists>u. bears_token (auth_cache w) (sr_authorization q) u
    then \<exists>u. bears_token (auth_cache w) (sr_authorization q) u \<and> serve E c q w = call E c (Some u) q (sr_handler q) w
    else \<exists>status. serve E c q w = (Inr (Refused status), w)
      \<and> (case status of
            kAuthOk \<Rightarrow> False
          | kTokenNotFound _ \<Rightarrow> \<not> (\<exists>r. sr_authorization q = ''Bearer '' @ r)
          | kAuthForbidden _ \<Rightarrow> \<exists>r. sr_authorization q = ''Bearer '' @ r))"
proof -
  note a = authorize_bearer [of "sr_handler q" "auth_cache w" "sr_authorization q"]
  show ?thesis
    using a refused_status [of "auth_cache w" "sr_authorization q"] authorize_open [of "sr_handler q" "auth_cache w" "sr_authorization q"]
    by (cases "open_handler (sr_handler q)"; cases "\<exists>u. bears_token (auth_cache w) (sr_authorization q) u")
      (auto simp: serve_def)
qed

text \<open>
  C11. A request acts for its user. Whatever the request and whatever fails: only friendships of
  the caller change, every new post is the caller's, every message published is the announcement
  of a post under the caller's identifier, users and tokens are only added and a new token belongs
  to a registered user; a request without a caller changes neither friendships, posts, feeds,
  messages nor the dialogs.
\<close>

theorem requests_act_for_their_user:
  assumes "server E" and "w' = snd (serve E c q w)"
  shows "filter (\<lambda>f. Some (fr_user f) \<noteq> caller w q) (friendships (master w'))
      = filter (\<lambda>f. Some (fr_user f) \<noteq> caller w q) (friendships (master w))
    \<and> (\<forall>p \<in> set (posts (master w')). Some (po_author p) = caller w q \<or>
        (\<exists>p0 \<in> set (posts (master w)). po_id p0 = po_id p \<and> po_author p0 = po_author p))
    \<and> (\<exists>ms. published w' = published w @ ms \<and> (\<forall>m \<in> set ms. \<exists>u i x. caller w q = Some u \<and>
        m = Publication feed_exchange (''post.created.'' @ to_str (env_lib E) u) (post_event (env_lib E) u i x)))
    \<and> (\<exists>us. users (master w') = users (master w) @ us)
    \<and> (\<exists>ts. tokens (master w') = tokens (master w) @ ts \<and> (\<forall>t \<in> set ts. tk_user t \<in> user_ids (master w')))
    \<and> (caller w q = None \<longrightarrow> friendships (master w') = friendships (master w) \<and> posts (master w') = posts (master w)
        \<and> feed_redis w' = feed_redis w \<and> published w' = published w \<and> app.more w' = app.more w)"
proof -
  have "acts_for (env_lib E) (caller w q) w w'"
    unfolding assms(2) using assms(1) by (intro rpc_clients.serve_acts_for) (simp add: server_def)
  from this [unfolded acts_for_def] show ?thesis by (elim conjE exE) (intro conjI; blast)
qed

theorem requests_act_for_their_user_witness:
  "filter (\<lambda>f. fr_user f \<noteq> Uuid 1) (friendships (master (snd (serve sample_environment sample_chance
       (sample_request Handler_Friend_Delete (to_str ref_lib (Uuid 2)) []) logged_in_social)))) = []"
  using requests_act_for_their_user [OF ref_social_axioms refl, where w = logged_in_social
      and q = "sample_request Handler_Friend_Delete (to_str ref_lib (Uuid 2)) []", THEN conjunct1, of sample_chance]
  by (simp add: sample_caller open_handler_def) (simp add: logged_in_social_def sample_db_def)

text \<open>
  C15. The server stays well-formed. In every state that requests, replication, updates of the token
  cache and consumed events can reach, whatever fails: both databases satisfy their keys, every
  bearer that the cache accepts is a registered user, every cached feed decodes, and every
  published message is a post event, so that the consumer never meets one it cannot parse.
\<close>

theorem server_stays_well_formed:
  assumes "server E" and "server_reach E w"
  shows "db_ok (master w) \<and> db_ok (slave w)
    \<and> (\<forall>header u. bears_token (auth_cache w) header u \<longrightarrow> u \<in> user_ids (master w))
    \<and> cache_decodable (env_lib E) (env_redis E) (feed_redis w)
    \<and> (\<forall>m \<in> set (published w). \<exists>a i x. pub_body m = post_event (env_lib E) a i x)"
proof -
  have inv: "server_inv E w" using assms by (rule server.reach_inv)
  from server.bearer_is_user [OF assms(1) inv] server_invD [OF inv] show ?thesis
    by (simp add: events_ok_def)
qed

theorem server_stays_well_formed_witness:
  "db_ok (master (update_auth_cache kFull (snd (serve sample_environment sample_chance
      (sample_request Handler_User_Register [] (sample_registration ''pw'')) sample_social))))"
  using server_stays_well_formed [OF ref_social_axioms reach_update_cache [OF reach_request
      [OF server_reach.start [OF sample_social_start]]], of kFull sample_chance
      "sample_request Handler_User_Register [] (sample_registration ''pw'')"] by blast

text \<open>
  C16. A login is for ever. Once the cache accepts a header as a user's, it does so in every later
  state, whatever is requested, replicated, updated or consumed and whatever fails: nothing removes
  a token or lets it expire, so that every later request with the header is handled as that user's.
\<close>

theorem accepted_bearer_stays_accepted:
  assumes "server E" and "server_reach E w" and "bears_token (auth_cache w) header u"
    and "(server_step E)\<^sup>*\<^sup>* w w'"
  shows "bears_token (auth_cache w') header u \<and> u \<in> user_ids (master w')
    \<and> (\<not> open_handler (sr_handler q) \<and> sr_authorization q = header \<longrightarrow>
        serve E c q w' = call E c (Some u) q (sr_handler q) w')"
proof -
  from server.bearer_stays [OF assms(1,4) server.reach_inv [OF assms(1,2)] assms(3)]
  have inv: "server_inv E w'" and bears: "bears_token (auth_cache w') header u" by auto
  from server.bearer_is_user [OF assms(1) inv bears] bears serve_bearer [of q w' u E c] show ?thesis by auto
qed

theorem accepted_bearer_stays_accepted_witness:
  "bears_token (auth_cache (update_auth_cache kFull (snd (serve sample_environment sample_chance
     (sample_request Handler_Post_Delete (to_str ref_lib (Uuid 10)) []) session_social)))) (''Bearer '' @ session_token) (Uuid 20)"
proof -
  let ?q = "sample_request Handler_Post_Delete (to_str ref_lib (Uuid 10)) []"
  have "(server_step sample_environment)\<^sup>*\<^sup>* session_social
      (update_auth_cache kFull (snd (serve sample_environment sample_chance ?q session_social)))"
    using server_step.request [of sample_environment session_social sample_chance ?q] server_step.update_cache
    by (meson converse_rtranclp_into_rtranclp r_into_rtranclp)
  from accepted_bearer_stays_accepted [OF ref_social_axioms session_reach session_bears this] show ?thesis by blast
qed

text \<open>
  C32. Malformed requests. A request that its handler's authorization lets through, but that lacks a
  member of its body, carries an identifier that is no UUID, a page argument that is no number, a
  member that is no string or a date of birth that is no date, changes nothing, whatever the services
  do. It is answered 400 when a member is missing, when the identifier in the path or the page cannot
  be read, and when the identifier of a changed post is a string but no UUID; any other value that
  cannot be read, the identifier of a login among them, ends the handler with an exception, which the
  framework answers 500.
\<close>

theorem malformed_requests_refused:
  assumes "malformed (env_lib E) (env_dates E) q (sr_handler q)"
    and "open_handler (sr_handler q) \<or> (\<exists>u. bears_token (auth_cache w) (sr_authorization q) u)"
  shows "if caught_by_handler (env_lib E) q (sr_handler q)
    then \<exists>body. serve E c q w = (Inr (Answer kBadRequest body), w)
    else \<exists>e. serve E c q w = (Inl e, w)"
proof -
  obtain user where served: "serve E c q w = call E c user q (sr_handler q) w" "user = None \<longleftrightarrow> open_handler (sr_handler q)"
    using assms(2) serve_open [of q E c w] serve_bearer [of q w _ E c] by (cases "open_handler (sr_handler q)") auto
  show ?thesis
    using caught_call [OF _ served(2), where E = E and c = c and w = w and q = q]
      uncaught_call [OF _ _ served(2), where E = E and c = c and w = w and q = q] assms(1)
    by (auto simp: malformed_def served(1))
qed

theorem malformed_requests_refused_witness:
  "(\<exists>body. serve sample_environment sample_chance (sample_request Handler_Friend_Add ''nobody'' []) logged_in_social
     = (Inr (Answer kBadRequest body), logged_in_social))
   \<and> (\<exists>e. serve sample_environment sample_chance
         (sample_request Handler_Login [] [(''id'', JString ''nobody''), (''password'', JString ''pw'')]) logged_in_social
     = (Inl e, logged_in_social))"
proof
  have bad: "gen ref_lib ''nobody'' = None" by code_simp
  let ?f = "sample_request Handler_Friend_Add ''nobody'' []"
  have f: "caught_by_handler (env_lib sample_environment) ?f (sr_handler ?f)"
    by (simp add: caught_by_handler_def path_handlers_def sample_environment_def sample_request_def bad_uuid_def bad)
  have "open_handler (sr_handler ?f) \<or> (\<exists>u. bears_token (auth_cache logged_in_social) (sr_authorization ?f) u)"
    using logged_in_bears by (auto simp: sample_request_def)
  from malformed_requests_refused [OF _ this, of sample_environment sample_chance] f
  show "\<exists>body. serve sample_environment sample_chance ?f logged_in_social = (Inr (Answer kBadRequest body), logged_in_social)"
    by (simp add: malformed_def)
  let ?l = "sample_request Handler_Login [] [(''id'', JString ''nobody''), (''password'', JString ''pw'')]"
  have l: "\<not> caught_by_handler (env_lib sample_environment) ?l (sr_handler ?l)"
    "bad_value (env_lib sample_environment) (env_dates sample_environment) (sr_body ?l) (sr_handler ?l)"
    by (simp_all add: caught_by_handler_def path_handlers_def sample_environment_def sample_request_def bad_uuid_def bad
        has_member_def is_uuid_def field_string_def)
  have "open_handler (sr_handler ?l) \<or> (\<exists>u. bears_token (auth_cache logged_in_social) (sr_authorization ?l) u)"
    by (simp add: sample_request_def open_handler_def)
  from malformed_requests_refused [OF _ this, of sample_environment sample_chance] l
  show "\<exists>e. serve sample_environment sample_chance ?l logged_in_social = (Inl e, logged_in_social)"
    by (simp add: malformed_def)
qed

text \<open>
  C31. Authorized writes succeed. In every reachable state, while no call fails, a bearer's post
  with a fresh identifier and a bearer's friendship with a registered user are accepted: the
  foreign keys never refuse them, since every bearer is a registered user.
\<close>

theorem authorized_writes_succeed:
  assumes "server E" and "server_reach E w" and "faults w = []"
    and "bears_token (auth_cache w) (sr_authorization q) u"
  shows "(sr_handler q = Handler_Post_Create \<and> field_string (JObject (sr_body q)) ''text'' = Inr x
        \<and> ch_id c \<notin> set (map po_id (posts (master w)))
      \<longrightarrow> fst (serve E c q w) = Inr (Answer kOk (json_dump (env_lib E)
            (JObject [(''id'', JString (to_str (env_lib E) (ch_id c)))])))
        \<and> posts (master (snd (serve E c q w))) = posts (master w) @
            [\<lparr>po_id = ch_id c, po_author = u, po_text = x, po_created = ch_now c\<rparr>])
    \<and> (sr_handler q = Handler_Friend_Add \<and> gen (env_lib E) (path_arg (sr_http q)) = Some f \<and> f \<in> user_ids (master w)
      \<longrightarrow> fst (serve E c q w) = Inr (Answer kOk []) \<and> follows (master (snd (serve E c q w))) u f)"
proof -
  have u: "u \<in> user_ids (master w)"
    using server.bearer_is_user [OF assms(1) server.reach_inv [OF assms(1,2)] assms(4)] .
  have "serve E c q w = call E c (Some u) q (sr_handler q) w" if "\<not> open_handler (sr_handler q)"
    using serve_bearer [OF that assms(4)] .
  with u assms(3) show ?thesis
    by (auto simp: open_handler_def with_user_def json_answer_def text_answer_def bind_def field_has_member
        PostCreateHandler_def Publish_def Let_def sql_insert_post_def
        FriendAddHandler_def string_generator_def InvalidateFeed_def sql_insert_friendship_def follows_def)
qed

theorem authorized_writes_succeed_witness:
  "posts (master (snd (serve sample_environment sample_chance
     \<lparr>sr_handler = Handler_Post_Create, sr_authorization = ''Bearer '' @ session_token,
      sr_http = \<lparr>path_arg = [], args = []\<rparr>, sr_body = [(''text'', JString ''hi'')]\<rparr> session_social)))
   = posts sample_db @ [\<lparr>po_id = Uuid 20, po_author = Uuid 20, po_text = ''hi'', po_created = 5\<rparr>]"
  using authorized_writes_succeed [OF ref_social_axioms session_reach session_faults,
      of "\<lparr>sr_handler = Handler_Post_Create, sr_authorization = ''Bearer '' @ session_token,
      sr_http = \<lparr>path_arg = [], args = []\<rparr>, sr_body = [(''text'', JString ''hi'')]\<rparr>" "Uuid 20" "''hi''" sample_chance] session_bears
  by (simp add: field_string_def sample_chance_def)
    (simp add: session_run update_auth_cache_def replicate_now_def registered_social_run, simp add: sample_db_def)

end
