(* ===== verification/Notifications.thy ===== *)
theory Notifications
  imports Consumers Server
begin

text \<open>
  A new post from the request to the clients: the monolith stores and announces it, the broker puts
  the announcement into the queue of the post events, the consumer of these passes it on to the
  fan-out exchange, the broker puts it into the queue of every instance, and each instance pushes
  it to the open sessions of the author's followers. Deliveries may fail and be repeated at both
  queues; the request, the consumer and the instance are processes with states of their own. And
  what becomes of an instance whose own queue the broker has deleted.
\<close>

section \<open>The steps on the way\<close>

lemma serve_create_run:
  fixes w :: "('r, 'z) app_scheme"
  assumes "server E" and "server_reach E w" and "faults w = []"
    and "bears_token (auth_cache w) (sr_authorization q) u" and "sr_handler q = Handler_Post_Create"
    and "field_string (JObject (sr_body q)) ''text'' = Inr x" and "ch_id c \<notin> set (map po_id (posts (master w)))"
  shows "fst (serve E c q w) = Inr (Answer kOk (json_dump (env_lib E) (JObject [(''id'', JString (to_str (env_lib E) (ch_id c)))])))"
    and "published (snd (serve E c q w)) = published w @
      [Publication feed_exchange (''post.created.'' @ to_str (env_lib E) u) (post_event (env_lib E) u (ch_id c) x)]"
    and "posts (master (snd (serve E c q w))) = posts (master w) @
      [\<lparr>po_id = ch_id c, po_author = u, po_text = x, po_created = ch_now c\<rparr>]"
proof -
  have "u \<in> user_ids (master w)"
    using server.bearer_is_user [OF assms(1) server.reach_inv [OF assms(1,2)] assms(4)] .
  note run = create_run [OF assms(3,6) this assms(7), of "env_lib E" feed_exchange "ch_now c"]
  have "serve E c q w = call E c (Some u) q Handler_Post_Create w"
    using serve_bearer [OF _ assms(4)] assms(5) by (simp add: open_handler_def)
  with run show "fst (serve E c q w) = Inr (Answer kOk (json_dump (env_lib E) (JObject [(''id'', JString (to_str (env_lib E) (ch_id c)))])))"
    and "published (snd (serve E c q w)) = published w @
      [Publication feed_exchange (''post.created.'' @ to_str (env_lib E) u) (post_event (env_lib E) u (ch_id c) x)]"
    and "posts (master (snd (serve E c q w))) = posts (master w) @
      [\<lparr>po_id = ch_id c, po_author = u, po_text = x, po_created = ch_now c\<rparr>]"
    by (simp_all add: with_user_def json_answer_def bind_def)
qed

lemma copies_of_one:
  assumes "set_mset q \<subseteq> {m}"
  shows "q = replicate_mset (size q) m"
  using assms by (induction q) auto

lemma list_of_one: "mset l = replicate_mset k m \<Longrightarrow> l = replicate k m"
  by (metis mset_replicate size_mset size_replicate_mset replicate_eqI set_mset_mset set_mset_replicate_mset_subset singletonD empty_iff)

lemma server_feeds:
  assumes "server E" and "server_reach E v"
  shows "feed_env (env_lib E) (env_redis E) (env_planner E)" and "db_ok (slave v)"
    and "\<exists>ps. feed_holds (env_lib E) (env_redis E) (feed_redis v) u ps"
  using server_invD [OF server.reach_inv [OF assms]] assms(1)
  by (auto simp: server_def cache_decodable_def)

text \<open>One event through the queue of post events: as many copies as deliveries at most, at least one.\<close>

lemma event_passed_on:
  fixes v :: "('r, 'z) app_scheme"
  assumes "server E" and "server_reach E v"
    and "delivers (PostFeedConsumer_Process (env_lib E) (env_redis E) (env_planner E))
      {#post_event (env_lib E) u i x#} v log {#} v'"
  shows "\<exists>k. 1 \<le> k \<and> k \<le> 1 + failures v + losses log \<and> published v' = published v @
    replicate k (Publication ''ws-fanout'' [] (post_event (env_lib E) u i x))"
proof -
  let ?ev = "post_event (env_lib E) u i x"
  note feeds = server_feeds [OF assms(1,2)]
  obtain ps where ps: "feed_holds (env_lib E) (env_redis E) (feed_redis v) u ps" using feeds(3) by blast
  have wf: "\<forall>m \<in># {#?ev#}. well_formed (env_lib E) m" by (simp add: feed_env.well_formed_post_event [OF feeds(1)])
  note run = feed_queue_run [OF feeds(1,2) wf ps]
  obtain out where out: "published v' = published v @ map (Publication ''ws-fanout'' []) out"
    "{#?ev#} \<subseteq># mset out" "mset out \<subseteq># delivered log" using run(3) [OF assms(3)] by blast
  have "set_mset (mset out) \<subseteq> {?ev}"
    using set_mset_mono [OF out(3)] delivers_members [OF assms(3)] by auto
  then have k: "out = replicate (length out) ?ev" using copies_of_one list_of_one by (metis size_mset)
  have "1 \<le> length out" using size_mset_mono [OF out(2)] by simp
  moreover have "length out \<le> 1 + failures v + losses log" using size_mset_mono [OF out(3)] run(2) [OF assms(3)] by simp
  moreover have "map (Publication ''ws-fanout'' []) out = replicate (length out) (Publication ''ws-fanout'' [] ?ev)"
    using k by (metis map_replicate)
  ultimately show ?thesis using out(1) by auto
qed

text \<open>Copies of one event through the queue of an instance, one more for each lost acknowledgement.\<close>

lemma event_pushed:
  fixes R :: "'r redis" and n :: "'r node"
  assumes "feed_env L R P" and "ws_reach L P n" and "db_ok (slave n)" and "handlers n s = Some h"
    and "delivers (WsFanoutConsumer_Process L P) (replicate_mset k (post_event L u i x)) n log {#} n'"
  shows "push_log n' s = push_log n s @
    replicate (if open_phase (wh_phase h) \<and> follows (slave n) (wh_user h) u then k + losses log else 0) (post_event L u i x)"
proof -
  let ?ev = "post_event L u i x"
  have wf: "\<forall>m \<in># replicate_mset k ?ev. well_formed L m"
    by (simp add: feed_env.well_formed_post_event [OF assms(1)])
  from instance_queue_run(2) [OF assms(1) ws_reach_inv [OF assms(2)] assms(3,4) wf assms(5)]
  have push: "push_log n' s = push_log n s @ map (fanout_text L)
      (filter (notified L (slave n) h) (returned log))"
    and acked: "replicate_mset k ?ev = acknowledged log" by auto
  have "set (returned log) \<subseteq> {?ev}"
    using delivers_members [OF assms(5)] by (fastforce simp: returned_def delivered_def split: if_splits)
  then have "mset (returned log) = replicate_mset (length (returned log)) ?ev"
    using copies_of_one [of "mset (returned log)" ?ev] by simp
  moreover have "length (returned log) = k + losses log"
    using log_sizes(2) [of log] acked [symmetric] by simp
  ultimately have "returned log = replicate (k + losses log) ?ev" by (simp add: list_of_one)
  with push show ?thesis
    by (simp add: notified_def feed_env.concerns_post_event [OF assms(1)] fanout_text_def Let_def
        feed_env.event_post_event [OF assms(1)])
qed

section \<open>A concrete chain\<close>

definition hello_request :: server_request where
  "hello_request = \<lparr>sr_handler = Handler_Post_Create, sr_authorization = ''Bearer '' @ session_token,
     sr_http = \<lparr>path_arg = [], args = []\<rparr>, sr_body = [(''text'', JString ''hi'')]\<rparr>"

definition hello_topology :: topology where
  "hello_topology = fold (start ref_lib feed_exchange) [Start_Publisher, Start_Fanout (Uuid 7)] no_topology"

text \<open>User 1, with an open session, follows the new user 20.\<close>

definition befriended_db :: db where
  "befriended_db = snd (sql_insert_friendship (Uuid 1) (Uuid 20) 4 (master session_social))"

definition follower_node :: "keyspace node" where
  "follower_node = connected_node\<lparr>faults := [], master := befriended_db, slave := befriended_db\<rparr>"

lemma session_users: "{Uuid 1, Uuid 20} \<subseteq> user_ids (master session_social)"
  by (simp add: session_run update_auth_cache_def replicate_now_def registered_social_run sample_db_def sample_user_def sample_row_def)

lemma befriended: "db_ok befriended_db" "follows befriended_db (Uuid 1) (Uuid 20)"
proof -
  have "db_ok (master session_social)"
    using server_invD(1) [OF ref_social.reach_inv [OF session_reach]] .
  then show "db_ok befriended_db"
    unfolding befriended_db_def using sql_insert_friendship_ok by (rule preservesD [rotated])
  show "follows befriended_db (Uuid 1) (Uuid 20)"
    unfolding befriended_db_def using follows_insert session_users by auto
qed

lemma follower_reach: "ws_reach ref_lib ref_planner follower_node"
  unfolding follower_node_def by (rule ws_reach.step [OF connected_reach ws_step.databases])

lemma follower_simps [simp]:
  "slave follower_node = befriended_db" "handlers follower_node 0 = Some (new_handler (Uuid 1))" "push_log follower_node 0 = []"
  by (simp_all add: follower_node_def connected_node_def set_handler_def Subscribe_def Let_def sample_node_def)

section \<open>Properties\<close>

text \<open>
  C7. A new post notifies the open clients of its author's followers. A bearer who creates a post
  through the server is answered with its identifier, and the post is stored; once the deliveries at
  the queue of post events and at the queue of a started instance have ended, each open session of a
  follower on that instance got the event at least once and at most once more for each failing call
  of the first queue and each lost acknowledgement at either, and every other session got nothing.
  Failing calls of the instance repeat nothing.
\<close>

theorem new_post_notifies_open_followers:
  fixes E :: "('r, ('r, 'z) app_scheme) environment" and w v :: "('r, 'z) app_scheme" and n :: "'r node"
  assumes "server E" and "server_reach E w" and "faults w = []"
    and "bears_token (auth_cache w) (sr_authorization q) u" and "sr_handler q = Handler_Post_Create"
    and "field_string (JObject (sr_body q)) ''text'' = Inr x" and "ch_id c \<notin> set (map po_id (posts (master w)))"
    and "serve E c q w = (r, w')"
    and "topic_broker matches" and "T = fold (start (env_lib E) feed_exchange) bs no_topology"
    and "Start_Publisher \<in> set bs" and "Start_Fanout i \<in> set bs"
    and "server_reach E v"
    and "delivers (PostFeedConsumer_Process (env_lib E) (env_redis E) (env_planner E))
      (queued matches T ''feed-materialization'' (drop (length (published w)) (published w'))) v log1 {#} v'"
    and "ws_reach (env_lib E) (env_planner E) n" and "db_ok (slave n)" and "handlers n s = Some h"
    and "delivers (WsFanoutConsumer_Process (env_lib E) (env_planner E))
      (queued matches T (''ws-fanout-'' @ to_str (env_lib E) i) (drop (length (published v)) (published v'))) n log2 {#} n'"
  shows "r = Inr (Answer kOk (json_dump (env_lib E) (JObject [(''id'', JString (to_str (env_lib E) (ch_id c)))])))
    \<and> posts (master w') = posts (master w) @ [\<lparr>po_id = ch_id c, po_author = u, po_text = x, po_created = ch_now c\<rparr>]
    \<and> (\<exists>k. 1 \<le> k \<and> k \<le> 1 + failures v + losses log1 \<and> push_log n' s = push_log n s @
        replicate (if open_phase (wh_phase h) \<and> follows (slave n) (wh_user h) u then k + losses log2 else 0)
          (post_event (env_lib E) u (ch_id c) x))"
proof -
  let ?ev = "post_event (env_lib E) u (ch_id c) x"
  note served = serve_create_run [OF assms(1-7), unfolded assms(8) fst_conv snd_conv]
  have x: "feed_exchange \<noteq> ''ws-fanout''" "feed_exchange \<noteq> ''messages-exchange''" by (simp_all add: feed_exchange_def)
  have "queued matches T ''feed-materialization'' (drop (length (published w)) (published w')) = {#?ev#}"
    using queued_post [OF assms(9) x assms(10,11)] by (simp add: served(2))
  from event_passed_on [OF assms(1,13) assms(14) [unfolded this]] obtain k where
    k: "1 \<le> k" "k \<le> 1 + failures v + losses log1" "published v' = published v @ replicate k (Publication ''ws-fanout'' [] ?ev)" by blast
  have "queued matches T (''ws-fanout-'' @ to_str (env_lib E) i) (drop (length (published v)) (published v'))
      = replicate_mset k ?ev"
    using queued_fanout [OF assms(9) x assms(10,12), of "[]" "replicate k ?ev"] by (simp add: k(3))
  from event_pushed [OF server_feeds(1) [OF assms(1,13)] assms(15-17) assms(18) [unfolded this]] k(1,2) served(1,3)
  show ?thesis by blast
qed

theorem new_post_notifies_open_followers_witness:
  "\<exists>log1 v' log2 n'. delivers (PostFeedConsumer_Process ref_lib ref_redis ref_planner)
      (queued ref_matches hello_topology ''feed-materialization'' (drop (length (published session_social))
        (published (snd (serve sample_environment sample_chance hello_request session_social))))) session_social log1 {#} v'
    \<and> delivers (WsFanoutConsumer_Process ref_lib ref_planner)
      (queued ref_matches hello_topology (''ws-fanout-'' @ to_str ref_lib (Uuid 7))
        (drop (length (published session_social)) (published v'))) follower_node log2 {#} n'
    \<and> push_log n' 0 = [post_event ref_lib (Uuid 20) (Uuid 20) ''hi'']"
proof -
  let ?ev = "post_event ref_lib (Uuid 20) (Uuid 20) ''hi''"
  obtain r w' where run: "serve sample_environment sample_chance hello_request session_social = (r, w')" by fastforce
  have req: "bears_token (auth_cache session_social) (sr_authorization hello_request) (Uuid 20)"
    "sr_handler hello_request = Handler_Post_Create" "field_string (JObject (sr_body hello_request)) ''text'' = Inr ''hi''"
    using session_bears by (simp_all add: hello_request_def field_string_def)
  have fresh: "ch_id sample_chance \<notin> set (map po_id (posts (master session_social)))"
    by (simp add: sample_chance_def session_run update_auth_cache_def replicate_now_def registered_social_run sample_db_def)
  have env: "env_lib sample_environment = ref_lib" "env_redis sample_environment = ref_redis"
    "env_planner sample_environment = ref_planner" "ch_id sample_chance = Uuid 20"
    by (simp_all add: sample_environment_def sample_chance_def)
  have x: "feed_exchange \<noteq> ''ws-fanout''" "feed_exchange \<noteq> ''messages-exchange''" by (simp_all add: feed_exchange_def)
  note served = serve_create_run(2) [OF ref_social_axioms session_reach session_faults req fresh, unfolded run snd_conv env]
  have started: "Start_Publisher \<in> set [Start_Publisher, Start_Fanout (Uuid 7)]" "Start_Fanout (Uuid 7) \<in> set [Start_Publisher, Start_Fanout (Uuid 7)]"
    by simp_all
  let ?ms = "drop (length (published session_social)) (published w')"
  have q1: "queued ref_matches hello_topology ''feed-materialization'' ?ms = {#?ev#}"
    using queued_post [OF ref_broker_axioms x hello_topology_def started(1)] by (simp add: served)
  obtain ps where ps: "feed_holds ref_lib ref_redis (feed_redis session_social) (Uuid 1) ps"
    using server_feeds(3) [OF ref_social_axioms session_reach, unfolded env] by blast
  have ok: "db_ok (slave session_social)" using server_feeds(2) [OF ref_social_axioms session_reach] .
  have wf: "\<forall>m \<in># {#?ev#}. well_formed ref_lib m" by (simp add: ref_feed.well_formed_post_event)
  obtain log1 v' where l1: "losses log1 = 0" and d1: "delivers (PostFeedConsumer_Process ref_lib ref_redis ref_planner) {#?ev#} session_social log1 {#} v'"
    using feed_queue_run(1) [OF ref_feed_axioms ok wf ps] by blast
  let ?q = "queued ref_matches hello_topology (''ws-fanout-'' @ to_str ref_lib (Uuid 7))
        (drop (length (published session_social)) (published v'))"
  obtain k where "published v' = published session_social @ replicate k (Publication ''ws-fanout'' [] ?ev)"
    using event_passed_on [OF ref_social_axioms session_reach, unfolded env, OF d1] by blast
  then have "?q = replicate_mset k ?ev"
    using queued_fanout [OF ref_broker_axioms x hello_topology_def started(2), of "[]" "replicate k ?ev"] by simp
  then have wf2: "\<forall>m \<in># ?q. well_formed ref_lib m" by (simp add: ref_feed.well_formed_post_event)
  obtain log2 n' where l2: "losses log2 = 0" and d2: "delivers (WsFanoutConsumer_Process ref_lib ref_planner) ?q follower_node log2 {#} n'"
    using instance_queue_run(1) [OF ref_feed_axioms ws_reach_inv [OF follower_reach] _ follower_simps(2) wf2] befriended(1)
    by auto
  have "\<exists>k. 1 \<le> k \<and> k \<le> 1 + failures session_social + losses log1 \<and> push_log n' 0 = push_log follower_node 0 @
        replicate (if open_phase (wh_phase (new_handler (Uuid 1))) \<and> follows (slave follower_node) (wh_user (new_handler (Uuid 1))) (Uuid 20)
          then k + losses log2 else 0) ?ev"
    using new_post_notifies_open_followers [OF ref_social_axioms session_reach session_faults req fresh run
        ref_broker_axioms, unfolded env, OF hello_topology_def started session_reach d1 [folded q1] follower_reach _ follower_simps(2) d2]
      befriended(1) by simp
  then have "push_log n' 0 = [?ev]"
    using befriended(2) session_faults by (auto simp: l1 l2 new_handler_def open_phase_def failures_def le_Suc_eq)
  with d1 d2 run q1 show ?thesis by auto
qed

text \<open>
  C22. An instance that loses its queue falls silent. The queue of an instance is auto-delete, so a
  broken connection of its consumer deletes it. Before that, every fan-out message reached it; from
  then on no published message does, whatever other components start again and however often, and
  its open sessions get nothing, while the queues of the other instances and the durable queues
  stay. Only the constructor of that instance's consumer brings the queue back, and it runs only
  when a process starts.
\<close>

theorem lost_queue_silences_instance:
  fixes n :: "'r node"
  assumes "library L" and "topic_broker matches" and "T = fold (start L feed_exchange) bs no_topology"
    and "Start_Fanout i \<in> set bs" and "q = ''ws-fanout-'' @ to_str L i"
    and "T' = fold (start L feed_exchange) bs' (consumers_gone q T)" and "Start_Fanout i \<notin> set bs'"
  shows "queued matches T q (map (Publication ''ws-fanout'' []) out) = mset out
    \<and> queued matches T' q ms = {#}
    \<and> (delivers (WsFanoutConsumer_Process L P) (queued matches T' q ms) n log p n' \<longrightarrow> push_log n' s = push_log n s)
    \<and> (j \<noteq> i \<and> Start_Fanout j \<in> set bs \<longrightarrow>
         queued matches T' (''ws-fanout-'' @ to_str L j) (map (Publication ''ws-fanout'' []) out) = mset out)
    \<and> consumers_gone ''feed-materialization'' T = T \<and> consumers_gone ''message-counters'' T = T
    \<and> queued matches (WsFanoutConsumer_init L i T') q (map (Publication ''ws-fanout'' []) out) = mset out"
proof -
  have x: "feed_exchange \<noteq> ''ws-fanout''" "feed_exchange \<noteq> ''messages-exchange''" by (simp_all add: feed_exchange_def)
  note left = instance_queue_gone [OF assms(1) x(1) assms(3,4) assms(6) [unfolded assms(5)]]
  have before: "queued matches T q (map (Publication ''ws-fanout'' []) out) = mset out"
    unfolding assms(5) by (rule queued_fanout [OF assms(2) x assms(3,4)])
  have "q \<notin> set (route matches T' m)" for m
    unfolding set_route mem_Collect_eq left(1) assms(5)
    using instance_bindings [OF assms(1)] assms(7) by blast
  then have silent: "queued matches T' q ms = {#}" for ms by (simp add: queued_def)
  have unpushed: "push_log n' s = push_log n s" if "delivers (WsFanoutConsumer_Process L P) (queued matches T' q ms) n log p n'"
  proof -
    have "delivers (WsFanoutConsumer_Process L P) {#} n log p n'" using that by (simp only: silent)
    then have "n' = n" by (rule empty_queue_delivers_nothing)
    then show ?thesis by simp
  qed
  have others: "queued matches T' (''ws-fanout-'' @ to_str L j) (map (Publication ''ws-fanout'' []) out) = mset out"
    if "j \<noteq> i" "Start_Fanout j \<in> set bs"
  proof -
    have "''ws-fanout-'' @ to_str L j \<noteq> ''ws-fanout-'' @ to_str L i"
      using that(1) library.to_str_inject [OF assms(1)] by simp
    moreover have "(''ws-fanout'', ''ws-fanout-'' @ to_str L j, []) \<in> boot_bindings L feed_exchange (Start_Fanout j)"
      "(''ws-fanout'', kFanOut) \<in> boot_exchanges feed_exchange (Start_Fanout j)"
      by (simp_all add: boot_bindings_def boot_exchanges_def)
    ultimately have "''ws-fanout-'' @ to_str L j \<in> set (route matches T' (Publication ''ws-fanout'' [] m))" for m
      unfolding set_route mem_Collect_eq left publication.sel using that(2) by blast
    then show ?thesis by (simp add: queued_def filter_map o_def)
  qed
  have "q \<in> set (route matches (WsFanoutConsumer_init L i T') (Publication ''ws-fanout'' [] m))" for m
    by (auto simp: set_route WsFanoutConsumer_init_def assms(5) Let_def)
  then have restored: "queued matches (WsFanoutConsumer_init L i T') q (map (Publication ''ws-fanout'' []) out) = mset out"
    by (simp add: queued_def filter_map o_def)
  have durable: "consumers_gone ''feed-materialization'' T = T" "consumers_gone ''message-counters'' T = T"
    by (rule durable_queues_stay [OF assms(3)]; simp)+
  show ?thesis
  proof (intro conjI impI)
    show "queued matches T q (map (Publication ''ws-fanout'' []) out) = mset out" by (rule before)
    show "queued matches T' q ms = {#}" by (rule silent)
    show "push_log n' s = push_log n s" if "delivers (WsFanoutConsumer_Process L P) (queued matches T' q ms) n log p n'"
      by (rule unpushed [OF that])
    show "queued matches T' (''ws-fanout-'' @ to_str L j) (map (Publication ''ws-fanout'' []) out) = mset out"
      if "j \<noteq> i \<and> Start_Fanout j \<in> set bs" using that others by (elim conjE)
    show "queued matches (WsFanoutConsumer_init L i T') q (map (Publication ''ws-fanout'' []) out) = mset out"
      by (rule restored)
  qed (rule durable)+
qed

theorem lost_queue_silences_instance_witness:
  "queued ref_matches hello_topology (''ws-fanout-'' @ to_str ref_lib (Uuid 7)) [Publication ''ws-fanout'' [] ''m''] = {#''m''#}
   \<and> queued ref_matches (fold (start ref_lib feed_exchange) [Start_Publisher, Start_Fanout (Uuid 8)]
        (consumers_gone (''ws-fanout-'' @ to_str ref_lib (Uuid 7)) hello_topology))
      (''ws-fanout-'' @ to_str ref_lib (Uuid 7)) [Publication ''ws-fanout'' [] ''m''] = {#}"
proof -
  have "Start_Fanout (Uuid 7) \<in> set [Start_Publisher, Start_Fanout (Uuid 7)]"
    "Start_Fanout (Uuid 7) \<notin> set [Start_Publisher, Start_Fanout (Uuid 8)]" by simp_all
  note lost = lost_queue_silences_instance [OF ref_library_axioms ref_broker_axioms hello_topology_def this(1) refl refl this(2)]
  show ?thesis
    using conjunct1 [OF lost [of "[''m'']" "[Publication ''ws-fanout'' [] ''m'']"], unfolded list.map mset.simps]
      conjunct1 [OF conjunct2 [OF lost [of "[''m'']" "[Publication ''ws-fanout'' [] ''m'']"]]]
    by (rule conjI)
qed

end
