(* ===== verification/Message_Counting.thy ===== *)
theory Message_Counting
  imports Consumers Server
begin

text \<open>
  Sent messages from the chat service to the unread count: the chat service stores a message and
  publishes its event, the broker puts the event into the queue of the counter service, whose
  consumer counts it, with failures and redeliveries, and the count is read. The two services are
  processes with states of their own.
\<close>

section \<open>The steps on the way\<close>

lemma queued_sent:
  assumes "topic_broker matches" and "exchange \<noteq> ''ws-fanout''" and "exchange \<noteq> ''messages-exchange''"
    and "T = fold (start L exchange) bs no_topology"
  shows "queued matches T ''message-counters'' (map (sent_event L) qs)
    = (if Start_Counter \<in> set bs then mset (map (\<lambda>q. message_sent_event L (sr_from q) (sr_to q)) qs) else {#})"
proof -
  have routed: "''message-counters'' \<in> set (route matches T (sent_event L q)) \<longleftrightarrow> Start_Counter \<in> set bs" for q
    using events_reach_their_consumers [OF assms, of "sr_to q" "message_sent_event L (sr_from q) (sr_to q)"]
    by (simp add: sent_event_def)
  show ?thesis by (simp add: queued_def filter_map o_def routed) (simp add: sent_event_def)
qed

text \<open>The messages to \<open>u\<close>.\<close>

definition sent_to :: "string \<Rightarrow> send_request list \<Rightarrow> nat" where
  "sent_to u qs = length (filter (\<lambda>q. sr_to q = u) qs)"

lemma sent_to_mono: "subseq xs ys \<Longrightarrow> sent_to u xs \<le> sent_to u ys"
  unfolding sent_to_def by (rule list_emb_length [OF subseq_filter])

lemma received_events:
  assumes "chat_env L R U"
  shows "received L u (mset (map (\<lambda>q. message_sent_event L (sr_from q) (sr_to q)) qs)) = sent_to u qs"
    and "\<forall>m \<in># mset (map (\<lambda>q. message_sent_event L (sr_from q) (sr_to q)) qs). \<exists>x. read_sent L m = Inr x"
proof -
  note round = chat_env.read_sent_event [OF assms]
  show "received L u (mset (map (\<lambda>q. message_sent_event L (sr_from q) (sr_to q)) qs)) = sent_to u qs"
    by (induction qs) (simp_all add: received_def sent_to_def round)
  show "\<forall>m \<in># mset (map (\<lambda>q. message_sent_event L (sr_from q) (sr_to q)) qs). \<exists>x. read_sent L m = Inr x"
    by (simp add: round)
qed

section \<open>Properties\<close>

text \<open>
  C9. Every sent message is counted as unread. After any sequence of requests to the chat service,
  whatever calls fail there, the queue of a counter service that has ever started holds an event
  for each message but at most one less per failing call; its deliveries come to an end whatever
  calls fail there, and every user then reads an unread count that has grown at least by the
  messages to that user whose senders got no error, and at most by the messages sent to that user
  and one more for each call of the consumer that failed and each acknowledgement that was lost. The
  bound on the counters leaves room for \<open>k\<close> lost acknowledgements, for any \<open>k\<close>.
\<close>

theorem sent_messages_are_counted:
  fixes w :: "('r, 'y) dialog_world_scheme" and v :: "('r, 'z) dialog_world_scheme"
  assumes "chat_env L R U" and "w' = fold (serve_send L R U) qs w"
    and "topic_broker matches" and "T = fold (start L feed_exchange) bs no_topology" and "Start_Counter \<in> set bs"
    and "counters_refine R (counter_redis v) c" and "\<forall>u. unread (c u) + length qs + failures v + k < 2 ^ 53"
    and "q = queued matches T ''message-counters'' (drop (length (broker w)) (broker w'))"
  shows "size q \<le> length qs \<and> length qs \<le> size q + failures w
    \<and> (\<exists>log v'. losses log = 0 \<and> delivers (CounterConsumer_Process L R) q v log {#} v')
    \<and> (\<forall>log v'. delivers (CounterConsumer_Process L R) q v log {#} v' \<longrightarrow> losses log \<le> k \<longrightarrow>
         (\<exists>n. fst (GetUnreadCount R [(''x-user-id'', u)] (v'\<lparr>faults := []\<rparr>)) = Inr (int n)
            \<and> unread (c u) + sent_to u (accepted_sends L R U qs w) \<le> n \<and> n \<le> unread (c u) + sent_to u qs + failures v + losses log))"
proof -
  have x: "feed_exchange \<noteq> ''ws-fanout''" "feed_exchange \<noteq> ''messages-exchange''" by (simp_all add: feed_exchange_def)
  let ?acc = "accepted_sends L R U qs w"
  obtain announced where a: "subseq ?acc announced" "subseq announced qs"
    "broker w' = broker w @ map (sent_event L) announced" "length qs \<le> length ?acc + failures w"
    using chat_env.sends_publish [OF assms(1), of qs w] assms(2) by auto
  have q: "q = mset (map (\<lambda>q. message_sent_event L (sr_from q) (sr_to q)) announced)"
    using queued_sent [OF assms(3) x assms(4), of announced] a(3) assms(5,8) by simp
  then have size: "size q \<le> length qs" "length qs \<le> size q + failures w"
    using list_emb_length [OF a(1)] list_emb_length [OF a(2)] a(4) by simp_all
  have bound: "\<forall>u. unread (c u) + size q + failures v + k < 2 ^ 53"
    using assms(7) size(1) by (meson add_le_mono1 add_left_mono le_less_trans)
  note received = received_events(1) [OF assms(1), of u announced, folded q] received_events(2) [OF assms(1), of announced, folded q]
  note run = counter_queue_run [OF assms(1,6) received(2) bound]
  have "\<exists>n. fst (GetUnreadCount R [(''x-user-id'', u)] (v'\<lparr>faults := []\<rparr>)) = Inr (int n)
      \<and> unread (c u) + sent_to u ?acc \<le> n \<and> n \<le> unread (c u) + sent_to u qs + failures v + losses log"
    if del: "delivers (CounterConsumer_Process L R) q v log {#} v'" "losses log \<le> k" for log v'
  proof -
    from run(2) [OF del, of u] received(1) obtain m t where t: "counter_holds R (counter_redis v') u m t" "total_of t < 2 ^ 53"
      "int (unread (c u) + sent_to u announced) \<le> total_of t"
      "total_of t \<le> int (unread (c u) + sent_to u announced + failures v + losses log)" by auto
    then have "in_int64 (total_of t)" by (auto simp: in_int64_def)
    with chat_env.unread_run [OF assms(1), of "v'\<lparr>faults := []\<rparr>" u m t] t sent_to_mono [OF a(1), of u] sent_to_mono [OF a(2), of u]
    show ?thesis by (intro exI [of _ "nat (total_of t)"]) auto
  qed
  with size run(1) show ?thesis by blast
qed

theorem sent_messages_are_counted_witness:
  "\<exists>q log v' n. delivers (CounterConsumer_Process ref_lib ref_redis) q
      (sample_dialogs\<lparr>faults := [No_Fault, Fail_After]\<rparr>) log {#} v' \<and> size q \<in> {1, 2}
    \<and> fst (GetUnreadCount ref_redis [(''x-user-id'', ''bob'')] (v'\<lparr>faults := []\<rparr>)) = Inr (int n) \<and> n \<in> {1, 2, 3}"
proof -
  let ?qs = "[Send (Uuid 1) ''eve'' ''bob'' ''hi'', Send (Uuid 2) ''ann'' ''bob'' ''yo'']"
  let ?v = "sample_dialogs\<lparr>faults := [No_Fault, Fail_After]\<rparr>" and ?c = "\<lambda>_ :: string. Map.empty :: counts"
  let ?w = "sample_dialogs\<lparr>faults := [No_Fault, Fail_Before]\<rparr>"
  let ?T = "fold (start ref_lib feed_exchange) [Start_Chat, Start_Counter] no_topology"
  let ?q = "queued ref_matches ?T ''message-counters'' (drop (length (broker ?w))
    (broker (fold (serve_send ref_lib ref_redis ref_lua) ?qs ?w)))"
  have acc: "accepted_sends ref_lib ref_redis ref_lua ?qs ?w = [last ?qs]"
    by (simp add: serve_send_def SendMessage_def ExtractUserId_def Let_def bind_def dialog_fcall_def broker_publish_def
        ext_def ref_chat.send_state)
  have one: "failures ?v = 1" "failures ?w = 1" by (simp_all add: failures_def)
  have c: "counters_refine ref_redis (counter_redis ?v) ?c" by (simp add: empty_counters)
  have bound: "\<forall>u. unread (?c u) + length ?qs + failures ?v + 0 < 2 ^ 53" by (simp add: one unread_def)
  have counter: "Start_Counter \<in> set [Start_Chat, Start_Counter]" by simp
  note counted = sent_messages_are_counted [OF ref_chat_axioms refl ref_broker_axioms refl counter c bound refl,
      of ?w "''bob''", unfolded acc]
  from counted have size: "size ?q \<le> length ?qs \<and> length ?qs \<le> size ?q + failures ?w" by blast
  obtain log v' where lost: "losses log = 0" and del: "delivers (CounterConsumer_Process ref_lib ref_redis) ?q ?v log {#} v'"
    using counted by blast
  from counted del lost obtain n where n: "fst (GetUnreadCount ref_redis [(''x-user-id'', ''bob'')] (v'\<lparr>faults := []\<rparr>)) = Inr (int n)"
    "unread (?c ''bob'') + sent_to ''bob'' [last ?qs] \<le> n" "n \<le> unread (?c ''bob'') + sent_to ''bob'' ?qs + failures ?v + losses log" by (metis le_refl)
  then have "n \<in> {1, 2, 3}" by (auto simp: one lost sent_to_def unread_def)
  moreover from size one have "size ?q \<in> {1, 2}" by (simp del: fold_simps) linarith
  ultimately show ?thesis using del n(1) by blast
qed

end
