(* ===== verification/Counter_Recovery.thy ===== *)
theory Counter_Recovery
  imports Consumers
begin

text \<open>
  The counter service when calls to Redis fail anywhere in a history of consumed messages, dialogs
  read and reconciliations. A failing call loses at most the operation that makes it, never a
  part of a dialog's count; what it can leave wrong is a total, which the next undisturbed run of
  the reconciler (\<open>counter_reconciler.cpp\<close>) makes the sum of the dialogs.
\<close>

section \<open>The dialogs, whatever the totals are\<close>

text \<open>The hashes hold the dialog counts \<open>c\<close> and some totals, with room for \<open>n\<close> messages.\<close>

definition counts_rep :: "'r redis \<Rightarrow> nat \<Rightarrow> (string \<Rightarrow> counts) \<Rightarrow> ('r, 'z) dialog_world_scheme \<Rightarrow> bool" where
  "counts_rep R n c w \<longleftrightarrow> (\<exists>t. tally_rep R n n w (\<lambda>u. (c u, t u)))"

lemma counts_repI: "tally_rep R n n w a \<Longrightarrow> (\<And>u. fst (a u) = c u) \<Longrightarrow> counts_rep R n c w"
  unfolding counts_rep_def by (rule exI [of _ "\<lambda>u. snd (a u)"]) (simp add: tally_rep_def)

lemma counts_rep_faults: "counts_rep R n c w \<Longrightarrow> counts_rep R n c (w\<lparr>faults := fs\<rparr>)"
  unfolding counts_rep_def using tally_rep_faults by blast

lemma counts_rep_less: "counts_rep R n c w \<Longrightarrow> k \<le> n \<Longrightarrow> counts_rep R k c w"
  unfolding counts_rep_def using tally_rep_less by blast

lemma counts_rep_holds:
  assumes "counts_rep R n c w"
  obtains t where "counter_holds R (counter_redis w) u (c u) t" and "exact_number (int (unread (c u)))"
proof -
  from assms obtain t where "tally_rep R n n w (\<lambda>u. (c u, t u))" unfolding counts_rep_def by blast
  from tally_repD(1,4) [OF this, of u] show thesis by (intro that [of "t u"]) (auto simp: exact_number_def)
qed

lemma refines_counts_rep:
  assumes "counters_refine R (counter_redis w) c" and "\<forall>u. unread (c u) + n < 2 ^ 53"
  shows "counts_rep R n c w"
proof -
  obtain t where t: "counter_holds R (counter_redis w) u (c u) (t u)" "total_of (t u) = int (unread (c u))" for u
    using assms(1) unfolding counters_refine_def by metis
  have "int (unread (c u)) + int n < 2 ^ 53" for u
    using assms(2) by (metis of_nat_add of_nat_less_iff of_nat_numeral of_nat_power)
  with t have "tally_rep R n n w (\<lambda>u. (c u, t u))" by (simp add: tally_rep_def)
  then show ?thesis unfolding counts_rep_def by blast
qed

lemma spec_sent_add: "fst (add_dialog u p (add_total u a) v) = spec_counter (Message_Sent p u) (\<lambda>u. fst (a u)) v"
  by (simp add: add_dialog_def add_total_def)

context chat_env
begin

lemma consume_robust:
  fixes w :: "('r, 'z) dialog_world_scheme"
  shows "robust (counts_rep R (Suc n) c :: ('r, 'z) dialog_world_scheme \<Rightarrow> bool)
    (CounterConsumer_Process L R (message_sent_event L p u)) (\<lambda>_. counts_rep R n (spec_counter (Message_Sent p u) c))
    (\<lambda>w. counts_rep R n c w \<or> counts_rep R n (spec_counter (Message_Sent p u) c) w)"
proof -
  have "robust (\<lambda>w :: ('r, 'z) dialog_world_scheme. tally_rep R (Suc n) (Suc n) w (\<lambda>u. (c u, t u)))
      (CounterConsumer_Process L R (message_sent_event L p u)) (\<lambda>_. counts_rep R n (spec_counter (Message_Sent p u) c))
      (\<lambda>w. counts_rep R n c w \<or> counts_rep R n (spec_counter (Message_Sent p u) c) w)" for t
    by (rule robust_conseq [OF counter_simulates [OF read_sent_event, of n "\<lambda>u. (c u, t u)"]])
      (auto simp del: spec_counter.simps simp: spec_sent_add add_both_counts intro: counts_repI)
  then show ?thesis unfolding robust_def counts_rep_def [of R "Suc n"] by blast
qed

lemma reset_robust:
  "robust (counts_rep R n c :: ('r, 'z) dialog_world_scheme \<Rightarrow> bool)
    (ResetDialogCounter R U [(''x-user-id'', u)] p) (\<lambda>_. counts_rep R n (spec_counter (Dialog_Read u p) c))
    (\<lambda>w. counts_rep R n c w \<or> counts_rep R n (spec_counter (Dialog_Read u p) c) w)"
proof -
  have "\<exists>v r. counter_reset_dialog R U u p (counter_redis w) = (Inr v, r)
      \<and> counts_rep R n (spec_counter (Dialog_Read u p) c) (w\<lparr>counter_redis := r\<rparr>)"
    if rep: "counts_rep R n c w" for w :: "('r, 'z) dialog_world_scheme"
  proof -
    let ?r = "snd (counter_reset_dialog R U u p (counter_redis w))"
    obtain t where t: "tally_rep R n n w (\<lambda>u. (c u, t u))" using rep unfolding counts_rep_def by blast
    note d = tally_repD [OF t, of u, simplified]
    have fin: "finite (dom (c u))" using d(1) by (simp add: counter_holds_def)
    have cnt: "int (count_of (c u) p) \<le> int (unread (c u))" using count_le_unread [OF fin] by simp
    have "exact_number (int (count_of (c u) p))" "exact_number (total_of (t u))"
      using d(2-4) cnt by (auto simp: exact_number_def)
    note run = reset_run [OF d(1) this(1) d(2) this(2)]
    have b: "0 \<le> total_of (reset_total (c u) (t u) p)" "total_of (reset_total (c u) (t u) p) + int n < 2 ^ 53"
      "int (unread (reset_counts (c u) p)) + int n < 2 ^ 53"
      using d(2-4) unread_reset [OF fin, of p] by (auto simp: reset_total_def total_of_def max_def split: option.splits)
    have "tally_rep R n n (w\<lparr>counter_redis := ?r\<rparr>)
        ((\<lambda>u. (c u, t u))(u := (reset_counts (c u) p, reset_total (c u) (t u) p)))"
      by (rule tally_step [OF t, where u = u]) (use run b reset_other in auto)
    then have "counts_rep R n (spec_counter (Dialog_Read u p) c) (w\<lparr>counter_redis := ?r\<rparr>)"
      by (rule counts_repI) simp
    with run show ?thesis by (cases "counter_reset_dialog R U u p (counter_redis w)") auto
  qed
  moreover have "(ResetDialogCounter R U [(''x-user-id'', u)] p :: (('r, 'z) dialog_world_scheme, int) eff)
      = counter_call (counter_reset_dialog R U u p)"
    by (simp add: ResetDialogCounter_def ExtractUserId_def bind_def fun_eq_iff)
  ultimately show ?thesis
    by (simp del: spec_counter.simps) (rule robust_counter_call; simp add: counts_rep_faults del: spec_counter.simps)
qed

text \<open>No call that fails in a run of the reconciler changes a dialog.\<close>

lemma reconcile_entry_robust:
  "robust (counts_rep R n c :: ('r, 'z) dialog_world_scheme \<Rightarrow> bool) (reconcile_entry R U (counter_key u))
    (\<lambda>_. counts_rep R n c) (counts_rep R n c)"
proof -
  have "\<exists>v r. counter_reconcile_user R U u (counter_redis w) = (Inr v, r) \<and> counts_rep R n c (w\<lparr>counter_redis := r\<rparr>)"
    if rep: "counts_rep R n c w" for w :: "('r, 'z) dialog_world_scheme"
  proof -
    let ?r = "snd (counter_reconcile_user R U u (counter_redis w))"
    obtain t where t: "tally_rep R n n w (\<lambda>u. (c u, t u))" using rep unfolding counts_rep_def by blast
    note d = tally_repD [OF t, of u, simplified]
    have "exact_number (int (unread (c u)))" using d(4) by (simp add: exact_number_def)
    note run = reconcile_run [OF d(1) this]
    have "tally_rep R n n (w\<lparr>counter_redis := ?r\<rparr>) ((\<lambda>u. (c u, t u))(u := (c u, Some (int (unread (c u))))))"
      by (rule tally_step [OF t, where u = u]) (use run d(4) reconcile_other in \<open>auto simp: total_of_def\<close>)
    then have "counts_rep R n c (w\<lparr>counter_redis := ?r\<rparr>)" by (rule counts_repI) simp
    with run show ?thesis by (cases "counter_reconcile_user R U u (counter_redis w)") auto
  qed
  then have "robust (counts_rep R n c :: ('r, 'z) dialog_world_scheme \<Rightarrow> bool) (counter_call (counter_reconcile_user R U u))
      (\<lambda>_. counts_rep R n c) (counts_rep R n c)"
    by (intro robust_counter_call) (simp_all add: counts_rep_faults)
  then have "robust (counts_rep R n c :: ('r, 'z) dialog_world_scheme \<Rightarrow> bool)
      (try_catch (bind (counter_call (counter_reconcile_user R U u)) (\<lambda>_. ret ())) (\<lambda>_. True) (ret ()))
      (\<lambda>_. counts_rep R n c) (counts_rep R n c)"
    by (intro robust_try_catch robust_bind robust_ret)
  then show ?thesis
    by (simp add: reconcile_entry_def user_of_key_def counter_key_def bind_def)
qed

lemma reconcile_page_robust:
  "\<forall>key \<in> set keys. \<exists>v. key = counter_key v \<Longrightarrow>
   robust (counts_rep R n c :: ('r, 'z) dialog_world_scheme \<Rightarrow> bool) (for_each keys (reconcile_entry R U))
     (\<lambda>_. counts_rep R n c) (counts_rep R n c)"
proof (induction keys)
  case Nil
  show ?case unfolding for_each.simps by (rule robust_ret)
next
  case (Cons key keys)
  then show ?case unfolding for_each.simps by (auto intro: robust_bind [OF reconcile_entry_robust])
qed

lemma run_robust:
  "\<forall>(_, keys) \<in> set replies. \<forall>key \<in> set keys. \<exists>v. key = counter_key v \<Longrightarrow>
   robust (counts_rep R n c :: ('r, 'z) dialog_world_scheme \<Rightarrow> bool) (RunReconciliation R U replies)
     (\<lambda>_. counts_rep R n c) (counts_rep R n c)"
proof (induction replies)
  case Nil
  show ?case unfolding RunReconciliation.simps by (rule robust_ret)
next
  case (Cons reply replies)
  obtain cursor keys where reply: "reply = (cursor, keys)" by fastforce
  have "\<forall>key \<in> set keys. \<exists>v. key = counter_key v" using Cons.prems reply by auto
  note page = reconcile_page_robust [OF this]
  have scan: "robust (counts_rep R n c :: ('r, 'z) dialog_world_scheme \<Rightarrow> bool) (counter_call (ret ()))
      (\<lambda>_. counts_rep R n c) (counts_rep R n c)"
    by (intro robust_counter_call) (simp_all add: counts_rep_faults)
  have "robust (counts_rep R n c :: ('r, 'z) dialog_world_scheme \<Rightarrow> bool)
      (if cursor = ''0'' then ret () else RunReconciliation R U replies) (\<lambda>_. counts_rep R n c) (counts_rep R n c)"
    using Cons by (intro robust_if robust_ret) auto
  with scan page show ?case
    unfolding reply RunReconciliation.simps by (intro robust_bind)
qed

text \<open>One step of the service: it takes effect on the dialogs, or a call has failed.\<close>

lemma serve_counts:
  fixes w :: "('r, 'z) dialog_world_scheme"
  assumes "counts_rep R (Suc n) c w" and "w' = serve_counter L R U e w"
  shows "counts_rep R n (spec_counter e c) w' \<and> failures w' \<le> failures w
       \<or> counts_rep R n c w' \<and> failures w' < failures w"
proof -
  have n: "counts_rep R n c w" using assms(1) by (rule counts_rep_less) simp
  show ?thesis
  proof (cases e)
    case (Message_Sent p u)
    show ?thesis using robust_cases [OF consume_robust assms(1), of p u] unfolding assms(2) Message_Sent by auto
  next
    case (Dialog_Read u p)
    show ?thesis using robust_cases [OF reset_robust n, of u p] unfolding assms(2) Dialog_Read by auto
  next
    case (Reconcile_User u)
    have "\<forall>(_, keys) \<in> set [(''0'', [counter_key u])]. \<forall>key \<in> set keys. \<exists>v. key = counter_key v" by auto
    from robust_cases [OF run_robust [OF this] n] show ?thesis
      unfolding assms(2) Reconcile_User by (auto simp del: RunReconciliation.simps)
  qed
qed

text \<open>A history keeps the effects of all its steps but some, no more than calls failed.\<close>

lemma history_counts:
  fixes w :: "('r, 'z) dialog_world_scheme"
  assumes "counts_rep R (length es) c w"
  shows "\<exists>es'. subseq es' es
    \<and> length es + failures (fold (serve_counter L R U) es w) \<le> length es' + failures w
    \<and> counts_rep R 0 (fold spec_counter es' c) (fold (serve_counter L R U) es w)"
  using assms
proof (induction es arbitrary: c w)
  case Nil
  then show ?case by (intro exI [of _ "[]"]) simp
next
  case (Cons e es)
  let ?w = "serve_counter L R U e w"
  have "counts_rep R (Suc (length es)) c w" using Cons.prems by simp
  from serve_counts [OF this refl, of e] show ?case
  proof
    assume step: "counts_rep R (length es) (spec_counter e c) ?w \<and> failures ?w \<le> failures w"
    from Cons.IH [OF conjunct1 [OF this]] obtain es' where "subseq es' es"
      "length es + failures (fold (serve_counter L R U) es ?w) \<le> length es' + failures ?w"
      "counts_rep R 0 (fold spec_counter es' (spec_counter e c)) (fold (serve_counter L R U) es ?w)" by blast
    with step show ?case by (intro exI [of _ "e # es'"]) auto
  next
    assume step: "counts_rep R (length es) c ?w \<and> failures ?w < failures w"
    from Cons.IH [OF conjunct1 [OF this]] obtain es' where "subseq es' es"
      "length es + failures (fold (serve_counter L R U) es ?w) \<le> length es' + failures ?w"
      "counts_rep R 0 (fold spec_counter es' c) (fold (serve_counter L R U) es ?w)" by blast
    with step show ?case by (intro exI [of _ es']) auto
  qed
qed

end

section \<open>Properties\<close>

text \<open>
  C6. The counters recover from failing calls. After any sequence of consumed messages, dialogs read
  and reconciliations, whatever calls to Redis fail on the way, the dialogs are as if some of the
  operations had not happened, no more than calls failed, and all others had. Once calls no longer
  fail, one run of the reconciler makes the unread count of every user whose key it meets the sum
  of those dialogs.
\<close>

theorem counters_recover:
  fixes w :: "('r, 'z) dialog_world_scheme"
  assumes "chat_env L R U" and "counters_refine R (counter_redis w) a"
    and "\<forall>u. unread (a u) + length es < 2 ^ 53"
    and "\<forall>(c, keys) \<in> set replies. \<forall>key \<in> set keys. \<exists>v. key = counter_key v"
    and "\<forall>(c, keys) \<in> set (butlast replies). c \<noteq> ''0''"
    and "w' = fold (serve_counter L R U) es w"
  shows "\<exists>es' w''. subseq es' es \<and> length es \<le> length es' + failures w
    \<and> RunReconciliation R U replies (w'\<lparr>faults := []\<rparr>) = (Inr (), w'')
    \<and> (\<forall>u. \<exists>t. counter_holds R (counter_redis w'') u (fold spec_counter es' a u) t
        \<and> ((\<exists>(c, keys) \<in> set replies. counter_key u \<in> set keys) \<longrightarrow>
             total_of t = int (unread (fold spec_counter es' a u))
           \<and> fst (GetUnreadCount R [(''x-user-id'', u)] w'') = Inr (int (unread (fold spec_counter es' a u)))))"
proof -
  obtain es' where es': "subseq es' es" "length es \<le> length es' + failures w"
    "counts_rep R 0 (fold spec_counter es' a) w'"
    using chat_env.history_counts [OF assms(1) refines_counts_rep [OF assms(2,3)]] unfolding assms(6) by fastforce
  let ?c = "fold spec_counter es' a" and ?w = "w'\<lparr>faults := []\<rparr>"
  let ?met = "\<lambda>u. \<exists>(c, keys) \<in> set replies. counter_key u \<in> set keys"
  have f: "faults ?w = []" by simp
  have rep: "counts_rep R 0 ?c ?w" using es'(3) by (rule counts_rep_faults)
  have run: "\<exists>r t. RunReconciliation R U replies ?w = (Inr (), ?w\<lparr>counter_redis := r\<rparr>)
      \<and> counter_holds R r u (?c u) (if ?met u then Some (int (unread (?c u))) else t) \<and> in_int64 (int (unread (?c u)))" for u
  proof -
    obtain t where "counter_holds R (counter_redis ?w) u (?c u) t" and exact: "exact_number (int (unread (?c u)))"
      using rep by (rule counts_rep_holds)
    from chat_env.run_reconciles [OF assms(1) f exact this(1) assms(4,5)] exact_in_int64 [OF exact] show ?thesis
      by blast
  qed
  then obtain r where r: "RunReconciliation R U replies ?w = (Inr (), ?w\<lparr>counter_redis := r\<rparr>)" by blast
  let ?w'' = "?w\<lparr>counter_redis := r\<rparr>"
  have "\<exists>t. counter_holds R r u (?c u) t \<and> (?met u \<longrightarrow> total_of t = int (unread (?c u))
      \<and> fst (GetUnreadCount R [(''x-user-id'', u)] ?w'') = Inr (int (unread (?c u))))" for u
  proof -
    obtain r' t where r': "RunReconciliation R U replies ?w = (Inr (), ?w\<lparr>counter_redis := r'\<rparr>)"
      and t: "counter_holds R r' u (?c u) (if ?met u then Some (int (unread (?c u))) else t)"
        "in_int64 (int (unread (?c u)))"
      using run [of u] by blast
    from r r' have "counter_redis ?w'' = counter_redis (?w\<lparr>counter_redis := r'\<rparr>)" by simp
    then have same: "r' = r" by simp
    show ?thesis
    proof (cases "?met u")
      case True
      with t [unfolded same] chat_env.unread_run [OF assms(1), of ?w'' u "?c u" "Some (int (unread (?c u)))"] show ?thesis
        by (intro exI [of _ "Some (int (unread (?c u)))"]) (simp add: total_of_def)
    next
      case False
      with t(1) [unfolded same] show ?thesis by (intro exI [of _ t]) simp
    qed
  qed
  with es'(1,2) r show ?thesis by (intro exI [of _ es'] exI [of _ ?w'']) simp
qed

theorem counters_recover_witness:
  "\<exists>w''. RunReconciliation ref_redis ref_lua [(''0'', [counter_key ''bob''])]
      ((fold (serve_counter ref_lib ref_redis ref_lua) [Message_Sent ''eve'' ''bob'', Message_Sent ''ann'' ''bob'']
         (sample_dialogs\<lparr>faults := [No_Fault, Fail_Before]\<rparr>))\<lparr>faults := []\<rparr>) = (Inr (), w'')
    \<and> fst (GetUnreadCount ref_redis [(''x-user-id'', ''bob'')] w'') \<in> {Inr 1, Inr 2}"
proof -
  let ?es = "[Message_Sent ''eve'' ''bob'', Message_Sent ''ann'' ''bob'']" and ?pages = "[(''0'', [counter_key ''bob''])]"
  let ?w = "sample_dialogs\<lparr>faults := [No_Fault, Fail_Before]\<rparr>" and ?a = "\<lambda>_ :: string. Map.empty :: counts"
  have c: "counters_refine ref_redis (counter_redis ?w) ?a" by (simp add: empty_counters)
  have hyps: "\<forall>u. unread (?a u) + length ?es < 2 ^ 53"
    "\<forall>(c, keys) \<in> set ?pages. \<forall>key \<in> set keys. \<exists>v. key = counter_key v"
    "\<forall>(c, keys) \<in> set (butlast ?pages). c \<noteq> ''0''" "failures ?w = 1"
    by (auto simp: unread_def failures_def)
  from counters_recover [OF ref_chat_axioms c hyps(1-3) refl] obtain es' w'' where
    es': "subseq es' ?es" "length ?es \<le> length es' + failures ?w" and
    run: "RunReconciliation ref_redis ref_lua ?pages
        ((fold (serve_counter ref_lib ref_redis ref_lua) ?es ?w)\<lparr>faults := []\<rparr>) = (Inr (), w'')" and
    counts: "\<forall>u. \<exists>t. counter_holds ref_redis (counter_redis w'') u (fold spec_counter es' ?a u) t
        \<and> ((\<exists>(c, keys) \<in> set ?pages. counter_key u \<in> set keys) \<longrightarrow>
             total_of t = int (unread (fold spec_counter es' ?a u))
           \<and> fst (GetUnreadCount ref_redis [(''x-user-id'', u)] w'') = Inr (int (unread (fold spec_counter es' ?a u))))"
    by blast
  from es'(1) have "es' \<in> set (subseqs ?es)" by (simp only: in_set_subseqs)
  moreover have "es' \<noteq> []" using es'(2) hyps(4) by auto
  ultimately have "unread (fold spec_counter es' ?a ''bob'') \<in> {1, 2}"
    by (auto simp: Let_def unread_def count_of_def)
  with run counts show ?thesis by fastforce
qed

end
