(* ===== verification/Monolith.thy ===== *)
theory Monolith
  imports Notifications
begin

text \<open>
  A monolith process as a whole: the server of \<open>Server\<close> together with the live connections of
  \<open>Web_Socket\<close>. A connection is opened by a request to \<open>handler-post-feed-ws\<close>, which passes the
  check of its \<open>auth\<close> section before \<open>PostFeedWsHandler::Handle\<close> runs; the fan-out consumer
  takes the messages that the consumer of post events has published, and reads the followers from
  the replica of the same database.
\<close>

section \<open>Opening a connection\<close>

definition authorize_ws :: "auth_snapshot \<Rightarrow> string \<Rightarrow> auth_status + uuid option" where
  "authorize_ws cache header =
     (case MakeAuthChecker (Option.bind (map_of static_config ''handler-post-feed-ws'') hc_scopes) cache header of
        (kAuthOk, user) \<Rightarrow> Inr user
      | (refused, _) \<Rightarrow> Inl refused)"

definition open_feed :: "uuid \<Rightarrow> ('r, 'z) node_scheme \<Rightarrow> ('r, 'z) node_scheme" where
  "open_feed user_id n = (case Subscribe user_id n of (session, n') \<Rightarrow> set_handler session (new_handler user_id) n')"

lemma authorize_ws_bearer: "authorize_ws cache header = Inr (Some u) \<longleftrightarrow> bears_token cache header u"
proof -
  have "authorize_ws cache header = Inr (Some u) \<longleftrightarrow> CheckAuth cache [''read''] header = (kAuthOk, Some u)"
    by (auto simp: authorize_ws_def static_config_def open_route_def bearer_route_def MakeAuthChecker_def
        split: prod.splits auth_status.splits)
  then show ?thesis by (simp add: check_auth_read)
qed

lemma open_feed_step: "ws_step L P n (open_feed u n)"
  unfolding open_feed_def by (cases "Subscribe u n") (simp add: ws_step.connect)

section \<open>The process\<close>

text \<open>
  The server moves (requests, replication, the token cache, the consumer of post events); a client
  whose header is accepted gets a connection; a task of an open connection moves (\<open>ws_step\<close>, where
  no handler is added and nothing is pushed); the fan-out consumer takes a message of its exchange,
  any number of times and with any calls failing.
\<close>

type_synonym ('r, 'z) monolith = "('r, 'z) app_scheme \<times> 'r node"

inductive monolith_step :: "('r, ('r, 'z) app_scheme) environment \<Rightarrow> ('r, 'z) monolith \<Rightarrow> ('r, 'z) monolith \<Rightarrow> bool"
  for E :: "('r, ('r, 'z) app_scheme) environment"
where
  server_moves: "server_step E w w' \<Longrightarrow> monolith_step E (w, n) (w', n)"
| client_connects: "authorize_ws (auth_cache w) header = Inr (Some u) \<Longrightarrow> monolith_step E (w, n) (w, open_feed u n)"
| connection_moves: "ws_step (env_lib E) (env_planner E) n n' \<Longrightarrow> dom (handlers n') = dom (handlers n) \<Longrightarrow>
    push_log n' = push_log n \<Longrightarrow> monolith_step E (w, n) (w, n')"
| event_fans_out: "Publication ''ws-fanout'' key m \<in> set (published w) \<Longrightarrow>
    WsFanoutConsumer_Process (env_lib E) (env_planner E) m (n\<lparr>faults := fs, master := master w, slave := slave w\<rparr>) = (r, n') \<Longrightarrow>
    monolith_step E (w, n) (w, n')"

inductive monolith_reach :: "('r, ('r, 'z) app_scheme) environment \<Rightarrow> ('r, 'z) monolith \<Rightarrow> bool"
  for E :: "('r, ('r, 'z) app_scheme) environment"
where
  start: "server_start E w \<Longrightarrow> ws_start n \<Longrightarrow> monolith_reach E (w, n)"
| step: "monolith_reach E c \<Longrightarrow> monolith_step E c c' \<Longrightarrow> monolith_reach E c'"

text \<open>A user that a token in the cache stands for.\<close>

definition bearer :: "('r, 'z) app_scheme \<Rightarrow> uuid \<Rightarrow> bool" where
  "bearer w u \<longleftrightarrow> (\<exists>header. bears_token (auth_cache w) header u)"

text \<open>
  Every message is the event of a post of a bearer and was announced in that bearer's name; the
  user of every connection is a bearer.
\<close>

definition announced :: "lib \<Rightarrow> ('r, 'z) app_scheme \<Rightarrow> string \<Rightarrow> uuid \<Rightarrow> bool" where
  "announced L w m a \<longleftrightarrow> (\<exists>i x. m = post_event L a i x) \<and> bearer w a
     \<and> Publication feed_exchange (''post.created.'' @ to_str L a) m \<in> set (published w)"

definition monolith_inv :: "('r, ('r, 'z) app_scheme) environment \<Rightarrow> ('r, 'z) monolith \<Rightarrow> bool" where
  "monolith_inv E c \<longleftrightarrow> (case c of (w, n) \<Rightarrow> server_inv E w \<and> ws_inv n
     \<and> (\<forall>m \<in> set (published w). \<exists>a. announced (env_lib E) w (pub_body m) a)
     \<and> (\<forall>s h. handlers n s = Some h \<longrightarrow> bearer w (wh_user h)))"

section \<open>Connections keep their users\<close>

lemma ws_step_keeps_user:
  assumes "ws_step L P n n'" and "ws_inv n" and "handlers n s = Some h"
  shows "\<exists>h'. handlers n' s = Some h' \<and> wh_user h' = wh_user h"
  using assms
proof (induction rule: ws_step.induct)
  case (connect u w t w')
  from subscribe_new [OF connect.hyps connect.prems(1)] connect.prems(2) show ?case by auto
next
  case (fanout m w r w')
  from fanout_keeps [OF fanout.hyps] fanout.prems(2) show ?case by auto
qed auto

lemma ws_step_old_users:
  assumes "ws_step L P n n'" and "ws_inv n" and "dom (handlers n') = dom (handlers n)" and "handlers n' s = Some h'"
  shows "\<exists>h. handlers n s = Some h \<and> wh_user h' = wh_user h"
proof -
  from assms(3,4) obtain h where h: "handlers n s = Some h" by blast
  from ws_step_keeps_user [OF assms(1,2) h] assms(4) h show ?thesis by auto
qed

lemma open_feed_handlers:
  assumes "ws_inv n" and "handlers (open_feed u n) s = Some h"
  shows "wh_user h = u \<or> handlers n s = Some h"
proof (cases "Subscribe u n")
  case (Pair t n')
  with subscribe_new [OF Pair assms(1)] assms(2) show ?thesis
    by (auto simp: open_feed_def new_handler_def split: if_splits)
qed

text \<open>Reading the replica is the one call of the fan-out that can fail, and it comes before the pushes.\<close>

lemma fanout_outcome:
  fixes R :: "'r redis" and n :: "'r node"
  assumes "feed_env L R P" and "ws_inv n" and "db_ok (slave n)" and "handlers n s = Some h"
    and "WsFanoutConsumer_Process L P (post_event L a i x) n = (r, n')"
  shows "push_log n' s = push_log n s
    \<or> push_log n' s = push_log n s @ [post_event L a i x] \<and> open_phase (wh_phase h) \<and> follows (slave n) (wh_user h) a"
proof -
  let ?m = "post_event L a i x"
  have run: "WsFanoutConsumer_Process L P ?m n = NotifyFollowers L P a i x n" for n :: "'r node"
    by (simp add: feed_env.read_fanout [OF assms(1) feed_env.read_post_event [OF assms(1)]])
  have pushes: "push_log n' s = push_log v s \<or> push_log n' s = push_log v s @ [?m] \<and> open_phase (wh_phase h) \<and> follows (slave v) (wh_user h) a"
    if v: "ws_inv v" "db_ok (slave v)" "handlers v s = Some h"
      "for_each (sql_followers P a (slave v)) (\<lambda>fid. modify (notify_user ?m fid)) v = (r, n')" for v :: "'r node"
    using feed_env.notify_followers_log [OF assms(1) v(1-3), of a ?m] v(4) by (auto split: if_splits)
  have ok: "ws_inv (n\<lparr>faults := fs\<rparr>)" for fs using assms(2) by (simp add: ws_inv_def)
  show ?thesis
  proof (cases "faults n")
    case Nil
    have "WsFanoutConsumer_Process L P ?m n = for_each (sql_followers P a (slave n)) (\<lambda>fid. modify (notify_user ?m fid)) n"
      using assms(1) Nil by (intro library.fanout_run) (simp_all add: feed_env_def)
    with pushes [OF assms(2-4)] assms(5) show ?thesis by simp
  next
    case (Cons f fs)
    let ?n = "n\<lparr>faults := fs\<rparr>"
    note notify = assms(5) [unfolded run NotifyFollowers_def Let_def, folded post_event_def]
    from Cons notify have "f = No_Fault \<and> for_each (sql_followers P a (slave ?n)) (\<lambda>fid. modify (notify_user ?m fid)) ?n = (r, n')
        \<or> n' = ?n"
      by (cases f) (simp_all add: WsManager_GetFollowers_def from_slave_def ext_def bind_def query_def)
    with pushes [OF ok, of fs] assms(3,4) show ?thesis by auto
  qed
qed


section \<open>The invariant\<close>

context server
begin

lemma caller_bearer: "caller w q = Some u \<Longrightarrow> bearer w u"
  by (auto simp: caller_def bearer_def authorize_handler check_auth_read split: sum.splits if_splits prod.splits auth_status.splits)

lemma bearer_step: "server_step E w w' \<Longrightarrow> server_inv E w \<Longrightarrow> bearer w u \<Longrightarrow> bearer w' u"
  using bearer_stays [OF r_into_rtranclp] unfolding bearer_def by blast

text \<open>The consumer of post events publishes nothing but what it has read.\<close>

lemma consume_publishes:
  assumes "PostFeedConsumer_Process (env_lib E) (env_redis E) (env_planner E) (post_event (env_lib E) a i x) w = (r, w')"
  shows "set (published w) \<subseteq> set (published w') \<and> (\<forall>p \<in> set (published w') - set (published w). pub_body p = post_event (env_lib E) a i x)"
proof -
  let ?ev = "post_event (env_lib E) a i x"
  let ?I = "\<lambda>v. set (published w) \<subseteq> set (published v) \<and> (\<forall>p \<in> set (published v) - set (published w). pub_body p = ?ev)"
  have calls: "preserves ?I (from_slave q)" "preserves ?I (redis_get p)" "preserves ?I (redis_put f)"
    "preserves ?I (publish e k ?ev)" for q p f e k
    unfolding from_slave_def redis_get_def redis_put_def publish_def
    by (intro preserves_ext preserves_query preserves_modify; auto)+
  have "preserves ?I (bind (OnPostCreated (env_lib E) (env_redis E) (env_planner E) a i x)
      (\<lambda>_. publish ''ws-fanout'' [] ?ev))"
    unfolding OnPostCreated_def GetFollowers_def Let_def
    by (intro preserves_bind preserves_if preserves_for_each preserves_ret calls)
  from preservesD [OF this, of w] assms show ?thesis by (simp add: consumer_process)
qed

lemma announced_step:
  assumes "server_step E w w'" and "server_inv E w" and "announced (env_lib E) w m a"
    and "set (published w) \<subseteq> set (published w')"
  shows "announced (env_lib E) w' m a"
  using assms(3,4) bearer_step [OF assms(1,2)] by (auto simp: announced_def)

lemma all_announced_step:
  assumes "server_step E w w'" and "server_inv E w"
    and "\<forall>m \<in> set (published w). \<exists>a. announced (env_lib E) w (pub_body m) a"
  shows "\<forall>m \<in> set (published w'). \<exists>a. announced (env_lib E) w' (pub_body m) a"
proof -
  have same: ?thesis if "set (published w') = set (published w)"
    using assms(3) unfolding that by (metis announced_step [OF assms(1,2)] order_refl that)
  show ?thesis
    using assms(1)
  proof (cases rule: server_step.cases)
    case (request c q)
    obtain ms where ms: "published w' = published w @ ms" "\<forall>m \<in> set ms. \<exists>u i text. caller w q = Some u \<and>
        m = Publication feed_exchange (''post.created.'' @ to_str (env_lib E) u) (post_event (env_lib E) u i text)"
      using acts_forD(3) [OF serve_acts_for [of w q c]] request by auto
    show ?thesis
    proof
      fix m assume "m \<in> set (published w')"
      with ms(1) consider "m \<in> set (published w)" | "m \<in> set ms" by auto
      then show "\<exists>a. announced (env_lib E) w' (pub_body m) a"
      proof cases
        case 1
        with announced_step [OF assms(1,2)] assms(3) ms(1) show ?thesis by fastforce
      next
        case 2
        with ms(2) obtain u i x where u: "caller w q = Some u"
          "m = Publication feed_exchange (''post.created.'' @ to_str (env_lib E) u) (post_event (env_lib E) u i x)" by blast
        have "m \<in> set (published w')" using 2 ms(1) by simp
        with u(2) bearer_step [OF assms(1,2) caller_bearer [OF u(1)]] show ?thesis
          by (intro exI [of _ u]) (auto simp: announced_def)
      qed
    qed
  next
    case (consume m)
    obtain a where a: "announced (env_lib E) w (pub_body m) a" using assms(3) consume by blast
    then obtain i x where m: "pub_body m = post_event (env_lib E) a i x" by (auto simp: announced_def)
    have pub: "set (published w) \<subseteq> set (published w') \<and> (\<forall>p \<in> set (published w') - set (published w). pub_body p = pub_body m)"
      using consume_publishes [of a i x w] consume(1) m by (metis prod.collapse)
    with a have "announced (env_lib E) w' (pub_body m) a" using announced_step [OF assms(1,2)] by blast
    with pub announced_step [OF assms(1,2)] assms(3) show ?thesis by (metis Diff_iff)
  qed (use same in \<open>auto simp: replicate_now_def same_app_def\<close>)
qed

lemma monolith_step_inv:
  assumes "monolith_step E c c'" and "monolith_inv E c"
  shows "monolith_inv E c'"
  using assms
proof (induction rule: monolith_step.induct)
  case (server_moves w w' n)
  then show ?case
    using step_inv all_announced_step [OF server_moves.hyps] bearer_step [OF server_moves.hyps]
    by (auto simp: monolith_inv_def)
next
  case (client_connects w header u n)
  then have "bearer w u" by (auto simp: authorize_ws_bearer bearer_def)
  moreover have "ws_inv (open_feed u n)"
    using ws_step_inv [OF open_feed_step [of _ _ n u]] client_connects.prems by (simp add: monolith_inv_def)
  ultimately show ?case
    using client_connects.prems open_feed_handlers [of n u] by (simp add: monolith_inv_def) metis
next
  case (connection_moves n n' w)
  then show ?case
    using ws_step_inv [OF connection_moves.hyps(1)] ws_step_old_users [OF connection_moves.hyps(1) _ connection_moves.hyps(2)]
    by (fastforce simp: monolith_inv_def)
next
  case (event_fans_out key m w fs n r n')
  have "ws_step (env_lib E) (env_planner E) (n\<lparr>faults := fs, master := master w, slave := slave w\<rparr>) n'"
    using event_fans_out.hyps(2) by (rule ws_step.fanout)
  moreover have "ws_inv (n\<lparr>faults := fs, master := master w, slave := slave w\<rparr>)"
    using event_fans_out.prems by (simp add: monolith_inv_def ws_inv_def)
  ultimately have "ws_inv n'" by (rule ws_step_inv)
  with event_fans_out.prems fanout_keeps(1) [OF event_fans_out.hyps(2)] show ?case
    by (auto simp: monolith_inv_def)
qed

lemma monolith_reach_inv: "monolith_reach E c \<Longrightarrow> monolith_inv E c"
proof (induction rule: monolith_reach.induct)
  case (start w n)
  then have "server_inv E w" by (intro reach_inv server_reach.start)
  moreover have "ws_inv n" using start(2) by (intro ws_reach_inv) (rule ws_reach.start)
  ultimately show ?case using start by (auto simp: monolith_inv_def server_start_def ws_start_def)
next
  case (step c c')
  then show ?case by (blast intro: monolith_step_inv)
qed

end


section \<open>A concrete process\<close>

text \<open>User 20, registered and logged in, follows its own posts, opens a connection and creates a post.\<close>

definition befriended_social :: "keyspace social" where
  "befriended_social = replicate_now (snd (serve sample_environment sample_chance
     \<lparr>sr_handler = Handler_Friend_Add, sr_authorization = ''Bearer '' @ session_token,
      sr_http = \<lparr>path_arg = to_str ref_lib (Uuid 20), args = []\<rparr>, sr_body = []\<rparr> session_social))"

definition posted_social :: "keyspace social" where
  "posted_social = snd (serve sample_environment sample_chance hello_request befriended_social)"

definition hello_event :: string where
  "hello_event = post_event ref_lib (Uuid 20) (Uuid 20) ''hi''"

definition passed_social :: "keyspace social" where
  "passed_social = snd (PostFeedConsumer_Process ref_lib ref_redis ref_planner hello_event posted_social)"

definition open_node :: "keyspace node" where
  "open_node = open_feed (Uuid 20) sample_node"

lemma sample_env_simps: "env_lib sample_environment = ref_lib" "env_redis sample_environment = ref_redis"
  "env_planner sample_environment = ref_planner" "ch_id sample_chance = Uuid 20" "ch_now sample_chance = 5"
  by (simp_all add: sample_environment_def sample_chance_def)

lemma befriended_facts:
  "faults befriended_social = []" "bears_token (auth_cache befriended_social) (''Bearer '' @ session_token) (Uuid 20)"
  "follows (slave befriended_social) (Uuid 20) (Uuid 20)" "posts (master befriended_social) = posts sample_db"
  "published befriended_social = []"
proof -
  let ?q = "\<lparr>sr_handler = Handler_Friend_Add, sr_authorization = ''Bearer '' @ session_token,
      sr_http = \<lparr>path_arg = to_str ref_lib (Uuid 20), args = []\<rparr>, sr_body = []\<rparr>"
  have served: "serve sample_environment sample_chance ?q session_social
    = call sample_environment sample_chance (Some (Uuid 20)) ?q Handler_Friend_Add session_social"
    using serve_bearer [of ?q session_social "Uuid 20" sample_environment sample_chance] session_bears
    by (simp add: open_handler_def)
  have run: "snd (serve sample_environment sample_chance ?q session_social)
    = session_social\<lparr>master := snd (sql_insert_friendship (Uuid 20) (Uuid 20) 5 (master session_social)),
       feed_redis := feed_redis (snd (serve sample_environment sample_chance ?q session_social))\<rparr>"
    using session_users session_faults unfolding served
    by (simp add: with_user_def text_answer_def FriendAddHandler_def sample_env_simps string_generator_def bind_def
        InvalidateFeed_def sql_insert_friendship_def ref_library.gen_to_str)
  show "faults befriended_social = []" "bears_token (auth_cache befriended_social) (''Bearer '' @ session_token) (Uuid 20)"
    using session_faults session_bears unfolding befriended_social_def replicate_now_def by (subst run; simp)+
  show "follows (slave befriended_social) (Uuid 20) (Uuid 20)"
    unfolding befriended_social_def replicate_now_def using session_users by (subst run) (simp add: follows_insert)
  show "posts (master befriended_social) = posts sample_db" "published befriended_social = []"
    unfolding befriended_social_def replicate_now_def
    by (subst run, simp add: sql_insert_friendship_def session_run update_auth_cache_def replicate_now_def registered_social_run)+
qed


lemma befriended_reach: "server_reach sample_environment befriended_social"
  unfolding befriended_social_def
  by (rule server_reach.step [OF reach_request [OF session_reach] server_step.replicate])

lemma posted_facts:
  "faults posted_social = []" "auth_cache posted_social = auth_cache befriended_social"
  "slave posted_social = slave befriended_social"
  "published posted_social = [Publication feed_exchange (''post.created.'' @ to_str ref_lib (Uuid 20)) hello_event]"
proof -
  have field: "field_string (JObject (sr_body hello_request)) ''text'' = Inr ''hi''"
    by (simp add: hello_request_def field_string_def)
  have "server_inv sample_environment befriended_social" using befriended_reach by (rule ref_social.reach_inv)
  then have user: "Uuid 20 \<in> user_ids (master befriended_social)"
    using befriended_facts(2) by (rule ref_social.bearer_is_user)
  have fresh: "Uuid 20 \<notin> set (map po_id (posts (master befriended_social)))"
    by (simp add: befriended_facts(4)) (simp add: sample_db_def)
  have served: "serve sample_environment sample_chance hello_request befriended_social
    = call sample_environment sample_chance (Some (Uuid 20)) hello_request Handler_Post_Create befriended_social"
    using serve_bearer [of hello_request befriended_social "Uuid 20" sample_environment sample_chance] befriended_facts(2)
    by (simp add: open_handler_def hello_request_def)
  show "faults posted_social = []" "auth_cache posted_social = auth_cache befriended_social"
    "slave posted_social = slave befriended_social"
    "published posted_social = [Publication feed_exchange (''post.created.'' @ to_str ref_lib (Uuid 20)) hello_event]"
    using create_run [OF befriended_facts(1) field user fresh, of ref_lib feed_exchange 5] befriended_facts
    by (simp_all add: posted_social_def served sample_env_simps with_user_def json_answer_def bind_def hello_event_def)
qed

lemma passed_facts:
  "auth_cache passed_social = auth_cache befriended_social" "slave passed_social = slave befriended_social"
  "published passed_social = published posted_social @ [Publication ''ws-fanout'' [] hello_event]"
  using ref_feed.on_post_created_run [OF posted_facts(1)] posted_facts
  by (simp_all add: passed_social_def hello_event_def ref_feed.consumer_process bind_def)

lemma passed_reach: "monolith_reach sample_environment (passed_social, open_node)"
proof -
  have "server_reach sample_environment posted_social"
    unfolding posted_social_def by (rule reach_request [OF befriended_reach])
  have "server_step sample_environment posted_social passed_social"
    using server_step.consume [of "Publication feed_exchange (''post.created.'' @ to_str ref_lib (Uuid 20)) hello_event" posted_social sample_environment]
    by (simp add: posted_facts passed_social_def sample_env_simps)
  then have reach: "server_reach sample_environment passed_social"
    using \<open>server_reach sample_environment posted_social\<close> by (rule server_reach.step [rotated])
  have "monolith_reach sample_environment (w, sample_node)" if "server_reach sample_environment w" for w
    using that
  proof (induction rule: server_reach.induct)
    case (start w)
    then show ?case by (rule monolith_reach.start) (simp add: ws_start_def sample_node_def)
  next
    case (step w w')
    then show ?case by (blast intro: monolith_reach.step monolith_step.server_moves)
  qed
  from monolith_reach.step [OF this [OF reach] monolith_step.client_connects [of _ "''Bearer '' @ session_token"]]
  show ?thesis
    using befriended_facts(2) by (simp add: open_node_def authorize_ws_bearer passed_facts)
qed

lemma hello_fans_out:
  "\<exists>n'. monolith_step sample_environment (passed_social, open_node) (passed_social, n')
    \<and> handlers n' 0 = Some (new_handler (Uuid 20)) \<and> push_log open_node 0 = [] \<and> push_log n' 0 = [hello_event]"
proof -
  let ?n = "open_node\<lparr>faults := [], master := master passed_social, slave := slave passed_social\<rparr>"
  have inv: "monolith_inv sample_environment (passed_social, open_node)"
    using passed_reach by (rule ref_social.monolith_reach_inv)
  have n: "ws_inv ?n" "db_ok (slave ?n)" "handlers ?n 0 = Some (new_handler (Uuid 20))" "push_log open_node 0 = []"
    using inv by (simp_all add: monolith_inv_def ws_inv_def server_inv_def)
      (simp_all add: open_node_def open_feed_def Subscribe_def Let_def set_handler_def sample_node_def)
  have f: "follows (slave ?n) (Uuid 20) (Uuid 20)" using befriended_facts(3) by (simp add: passed_facts)
  have "WsFanoutConsumer_Process ref_lib ref_planner hello_event ?n
    = for_each (sql_followers ref_planner (Uuid 20) (slave ?n)) (\<lambda>fid. modify (notify_user hello_event fid)) ?n"
    unfolding hello_event_def by (rule library.fanout_run [OF ref_library_axioms]) simp
  with ref_feed.notify_followers_log [OF n(1-3), of "Uuid 20" hello_event] f obtain n' where
    n': "WsFanoutConsumer_Process ref_lib ref_planner hello_event ?n = (Inr (), n')"
      "push_log n' 0 = push_log ?n 0 @ [hello_event]"
    by (auto simp: new_handler_def open_phase_def)
  have "monolith_step sample_environment (passed_social, open_node) (passed_social, n')"
    by (rule monolith_step.event_fans_out [of "[]" hello_event])
      (use n'(1) in \<open>simp_all add: passed_facts sample_env_simps\<close>)
  with n' n(3,4) fanout_keeps(1) [OF n'(1)] show ?thesis by auto
qed

section \<open>Properties\<close>

text \<open>
  C13. Live posts stay among followers. Whatever the server, the clients and the consumers of a
  process do and whatever calls fail, the user of every connection is a registered user whose
  token is accepted; a step pushes at most one message to a session, and then it is the event of a
  post that its author, a bearer too, has announced, the connection is open and its user follows
  the author in the database the instance reads.
\<close>

theorem live_posts_stay_among_followers:
  fixes w :: "('r, 'z) app_scheme" and n :: "'r node"
  assumes "server E" and "monolith_reach E (w, n)" and "monolith_step E (w, n) (w', n')" and "handlers n' s = Some h"
  shows "bearer w' (wh_user h) \<and> wh_user h \<in> user_ids (master w')
    \<and> (push_log n' s = push_log n s
     \<or> (\<exists>m a. push_log n' s = push_log n s @ [m] \<and> announced (env_lib E) w m a
          \<and> open_phase (wh_phase h) \<and> follows (slave w) (wh_user h) a))"
proof -
  have inv: "monolith_inv E (w, n)" using assms(1,2) by (rule server.monolith_reach_inv)
  have inv': "monolith_inv E (w', n')" using assms(1,3) inv by (rule server.monolith_step_inv)
  have b: "bearer w' (wh_user h)" "server_inv E w'" using inv' assms(4) by (auto simp: monolith_inv_def)
  have pushed: "push_log n' s = push_log n s
     \<or> (\<exists>m a. push_log n' s = push_log n s @ [m] \<and> announced (env_lib E) w m a
          \<and> open_phase (wh_phase h) \<and> follows (slave w) (wh_user h) a)"
    using assms(3)
  proof (cases rule: monolith_step.cases)
    case (client_connects header u)
    then show ?thesis by (simp add: open_feed_def Subscribe_def set_handler_def Let_def)
  next
    case (event_fans_out key m fs r)
    let ?n = "n\<lparr>faults := fs, master := master w, slave := slave w\<rparr>"
    obtain a where a: "announced (env_lib E) w m a"
      using inv event_fans_out(2) by (fastforce simp: monolith_inv_def)
    then obtain i x where m: "m = post_event (env_lib E) a i x" by (auto simp: announced_def)
    have n: "ws_inv ?n" "db_ok (slave ?n)"
      using inv by (simp_all add: monolith_inv_def ws_inv_def server_inv_def)
    have h: "handlers ?n s = Some h" using fanout_keeps(1) [OF event_fans_out(3)] assms(4) by simp
    have "feed_env (env_lib E) (env_redis E) (env_planner E)" using assms(1) by (simp add: server_def)
    from fanout_outcome [OF this n h event_fans_out(3) [unfolded m]] show ?thesis
      using a m by auto
  qed auto
  from b pushed server.bearer_is_user [OF assms(1) b(2)] show ?thesis by (auto simp: bearer_def)
qed


theorem live_posts_stay_among_followers_witness:
  "\<exists>n'. monolith_step sample_environment (passed_social, open_node) (passed_social, n') \<and> push_log n' 0 = [hello_event]
    \<and> (\<exists>a. announced ref_lib passed_social hello_event a \<and> follows (slave passed_social) (Uuid 20) a)"
proof -
  obtain n' where n': "monolith_step sample_environment (passed_social, open_node) (passed_social, n')"
    "handlers n' 0 = Some (new_handler (Uuid 20))" "push_log open_node 0 = []" "push_log n' 0 = [hello_event]"
    using hello_fans_out by blast
  from live_posts_stay_among_followers [OF ref_social_axioms passed_reach n'(1,2)] n'
  show ?thesis by (auto simp: sample_env_simps new_handler_def)
qed

end
