(* ===== verification/Dialog_Privacy.thy ===== *)
theory Dialog_Privacy
  imports Server
begin

text \<open>
  The dialogs behind the server: what a request of any kind, from anyone and under any failures,
  can do to the messages that the chat service keeps, and what a listing shows. The identifier of
  a message is drawn anew for each request (the last argument of \<open>social_environment\<close>).
\<close>

section \<open>Calls and the store of dialogs\<close>

abbreviation keeps_dialogs :: "'r \<Rightarrow> (('r, 'z) dialog_world_scheme, 'a) eff \<Rightarrow> bool" where
  "keeps_dialogs r \<equiv> preserves (\<lambda>w. dialog_redis w = r)"

lemma keeps_dialogs_ext:
  "(\<And>w. dialog_redis w = r \<Longrightarrow> dialog_redis (snd (m w)) = r) \<Longrightarrow> keeps_dialogs r (ext e m)"
  by (rule preserves_ext) (simp_all add: preserves_def)

lemma keeps_dialogs_calls:
  "keeps_dialogs r (dialog_fcall (dialog_list L R U a b))" "keeps_dialogs r (counter_call f)"
  "keeps_dialogs r (broker_publish e k b)"
  unfolding dialog_fcall_def counter_call_def broker_publish_def
  by (rule keeps_dialogs_ext; simp add: dialog_list_def split: prod.split)+

lemma keeps_dialogs_grpc:
  assumes "keeps_dialogs r m"
  shows "keeps_dialogs r (grpc_call m)"
proof -
  have "snd (case m w of (Inl e, t) \<Rightarrow> (Inl (if is_rpc_error e then e else RpcError ''UNKNOWN''), t) | (Inr a, t) \<Rightarrow> (Inr a, t))
      = snd (m w)" for w
    by (simp split: prod.split sum.split)
  then show ?thesis
    unfolding grpc_call_def using assms by (intro keeps_dialogs_ext) (simp add: preserves_def)
qed

lemma keeps_dialogs_services:
  "keeps_dialogs r (list_via L R U meta b)" "keeps_dialogs r (reset_via R U meta b)" "keeps_dialogs r (unread_via R meta)"
  unfolding list_via_def reset_via_def unread_via_def ListMessages_def ResetDialogCounter_def GetUnreadCount_def
  by (intro keeps_dialogs_grpc preserves_bind preserves_lift_sum keeps_dialogs_calls)+

lemma services_keep:
  fixes w :: "('r, 'z) dialog_world_scheme"
  shows "dialog_redis (snd (list_via L R U meta b w)) = dialog_redis w"
    and "dialog_redis (snd (reset_via R U meta b w)) = dialog_redis w"
    and "dialog_redis (snd (unread_via R meta w)) = dialog_redis w"
  by (rule preservesD [where P = "\<lambda>v. dialog_redis v = dialog_redis w"], rule keeps_dialogs_services, rule refl)+

lemma grpc_success:
  assumes "fst (grpc_call m w) = Inr a"
  shows "fst (m w) = Inr a \<or> (\<exists>fs. fst (m (w\<lparr>faults := fs\<rparr>)) = Inr a)"
proof -
  have "fst (case m v of (Inl e, t) \<Rightarrow> (Inl (if is_rpc_error e then e else RpcError ''UNKNOWN''), t) | (Inr a, t) \<Rightarrow> (Inr a, t)) = Inr a
      \<longleftrightarrow> fst (m v) = Inr a" for v
    by (auto split: prod.split sum.split)
  with assms show ?thesis by (auto simp: grpc_call_def ext_def Let_def split: list.splits fault.splits)
qed

text \<open>
  A send stores its message or not, whatever fails on its way; a successful listing shows the
  dialog of the two users.
\<close>

context chat_env
begin

lemma fcall_send_outcome:
  "dialog_redis (snd (dialog_fcall (dialog_send R U a b x i) w)) \<in> {dialog_redis w, snd (dialog_send R U a b x i (dialog_redis w))}"
  by (auto simp: dialog_fcall_def ext_def Let_def split: list.split fault.split prod.split)

lemma service_send_outcome:
  "dialog_redis (snd (SendMessage L R U i [(''x-user-id'', a)] b x w))
    \<in> {dialog_redis w, snd (dialog_send R U a b x (to_str L i) (dialog_redis w))}"
proof -
  obtain y t where f: "dialog_fcall (dialog_send R U a b x (to_str L i)) w = (y, t)" by fastforce
  have "dialog_redis (snd (broker_publish e k m t)) = dialog_redis t" for e k m
    by (rule preservesD [where P = "\<lambda>w. dialog_redis w = dialog_redis t", OF keeps_dialogs_calls(3) refl])
  with f fcall_send_outcome [of a b x "to_str L i" w] show ?thesis
    by (cases y) (auto simp: SendMessage_def ExtractUserId_def bind_def Let_def)
qed

lemma send_outcome:
  fixes w :: "('r, 'z) dialog_world_scheme"
  shows
  "dialog_redis (snd (send_via L R U i [(''x-user-id'', a)] b x w))
    \<in> {dialog_redis w, snd (dialog_send R U a b x (to_str L i) (dialog_redis w))}"
proof -
  let ?m = "SendMessage L R U i [(''x-user-id'', a)] b x"
  have call: "snd (case ?m w of (Inl e, t) \<Rightarrow> (Inl (if is_rpc_error e then e else RpcError ''UNKNOWN''), t) | (Inr a, t) \<Rightarrow> (Inr a, t))
      = snd (?m w)" for w :: "('r, 'z) dialog_world_scheme"
    by (simp split: prod.split sum.split)
  show ?thesis
    using service_send_outcome [of i a b x w] service_send_outcome [of i a b x "w\<lparr>faults := _\<rparr>"]
    by (auto simp: send_via_def grpc_call_def ext_def Let_def call split: list.split fault.split)
qed

lemma service_list_outcome:
  assumes "dialog_holds R U (dialog_redis w) a b ms" and "fst (ListMessages L R U [(''x-user-id'', a)] b w) = Inr ms'"
  shows "ms' = ms"
  using assms list_parses [OF assms(1)]
  by (auto simp: ListMessages_def ExtractUserId_def bind_def dialog_fcall_def dialog_list_def ext_def Let_def query_def
      split: list.splits fault.splits)

lemma list_outcome:
  fixes w :: "('r, 'z) dialog_world_scheme"
  assumes "dialog_holds R U (dialog_redis w) a b ms" and "fst (list_via L R U [(''x-user-id'', a)] b w) = Inr ms'"
  shows "ms' = ms"
proof -
  have "fst (ListMessages L R U [(''x-user-id'', a)] b v) = Inr ms' \<Longrightarrow> dialog_redis v = dialog_redis w \<Longrightarrow> ms' = ms"
    for v :: "('r, 'z) dialog_world_scheme"
    using service_list_outcome [of v a b ms ms'] assms(1) by simp
  with grpc_success [OF assms(2) [unfolded list_via_def]] show ?thesis by fastforce
qed

end


section \<open>Requests and the store of dialogs\<close>

text \<open>The handler of a send makes at most one call, with the user of the request as the sender.\<close>

lemma send_handler_outcome:
  "snd (DialogSendHandler L send u req body w) = w
   \<or> (\<exists>v x. gen L (path_arg req) = Some v \<and> field_string (JObject body) ''text'' = Inr x
        \<and> snd (DialogSendHandler L send u req body w) = snd (send (user_metadata L u) (to_str L v) x w))"
proof (cases "gen L (path_arg req)")
  case None
  then show ?thesis
    by (simp add: DialogSendHandler_def parse_or_bad_request_def string_generator_def is_runtime_error_def)
next
  case (Some v)
  show ?thesis
  proof (cases "field_string (JObject body) ''text''")
    case (Inl e)
    then show ?thesis
      by (simp add: DialogSendHandler_def parse_or_bad_request_def string_generator_def Some bind_def)
  next
    case (Inr x)
    obtain y t where "send (user_metadata L u) (to_str L v) x w = (y, t)" by fastforce
    then show ?thesis
      by (cases y) (auto simp: DialogSendHandler_def parse_or_bad_request_def string_generator_def Some Inr bind_def try_catch_def)
  qed
qed

lemma list_handler_outcome:
  assumes "gen L (path_arg req) = Some v" and "fst (DialogListHandler L reset list u req w) = Inr (kOk, body)"
  shows "\<exists>ms. fst (list (user_metadata L u) (to_str L v) (snd (reset (user_metadata L u) (to_str L v) w))) = Inr ms
    \<and> body = json_dump L (JArray (map message_json ms))"
proof -
  let ?meta = "user_metadata L u" and ?v = "to_str L v"
  obtain y t where r: "reset ?meta ?v w = (y, t)" by fastforce
  obtain z t' where l: "list ?meta ?v t = (z, t')" by fastforce
  from assms r l show ?thesis
    by (cases y; cases z)
      (auto simp: DialogListHandler_def parse_or_bad_request_def string_generator_def Let_def bind_def try_catch_def split: if_splits)
qed

text \<open>Requests to other handlers do not depend on what a send does.\<close>

lemma serve_other:
  "sr_handler q \<noteq> Handler_Dialog_Send \<Longrightarrow> serve (E\<lparr>env_send := send\<rparr>) c q w = serve E c q w"
  by (cases "sr_handler q") (simp_all add: serve_def split: sum.split)

lemma rpc_at_facts: "fst (rpc_at m w) = fst (m (dialogs w))" "dialogs (snd (rpc_at m w)) = snd (m (dialogs w))"
  by (simp_all add: rpc_at_def split: prod.split)

lemma dialogs_faults: "dialogs (w\<lparr>faults := fs\<rparr>) = dialogs w"
  by (cases w) simp

lemma act_keeps_dialogs:
  assumes "act (E\<lparr>env_send := (\<lambda>_ _ _. ret ())\<rparr>) user w w'" and "E = social_environment L R P U H D i"
  shows "dialog_redis (dialogs w') = dialog_redis (dialogs w)"
  using assms(1)
proof (induction rule: act.induct)
  case (messages_listed u w other)
  then show ?case by (simp add: assms(2) social_environment_def rpc_at_facts services_keep)
next
  case (dialog_reset u w other)
  then show ?case by (simp add: assms(2) social_environment_def rpc_at_facts services_keep)
next
  case (unread_read u w)
  then show ?case by (simp add: assms(2) social_environment_def rpc_at_facts services_keep)
qed (simp_all add: dialogs_faults)

lemma other_requests_keep_dialogs:
  assumes "sr_handler q \<noteq> Handler_Dialog_Send" and "E = social_environment L R P U H D i"
  shows "dialog_redis (dialogs (snd (serve E c q w))) = dialog_redis (dialogs w)"
proof -
  let ?E = "E\<lparr>env_send := (\<lambda>_ _ _. ret ())\<rparr>"
  have "(act ?E (caller w q))\<^sup>*\<^sup>* w (snd (serve ?E c q w))" by (rule serve_performs)
  then have "dialog_redis (dialogs (snd (serve ?E c q w))) = dialog_redis (dialogs w)"
    by (induction rule: rtranclp_induct) (simp_all add: act_keeps_dialogs [OF _ assms(2)])
  then show ?thesis by (simp add: serve_other [OF assms(1)])
qed

context chat_env
begin

lemma serve_dialogs:
  fixes w :: "'r social"
  assumes "E = social_environment L R P U H D i" and "w' = snd (serve E c q w)"
  shows "dialog_redis (dialogs w') = dialog_redis (dialogs w)
    \<or> (\<exists>u v x. sr_handler q = Handler_Dialog_Send \<and> caller w q = Some u \<and> gen L (path_arg (sr_http q)) = Some v
        \<and> field_string (JObject (sr_body q)) ''text'' = Inr x
        \<and> dialog_redis (dialogs w') = snd (dialog_send R U (to_str L u) (to_str L v) x (to_str L i) (dialog_redis (dialogs w))))"
proof (cases "sr_handler q = Handler_Dialog_Send \<and> caller w q \<noteq> None")
  case True
  then obtain u where h: "sr_handler q = Handler_Dialog_Send" and u: "caller w q = Some u" by blast
  then have auth: "authorize (auth_cache w) Handler_Dialog_Send (sr_authorization q) = Inr (Some u)"
    by (simp add: caller_def split: sum.splits)
  let ?send = "\<lambda>meta b x. rpc_at (send_via L R U i meta b x)"
  have state: "w' = snd (DialogSendHandler L ?send u (sr_http q) (sr_body q) w)"
    by (simp add: assms serve_def h auth with_user_def json_answer_def bind_def social_environment_def split: prod.split sum.split)
  have sent: "dialog_redis (dialogs (snd (?send (user_metadata L u) b x w)))
      \<in> {dialog_redis (dialogs w), snd (dialog_send R U (to_str L u) b x (to_str L i) (dialog_redis (dialogs w)))}" for b x
    using send_outcome [of i "to_str L u" b x "dialogs w"] by (auto simp: rpc_at_def user_metadata_def split: prod.split)
  from send_handler_outcome [of L ?send u "sr_http q" "sr_body q" w, folded state] show ?thesis
  proof (elim disjE exE conjE)
    fix v x assume "gen L (path_arg (sr_http q)) = Some v" "field_string (JObject (sr_body q)) ''text'' = Inr x"
      "w' = snd (rpc_at (send_via L R U i (user_metadata L u) (to_str L v) x) w)"
    with sent [of "to_str L v" x] h u show ?thesis by auto
  qed simp
next
  case False
  show ?thesis
  proof (cases "sr_handler q = Handler_Dialog_Send")
    case True
    with False have "caller w q = None" by simp
    then have "w' = w"
      using authorized_has_user [of "auth_cache w" Handler_Dialog_Send "sr_authorization q"] True
      by (auto simp: assms(2) serve_def caller_def open_handler_def split: sum.splits)
    then show ?thesis by simp
  next
    case False
    from other_requests_keep_dialogs [OF this assms(1), of c w] show ?thesis by (simp add: assms(2))
  qed
qed

lemma listing_shows_dialog:
  fixes w :: "'r social"
  assumes "E = social_environment L R P U H D i" and "sr_handler q = Handler_Dialog_List" and "caller w q = Some a"
    and "gen L (path_arg (sr_http q)) = Some b" and "dialog_holds R U (dialog_redis (dialogs w)) (to_str L a) (to_str L b) ms"
    and "fst (serve E c q w) = Inr (Answer kOk body)"
  shows "body = json_dump L (JArray (map message_json ms))"
proof -
  let ?reset = "\<lambda>meta b. rpc_at (reset_via R U meta b)" and ?list = "\<lambda>meta b. rpc_at (list_via L R U meta b)"
  let ?t = "snd (reset_via R U (user_metadata L a) (to_str L b) (dialogs w))"
  have auth: "authorize (auth_cache w) Handler_Dialog_List (sr_authorization q) = Inr (Some a)"
    using assms(2,3) by (simp add: caller_def split: sum.splits)
  have "fst (DialogListHandler L ?reset ?list a (sr_http q) w) = Inr (kOk, body)"
    using assms(6)
    by (auto simp: assms(1) serve_def assms(2) auth with_user_def text_answer_def bind_def social_environment_def
        split: prod.splits sum.splits)
  from list_handler_outcome [OF assms(4) this] obtain ms' where ms': "body = json_dump L (JArray (map message_json ms'))"
    "fst (?list (user_metadata L a) (to_str L b) (snd (?reset (user_metadata L a) (to_str L b) w))) = Inr ms'" by blast
  have "dialog_redis ?t = dialog_redis (dialogs w)" by (rule services_keep)
  moreover have "fst (list_via L R U [(''x-user-id'', to_str L a)] (to_str L b) ?t) = Inr ms'"
    using ms'(2) unfolding rpc_at_facts by (simp add: user_metadata_def)
  ultimately have "ms' = ms" using list_outcome [of ?t "to_str L a" "to_str L b" ms ms'] assms(5) by simp
  with ms'(1) show ?thesis by simp
qed

end


section \<open>Runs of the whole system\<close>

text \<open>
  Requests, each with a message identifier that no message has yet (they are drawn at random);
  replication, the token cache and the consumer of post events; the counter service and whatever
  else leaves the dialogs and the monolith's data alone.
\<close>

inductive social_step :: "lib \<Rightarrow> 'r redis \<Rightarrow> planner \<Rightarrow> lua \<Rightarrow> std_hash \<Rightarrow> dates \<Rightarrow> 'r social \<Rightarrow> 'r social \<Rightarrow> bool"
  for L R P U H D
where
  request: "fresh_id R (dialog_redis (dialogs w)) (to_str L i) \<Longrightarrow>
    social_step L R P U H D w (snd (serve (social_environment L R P U H D i) c q w))"
| server_moves: "server_step (social_environment L R P U H D i) w w' \<Longrightarrow> dialogs w' = dialogs w \<Longrightarrow>
    social_step L R P U H D w w'"
| services_move: "same_app w w' \<Longrightarrow> dialog_redis (dialogs w') = dialog_redis (dialogs w) \<Longrightarrow> social_step L R P U H D w w'"

inductive social_reach :: "lib \<Rightarrow> 'r redis \<Rightarrow> planner \<Rightarrow> lua \<Rightarrow> std_hash \<Rightarrow> dates \<Rightarrow> 'r social \<Rightarrow> bool"
  for L R P U H D
where
  start: "server_start (social_environment L R P U H D i) w \<Longrightarrow>
    \<forall>a b. dialog_holds R U (dialog_redis (dialogs w)) (to_str L a) (to_str L b) [] \<Longrightarrow> social_reach L R P U H D w"
| step: "social_reach L R P U H D w \<Longrightarrow> social_step L R P U H D w w' \<Longrightarrow> social_reach L R P U H D w'"

text \<open>The dialog of two users, with messages between the two only.\<close>

definition users_dialog :: "lib \<Rightarrow> 'r redis \<Rightarrow> lua \<Rightarrow> 'r social \<Rightarrow> uuid \<Rightarrow> uuid \<Rightarrow> chat_message list \<Rightarrow> bool" where
  "users_dialog L R U w a b ms \<longleftrightarrow> dialog_holds R U (dialog_redis (dialogs w)) (to_str L a) (to_str L b) ms
     \<and> (\<forall>m \<in> set ms. {cm_from m, cm_to m} = {to_str L a, to_str L b})"

context chat_env
begin

lemma uuid_id_ok: "id_ok (to_str L u)"
  using to_str_no_colon by (simp add: id_ok_def)

text \<open>One request: at most one message, from its caller, in the one dialog it names.\<close>

lemma request_dialog:
  assumes "users_dialog L R U w a b ms" and "fresh_id R (dialog_redis (dialogs w)) (to_str L i)"
    and "w' = snd (serve (social_environment L R P U H D i) c q w)"
  shows "users_dialog L R U w' a b ms
    \<or> (\<exists>u v x. sr_handler q = Handler_Dialog_Send \<and> caller w q = Some u \<and> gen L (path_arg (sr_http q)) = Some v
        \<and> field_string (JObject (sr_body q)) ''text'' = Inr x \<and> {u, v} = {a, b}
        \<and> users_dialog L R U w' a b (ms @ [\<lparr>cm_from = to_str L u, cm_to = to_str L v, cm_text = x\<rparr>]))"
  using serve_dialogs [OF refl assms(3)]
proof (elim disjE exE conjE)
  assume "dialog_redis (dialogs w') = dialog_redis (dialogs w)"
  with assms(1) show ?thesis by (simp add: users_dialog_def)
next
  fix u v x
  assume q: "sr_handler q = Handler_Dialog_Send" "caller w q = Some u" "gen L (path_arg (sr_http q)) = Some v"
    "field_string (JObject (sr_body q)) ''text'' = Inr x"
    and w': "dialog_redis (dialogs w') = snd (dialog_send R U (to_str L u) (to_str L v) x (to_str L i) (dialog_redis (dialogs w)))"
  let ?m = "\<lparr>cm_from = to_str L u, cm_to = to_str L v, cm_text = x\<rparr>"
  have same: "{to_str L a, to_str L b} = {to_str L u, to_str L v} \<longleftrightarrow> {u, v} = {a, b}"
    by (auto simp: doubleton_eq_iff to_str_inject)
  have "dialog_holds R U (dialog_redis (dialogs w')) (to_str L a) (to_str L b) (if {u, v} = {a, b} then ms @ [?m] else ms)"
    using send_holds [OF assms(2) _ uuid_id_ok uuid_id_ok uuid_id_ok uuid_id_ok, of a b ms u v x] assms(1)
    unfolding w' same by (simp add: users_dialog_def)
  with assms(1) q same show ?thesis
    by (cases "{u, v} = {a, b}") (auto simp: users_dialog_def)
qed

lemma social_dialogs: "social_reach L R P U H D w \<Longrightarrow> \<exists>ms. users_dialog L R U w a b ms"
proof (induction rule: social_reach.induct)
  case (start i w)
  then show ?case by (intro exI [of _ "[]"]) (simp add: users_dialog_def)
next
  case (step w w')
  then obtain ms where ms: "users_dialog L R U w a b ms" by blast
  show ?case
    using step.hyps(2)
  proof (cases rule: social_step.cases)
    case (request i c q)
    from request_dialog [OF ms this(2,1)] show ?thesis by blast
  qed (use ms in \<open>auto simp: users_dialog_def\<close>)
qed

end

section \<open>A concrete system\<close>

lemma session_dialogs: "dialogs session_social = sample_dialogs" "dialogs registered_social = sample_dialogs"
  by (simp_all add: session_run update_auth_cache_def replicate_now_def registered_social_run)

lemma session_social_reach: "social_reach ref_lib ref_redis ref_planner ref_lua sample_hash sample_dates session_social"
proof -
  let ?step = "social_step ref_lib ref_redis ref_planner ref_lua sample_hash sample_dates"
  have free: "fresh_id ref_redis (dialog_redis (dialogs w)) i" if "dialogs w = sample_dialogs" for w :: "keyspace social" and i
    by (simp add: that empty_fresh)
  have start: "social_reach ref_lib ref_redis ref_planner ref_lua sample_hash sample_dates sample_social"
    using sample_social_start unfolding sample_environment_def by (rule social_reach.start) (simp add: empty_dialog)
  have "?step sample_social registered_social"
    unfolding registered_social_def sample_environment_def by (rule social_step.request) (simp add: empty_fresh)
  moreover obtain v where v: "?step registered_social v" "session_social = update_auth_cache (kIncremental 4) (replicate_now v)"
    unfolding session_social_def sample_environment_def using social_step.request free session_dialogs(2) by blast
  moreover have "?step v (replicate_now v)"
    by (rule social_step.server_moves [OF server_step.replicate]) (cases v, simp add: replicate_now_def)
  moreover have "?step (replicate_now v) session_social"
    unfolding v(2) by (rule social_step.server_moves [OF server_step.update_cache]) (cases v, simp add: update_auth_cache_def)
  ultimately show ?thesis using start by (blast intro: social_reach.step)
qed

definition greeting_request :: server_request where
  "greeting_request = \<lparr>sr_handler = Handler_Dialog_Send, sr_authorization = ''Bearer '' @ session_token,
     sr_http = \<lparr>path_arg = to_str ref_lib (Uuid 1), args = []\<rparr>, sr_body = [(''text'', JString ''hi'')]\<rparr>"

section \<open>Properties\<close>

text \<open>
  C14. Dialogs belong to their participants. In every reachable state each two users have one
  dialog, whose messages are all between the two. A request of any kind, whatever fails, keeps all
  of them and adds at most one, and only if its caller is one of the two and its sender. What the
  caller of a listing is shown is the dialog of the caller and the user named in the path.
\<close>

theorem dialogs_belong_to_participants:
  assumes "chat_env L R U" and "social_reach L R P U H D w" and "fresh_id R (dialog_redis (dialogs w)) (to_str L i)"
    and "serve (social_environment L R P U H D i) c q w = (r, w')"
  shows "\<exists>ms. users_dialog L R U w a b ms
    \<and> (\<exists>ms'. users_dialog L R U w' a b (ms @ ms') \<and> length ms' \<le> 1
        \<and> (\<forall>m \<in> set ms'. \<exists>u. caller w q = Some u \<and> u \<in> {a, b} \<and> cm_from m = to_str L u))
    \<and> (sr_handler q = Handler_Dialog_List \<and> caller w q = Some a \<and> gen L (path_arg (sr_http q)) = Some b
        \<longrightarrow> (\<forall>body. r = Inr (Answer kOk body) \<longrightarrow> body = json_dump L (JArray (map message_json ms))))"
proof -
  obtain ms where ms: "users_dialog L R U w a b ms" using chat_env.social_dialogs [OF assms(1,2)] by blast
  have w': "w' = snd (serve (social_environment L R P U H D i) c q w)" by (simp add: assms(4))
  have "\<exists>ms'. users_dialog L R U w' a b (ms @ ms') \<and> length ms' \<le> 1
      \<and> (\<forall>m \<in> set ms'. \<exists>u. caller w q = Some u \<and> u \<in> {a, b} \<and> cm_from m = to_str L u)"
    using chat_env.request_dialog [OF assms(1) ms assms(3) w']
  proof (elim disjE exE conjE)
    fix u v x assume "{u, v} = {a, b}" "caller w q = Some u"
      "users_dialog L R U w' a b (ms @ [\<lparr>cm_from = to_str L u, cm_to = to_str L v, cm_text = x\<rparr>])"
    then show ?thesis by (intro exI [of _ "[\<lparr>cm_from = to_str L u, cm_to = to_str L v, cm_text = x\<rparr>]"]) auto
  qed (intro exI [of _ "[]"], simp)
  moreover have "body = json_dump L (JArray (map message_json ms))"
    if "sr_handler q = Handler_Dialog_List" "caller w q = Some a" "gen L (path_arg (sr_http q)) = Some b" "r = Inr (Answer kOk body)" for body
  proof -
    have "fst (serve (social_environment L R P U H D i) c q w) = Inr (Answer kOk body)" using assms(4) that(4) by simp
    moreover have "dialog_holds R U (dialog_redis (dialogs w)) (to_str L a) (to_str L b) ms" using ms by (simp add: users_dialog_def)
    ultimately show ?thesis using chat_env.listing_shows_dialog [OF assms(1) refl that(1-3)] by blast
  qed
  ultimately show ?thesis using ms by blast
qed

theorem dialogs_belong_to_participants_witness:
  "\<exists>ms. users_dialog ref_lib ref_redis ref_lua
      (snd (serve sample_environment sample_chance greeting_request session_social)) (Uuid 1) (Uuid 2) ms
    \<and> users_dialog ref_lib ref_redis ref_lua session_social (Uuid 1) (Uuid 2) ms"
proof -
  have fresh: "fresh_id ref_redis (dialog_redis (dialogs session_social)) (to_str ref_lib (Uuid 77))"
    by (simp add: session_dialogs empty_fresh)
  have "bears_token (auth_cache session_social) (sr_authorization greeting_request) (Uuid 20)"
    using session_bears by (simp add: greeting_request_def)
  then have caller: "caller session_social greeting_request = Some (Uuid 20)"
    using authorize_bearer(1) [of Handler_Dialog_Send "auth_cache session_social"]
    by (simp add: caller_def open_handler_def) (simp add: greeting_request_def)
  obtain r w' where run: "serve sample_environment sample_chance greeting_request session_social = (r, w')" by fastforce
  from dialogs_belong_to_participants [OF ref_chat_axioms session_social_reach fresh run [unfolded sample_environment_def],
      of "Uuid 1" "Uuid 2"] obtain ms ms' where "users_dialog ref_lib ref_redis ref_lua session_social (Uuid 1) (Uuid 2) ms"
    "users_dialog ref_lib ref_redis ref_lua w' (Uuid 1) (Uuid 2) (ms @ ms')"
    "\<forall>m \<in> set ms'. \<exists>u. Some (Uuid 20) = Some u \<and> u \<in> {Uuid 1, Uuid 2} \<and> cm_from m = to_str ref_lib u"
    unfolding caller by blast
  then show ?thesis unfolding run by (cases ms') auto
qed

end
