(* ===== verification/Wiring.thy ===== *)
theory Wiring
  imports Messaging Server
begin

text \<open>
  How the three processes put themselves together: the component lists of the \<open>main.cpp\<close>
  files, less what the configuration switches off, and the constructor of every component, as the
  sequence of what it looks up in the component context and declares at the message broker. The
  framework runs the constructors concurrently; a lookup waits until the component it names exists.
  A declaration waits for the broker's answer with a deadline and throws when there is none; once a
  constructor has thrown, the waiting lookups of the others are cancelled and throw too.
\<close>

section \<open>Constructors\<close>

text \<open>
  \<open>Find\<close> is \<open>FindComponent\<close>, \<open>Get_Client\<close> the client of a Redis group (which must be one of
  the groups configured for \<open>key-value-database\<close>), the others are broker declarations.
\<close>

datatype action =
    Find string
  | Get_Client string
  | Exchange string exchange_type
  | Queue string "queue_flag list"
  | Bind string string string

text \<open>The declarations, and what each of them does at the broker.\<close>

fun broker_call :: "action \<Rightarrow> bool" where
  "broker_call (Find n) = False"
| "broker_call (Get_Client g) = False"
| "broker_call a = True"

fun declare_at :: "action \<Rightarrow> topology \<Rightarrow> topology" where
  "declare_at (Exchange name kind) T = DeclareExchange name kind T"
| "declare_at (Queue name flags) T = DeclareQueue name flags T"
| "declare_at (Bind exchange name pattern) T = BindQueue exchange name pattern T"
| "declare_at a T = T"

type_synonym component = "string \<times> action list"

text \<open>
  What the framework brings along: the lists of components it appends, what its components and
  its base classes look up. With it come the variables that the configuration refers to, which are
  set in a file of the deployment.
\<close>

record framework =
  minimal_server_list :: "string list"
  http_client_list :: "string list"
  grpc_client_list :: "string list"
  grpc_server_list :: "string list"
  lib_finds :: "string \<Rightarrow> string list"
  base_finds :: "string list"
  variables :: "string \<Rightarrow> bool option"

definition lib_component :: "framework \<Rightarrow> string \<Rightarrow> component" where
  "lib_component F n = (n, map Find (lib_finds F n))"

definition component_base :: "framework \<Rightarrow> action list" where
  "component_base F = map Find (base_finds F)"

definition CheckerFactory_new :: "action list" where
  "CheckerFactory_new = [Find ''auth-pg-cache'']"

text \<open>A handler that is configured with scopes gets its checker from the registered factory.\<close>

definition handler_base :: "framework \<Rightarrow> string \<Rightarrow> action list" where
  "handler_base F n = component_base F @
     (case map_of static_config n of
        Some config \<Rightarrow> (if hc_scopes config = None then [] else CheckerFactory_new)
      | None \<Rightarrow> [])"

definition DataBase_Name :: string where
  "DataBase_Name = ''postgres-db-1''"

text \<open>
  The cache and the gRPC clients are classes of the framework; what they look up is named in their
  configuration (\<open>pgcomponent\<close>, \<open>factory-component\<close>).
\<close>

definition AuthCache_new :: "framework \<Rightarrow> component" where
  "AuthCache_new F = (''auth-pg-cache'', component_base F @ [Find DataBase_Name])"

definition DialogGrpcClient_new :: "framework \<Rightarrow> component" where
  "DialogGrpcClient_new F = (''dialog-grpc-client'', component_base F @ [Find ''grpc-client-factory''])"

definition CounterGrpcClient_new :: "framework \<Rightarrow> component" where
  "CounterGrpcClient_new F = (''counter-grpc-client'', component_base F @ [Find ''grpc-client-factory''])"

definition PostFeedCache_new :: "framework \<Rightarrow> component" where
  "PostFeedCache_new F = (''post-feed-cache'', component_base F @
     [Find DataBase_Name, Find ''key-value-database'', Get_Client ''feed-redis''])"

definition PostFeedWsManager_new :: "framework \<Rightarrow> component" where
  "PostFeedWsManager_new F = (''post-feed-ws-manager'', component_base F @ [Find DataBase_Name])"

text \<open>
  The components that are configured by a section of their own, the schema each of them gives for
  it (all are closed: \<open>additionalProperties: false\<close>) and the sections of \<open>static_config.yaml\<close>.
\<close>

type_synonym schema = "(string \<times> string) list"

definition PostFeedCache_GetStaticConfigSchema :: schema where
  "PostFeedCache_GetStaticConfigSchema = []"

definition PostFeedWsManager_GetStaticConfigSchema :: schema where
  "PostFeedWsManager_GetStaticConfigSchema = []"

definition WsFanoutConsumer_GetStaticConfigSchema :: schema where
  "WsFanoutConsumer_GetStaticConfigSchema = []"

definition PostFeedPublisher_GetStaticConfigSchema :: schema where
  "PostFeedPublisher_GetStaticConfigSchema = [(''rabbit_name'', ''string''), (''exchange'', ''string'')]"

definition component_sections :: "(string \<times> (string \<times> string) list) list" where
  "component_sections =
     [(''post-feed-cache'', []), (''post-feed-ws-manager'', []), (''ws-fanout-consumer'', []),
      (''post-feed-publisher'', [(''rabbit_name'', ''rabbitmq-driver''), (''exchange'', feed_exchange)])]"

definition component_schemas :: "(string \<times> schema) list" where
  "component_schemas =
     [(''post-feed-cache'', PostFeedCache_GetStaticConfigSchema),
      (''post-feed-ws-manager'', PostFeedWsManager_GetStaticConfigSchema),
      (''ws-fanout-consumer'', WsFanoutConsumer_GetStaticConfigSchema),
      (''post-feed-publisher'', PostFeedPublisher_GetStaticConfigSchema)]"

text \<open>Every section is configured with exactly the properties of its component's schema.\<close>

lemma sections_match_schemas:
  "map_of component_schemas n = Some schema \<Longrightarrow>
   \<exists>section. map_of component_sections n = Some section \<and> map fst section = map fst schema"
  by (auto simp: component_schemas_def component_sections_def PostFeedCache_GetStaticConfigSchema_def
      PostFeedWsManager_GetStaticConfigSchema_def WsFanoutConsumer_GetStaticConfigSchema_def
      PostFeedPublisher_GetStaticConfigSchema_def split: if_splits)

text \<open>\<open>config["key"]\<close> of a component, which reads only properties that its section has.\<close>

definition config_value :: "string \<Rightarrow> string \<Rightarrow> string" where
  "config_value component key =
     the (Option.bind (map_of component_sections component) (\<lambda>section. map_of section key))"

lemma publisher_config [simp]:
  "config_value ''post-feed-publisher'' ''rabbit_name'' = ''rabbitmq-driver''"
  "config_value ''post-feed-publisher'' ''exchange'' = feed_exchange"
  by (simp_all add: config_value_def component_sections_def)

definition PostFeedPublisher_new :: "framework \<Rightarrow> component" where
  "PostFeedPublisher_new F = (''post-feed-publisher'', component_base F @
     (let exchange = config_value ''post-feed-publisher'' ''exchange'' in
      [Find (config_value ''post-feed-publisher'' ''rabbit_name''), Exchange exchange kTopic,
       Queue ''feed-materialization'' [kDurable],
       Bind exchange ''feed-materialization'' ''post.created.#'']))"

text \<open>The base class of a configured consumer looks up the broker named in its configuration.\<close>

definition consumer_base :: "framework \<Rightarrow> action list" where
  "consumer_base F = component_base F @ [Find ''rabbitmq-driver'']"

definition PostFeedConsumer_new :: "framework \<Rightarrow> component" where
  "PostFeedConsumer_new F = (''post-feed-consumer'', consumer_base F @ [Find ''post-feed-cache'', Find ''rabbitmq-driver''])"

definition WsFanoutConsumer_new :: "framework \<Rightarrow> lib \<Rightarrow> uuid \<Rightarrow> component" where
  "WsFanoutConsumer_new F L instance_id = (''ws-fanout-consumer'', component_base F @
     [Find ''rabbitmq-driver'', Find ''post-feed-ws-manager'',
      Exchange ''ws-fanout'' kFanOut, Queue (''ws-fanout-'' @ to_str L instance_id) [kAutoDelete],
      Bind ''ws-fanout'' (''ws-fanout-'' @ to_str L instance_id) []])"

definition handler_component :: "framework \<Rightarrow> string \<Rightarrow> action list \<Rightarrow> component" where
  "handler_component F n looked_up = (n, handler_base F n @ looked_up)"

definition UserRegisterHandler_new :: "framework \<Rightarrow> component" where
  "UserRegisterHandler_new F = handler_component F ''handler-user-register'' [Find DataBase_Name]"

definition UserGetHandler_new :: "framework \<Rightarrow> component" where
  "UserGetHandler_new F = handler_component F ''handler-user-get'' [Find DataBase_Name]"

definition UserSearchHandler_new :: "framework \<Rightarrow> component" where
  "UserSearchHandler_new F = handler_component F ''handler-user-search'' [Find DataBase_Name]"

definition Login_new :: "framework \<Rightarrow> component" where
  "Login_new F = handler_component F ''handler-login'' [Find DataBase_Name, Find ''auth-pg-cache'']"

definition FriendAddHandler_new :: "framework \<Rightarrow> component" where
  "FriendAddHandler_new F = handler_component F ''handler-friend-add'' [Find DataBase_Name, Find ''post-feed-cache'']"

definition FriendDeleteHandler_new :: "framework \<Rightarrow> component" where
  "FriendDeleteHandler_new F = handler_component F ''handler-friend-delete'' [Find DataBase_Name, Find ''post-feed-cache'']"

definition PostCreateHandler_new :: "framework \<Rightarrow> component" where
  "PostCreateHandler_new F = handler_component F ''handler-post-create'' [Find DataBase_Name, Find ''post-feed-publisher'']"

definition PostUpdateHandler_new :: "framework \<Rightarrow> component" where
  "PostUpdateHandler_new F = handler_component F ''handler-post-update'' [Find DataBase_Name, Find ''post-feed-cache'']"

definition PostDeleteHandler_new :: "framework \<Rightarrow> component" where
  "PostDeleteHandler_new F = handler_component F ''handler-post-delete'' [Find DataBase_Name, Find ''post-feed-cache'']"

definition PostGetHandler_new :: "framework \<Rightarrow> component" where
  "PostGetHandler_new F = handler_component F ''handler-post-get'' [Find DataBase_Name]"

definition PostFeedHandler_new :: "framework \<Rightarrow> component" where
  "PostFeedHandler_new F = handler_component F ''handler-post-feed'' [Find ''post-feed-cache'']"

definition PostFeedWsHandler_new :: "framework \<Rightarrow> component" where
  "PostFeedWsHandler_new F = handler_component F ''handler-post-feed-ws'' [Find ''post-feed-ws-manager'']"

definition DialogSendHandler_new :: "framework \<Rightarrow> component" where
  "DialogSendHandler_new F = handler_component F ''handler-dialog-send'' [Find ''dialog-grpc-client'']"

definition DialogListHandler_new :: "framework \<Rightarrow> component" where
  "DialogListHandler_new F = handler_component F ''handler-dialog-list''
     [Find ''dialog-grpc-client'', Find ''counter-grpc-client'']"

definition DialogUnreadHandler_new :: "framework \<Rightarrow> component" where
  "DialogUnreadHandler_new F = handler_component F ''handler-dialog-unread-count'' [Find ''counter-grpc-client'']"

definition DialogServiceComponent_new :: "framework \<Rightarrow> component" where
  "DialogServiceComponent_new F = (''dialog-grpc-service'', component_base F @
     [Find ''key-value-database'', Get_Client ''dialog-redis'', Find ''rabbitmq-driver'',
      Exchange ''messages-exchange'' kTopic])"

definition CounterServiceComponent_new :: "framework \<Rightarrow> component" where
  "CounterServiceComponent_new F = (''counter-grpc-service'', component_base F @
     [Find ''key-value-database'', Get_Client ''counter-redis''])"

definition CounterConsumer_new :: "framework \<Rightarrow> component" where
  "CounterConsumer_new F = (''counter-consumer'', consumer_base F @
     [Find ''key-value-database'', Get_Client ''counter-redis'', Find ''rabbitmq-driver'',
      Exchange ''messages-exchange'' kTopic, Queue ''message-counters'' [kDurable],
      Bind ''messages-exchange'' ''message-counters'' ''message.sent.#''])"

definition CounterReconciler_new :: "framework \<Rightarrow> component" where
  "CounterReconciler_new F = (''counter-reconciler'', component_base F @
     [Find ''key-value-database'', Get_Client ''counter-redis''])"

section \<open>The processes\<close>

datatype process = Monolith | Chat | Counter

definition social_net_main :: "framework \<Rightarrow> lib \<Rightarrow> uuid \<Rightarrow> component list" where
  "social_net_main F L instance_id =
     map (lib_component F) (minimal_server_list F @ [''handler-ping'', ''testsuite-support''] @ http_client_list F @
       [''dns-client'', ''tests-control'', ''congestion-control'', ''secdist'', ''default-secdist-provider'',
        ''key-value-database'', ''rabbitmq-driver'']) @
     [AuthCache_new F] @
     map (lib_component F) ([DataBase_Name] @ grpc_client_list F @ [''grpc-client-factory'']) @
     [DialogGrpcClient_new F, CounterGrpcClient_new F,
      PostFeedCache_new F, PostFeedWsManager_new F, PostFeedPublisher_new F, PostFeedConsumer_new F,
      WsFanoutConsumer_new F L instance_id,
      UserRegisterHandler_new F, UserGetHandler_new F, UserSearchHandler_new F, Login_new F,
      FriendAddHandler_new F, FriendDeleteHandler_new F,
      PostCreateHandler_new F, PostUpdateHandler_new F, PostDeleteHandler_new F, PostGetHandler_new F,
      PostFeedHandler_new F, PostFeedWsHandler_new F,
      DialogSendHandler_new F, DialogListHandler_new F, DialogUnreadHandler_new F]"

definition chat_main :: "framework \<Rightarrow> component list" where
  "chat_main F =
     map (lib_component F) (minimal_server_list F @ [''handler-ping'', ''handler-server-monitor'', ''testsuite-support'',
        ''tests-control'', ''dns-client'', ''congestion-control'', ''secdist'', ''default-secdist-provider'',
        ''key-value-database'', ''rabbitmq-driver''] @ grpc_server_list F) @
     [DialogServiceComponent_new F]"

definition counter_main :: "framework \<Rightarrow> component list" where
  "counter_main F =
     map (lib_component F) (minimal_server_list F @ [''handler-ping'', ''testsuite-support'',
        ''tests-control'', ''dns-client'', ''congestion-control'', ''secdist'', ''default-secdist-provider'',
        ''key-value-database'', ''rabbitmq-driver''] @ grpc_server_list F) @
     [CounterServiceComponent_new F, CounterConsumer_new F, CounterReconciler_new F]"

fun registered :: "framework \<Rightarrow> lib \<Rightarrow> uuid \<Rightarrow> process \<Rightarrow> component list" where
  "registered F L i Monolith = social_net_main F L i"
| "registered F L i Chat = chat_main F"
| "registered F L i Counter = counter_main F"

text \<open>
  \<open>load-enabled\<close> of a component's section. It is set for three components of the framework; a
  variable that no file defines counts as a missing property, and without the property a component
  is loaded.
\<close>

definition load_enabled :: "framework \<Rightarrow> process \<Rightarrow> string \<Rightarrow> bool" where
  "load_enabled F p n \<longleftrightarrow>
     (if n = ''congestion-control'' then False
      else if n = ''tests-control'' then variables F ''is-testing'' \<noteq> Some False
      else if n = ''http-client-core'' \<and> p = Monolith then variables F ''is_testing'' \<noteq> Some False
      else True)"

definition component_list :: "framework \<Rightarrow> lib \<Rightarrow> uuid \<Rightarrow> process \<Rightarrow> component list" where
  "component_list F L i p = filter (\<lambda>c. load_enabled F p (fst c)) (registered F L i p)"

text \<open>The groups under \<open>key-value-database\<close> in each process's configuration.\<close>

fun redis_groups :: "process \<Rightarrow> string list" where
  "redis_groups Monolith = [''feed-redis'']"
| "redis_groups Chat = [''dialog-redis'']"
| "redis_groups Counter = [''counter-redis'']"

section \<open>Starting\<close>

text \<open>The constructors that have not ended, the components they made, those that threw, and the broker.\<close>

record startup =
  todo :: "string \<rightharpoonup> action list"
  created :: "string set"
  thrown :: "string set"
  topo :: topology

text \<open>
  One step of one constructor. A lookup waits for the component; when a constructor has thrown, it
  is cancelled. A call of the broker succeeds, or it throws, before or after its effect. A finished
  constructor creates its component. The components of the framework, \<open>fragile\<close>, may throw for
  reasons of their own (no connection, no first update of the cache).
\<close>

inductive startup_step :: "string list \<Rightarrow> string set \<Rightarrow> startup \<Rightarrow> startup \<Rightarrow> bool"
  for groups :: "string list" and fragile :: "string set"
where
  found: "todo s n = Some (Find m # rest) \<Longrightarrow> m \<in> created s \<Longrightarrow>
    startup_step groups fragile s (s\<lparr>todo := (todo s)(n \<mapsto> rest)\<rparr>)"
| got_client: "todo s n = Some (Get_Client g # rest) \<Longrightarrow> g \<in> set groups \<Longrightarrow>
    startup_step groups fragile s (s\<lparr>todo := (todo s)(n \<mapsto> rest)\<rparr>)"
| called: "todo s n = Some (a # rest) \<Longrightarrow> broker_call a \<Longrightarrow>
    startup_step groups fragile s (s\<lparr>todo := (todo s)(n \<mapsto> rest), topo := declare_at a (topo s)\<rparr>)"
| call_failed: "todo s n = Some (a # rest) \<Longrightarrow> broker_call a \<Longrightarrow> T = topo s \<or> T = declare_at a (topo s) \<Longrightarrow>
    startup_step groups fragile s (s\<lparr>todo := (todo s)(n := None), thrown := insert n (thrown s), topo := T\<rparr>)"
| cancelled: "todo s n = Some (Find m # rest) \<Longrightarrow> thrown s \<noteq> {} \<Longrightarrow>
    startup_step groups fragile s (s\<lparr>todo := (todo s)(n := None), thrown := insert n (thrown s)\<rparr>)"
| broke: "todo s n = Some rest \<Longrightarrow> n \<in> fragile \<Longrightarrow>
    startup_step groups fragile s (s\<lparr>todo := (todo s)(n := None), thrown := insert n (thrown s)\<rparr>)"
| constructed: "todo s n = Some [] \<Longrightarrow>
    startup_step groups fragile s (s\<lparr>todo := (todo s)(n := None), created := insert n (created s)\<rparr>)"

inductive_cases startup_stepE: "startup_step groups fragile s t"

definition startup_begin :: "component list \<Rightarrow> topology \<Rightarrow> startup" where
  "startup_begin cs T = \<lparr>todo = map_of cs, created = {}, thrown = {}, topo = T\<rparr>"

text \<open>A process has started when all its constructors have ended and none has thrown.\<close>

definition started :: "startup \<Rightarrow> bool" where
  "started s \<longleftrightarrow> todo s = Map.empty \<and> thrown s = {}"

lemmas constructors = AuthCache_new_def DialogGrpcClient_new_def CounterGrpcClient_new_def PostFeedCache_new_def PostFeedWsManager_new_def
  PostFeedPublisher_new_def PostFeedConsumer_new_def WsFanoutConsumer_new_def UserRegisterHandler_new_def UserGetHandler_new_def
  UserSearchHandler_new_def Login_new_def FriendAddHandler_new_def FriendDeleteHandler_new_def PostCreateHandler_new_def
  PostUpdateHandler_new_def PostDeleteHandler_new_def PostGetHandler_new_def PostFeedHandler_new_def PostFeedWsHandler_new_def
  DialogSendHandler_new_def DialogListHandler_new_def DialogUnreadHandler_new_def DialogServiceComponent_new_def CounterServiceComponent_new_def
  CounterConsumer_new_def CounterReconciler_new_def

section \<open>Progress\<close>

definition size_todo :: "(string \<rightharpoonup> action list) \<Rightarrow> nat" where
  "size_todo m = (\<Sum>n \<in> dom m. Suc (length (the (m n))))"

lemma size_todo_split:
  assumes "finite (dom m)" and "n \<in> dom m"
  shows "size_todo m = Suc (length (the (m n))) + size_todo (m(n := None))"
proof -
  have "size_todo (m(n := None)) = (\<Sum>k \<in> dom m - {n}. Suc (length (the (m k))))"
    unfolding size_todo_def by (rule sum.cong) auto
  with sum.remove [OF assms, of "\<lambda>k. Suc (length (the (m k)))"] show ?thesis by (simp add: size_todo_def)
qed

lemma size_todo_upd:
  assumes "m n = Some (a # rest)" and "finite (dom m)"
  shows "size_todo m = Suc (size_todo (m(n \<mapsto> rest)))"
  using size_todo_split [of m n] size_todo_split [of "m(n \<mapsto> rest)" n] assms domI [of m n] by simp

lemma size_todo_del:
  assumes "m n = Some []" and "finite (dom m)"
  shows "size_todo m = Suc (size_todo (m(n := None)))"
  using size_todo_split [of m n] assms by auto

text \<open>What a declaration that was made leaves at the broker; later declarations take nothing away.\<close>

fun declared :: "action \<Rightarrow> topology \<Rightarrow> bool" where
  "declared (Exchange e k) T = ((e, k) \<in> set (exchanges T))"
| "declared (Queue q flags) T = ((q, flags) \<in> set (declared_queues T))"
| "declared (Bind e q p) T = ((e, q, p) \<in> set (bindings T))"
| "declared a T = True"

lemma declare_at_declared: "declared a (declare_at a T)"
  by (cases a) simp_all

lemma declared_mono: "declared b T \<Longrightarrow> declared b (declare_at a T)"
  by (cases a; cases b; simp)

text \<open>
  The state of a start from the components \<open>cs\<close>: every constructor that has not thrown has run a
  prefix of its actions, whose declarations the broker knows; what is created has run all of them.
\<close>

definition startup_inv :: "(string \<rightharpoonup> action list) \<Rightarrow> startup \<Rightarrow> bool" where
  "startup_inv cs s \<longleftrightarrow> finite (dom (todo s)) \<and> dom (todo s) \<subseteq> dom cs \<and>
     created s \<union> thrown s = dom cs - dom (todo s) \<and> created s \<inter> thrown s = {} \<and>
     (\<forall>n as. cs n = Some as \<longrightarrow> n \<notin> thrown s \<longrightarrow>
        (\<exists>ran. as = ran @ (case todo s n of None \<Rightarrow> [] | Some rest \<Rightarrow> rest) \<and> (\<forall>a \<in> set ran. declared a (topo s))))"

lemma startup_invD:
  assumes "startup_inv cs s"
  shows "finite (dom (todo s))" and "dom (todo s) \<subseteq> dom cs" and "created s \<union> thrown s = dom cs - dom (todo s)"
    and "created s \<inter> thrown s = {}"
    and "cs n = Some as \<Longrightarrow> n \<notin> thrown s \<Longrightarrow>
        \<exists>ran. as = ran @ (case todo s n of None \<Rightarrow> [] | Some rest \<Rightarrow> rest) \<and> (\<forall>a \<in> set ran. declared a (topo s))"
  using assms unfolding startup_inv_def by blast+

lemma startup_begin_inv: "startup_inv (map_of cs) (startup_begin cs T)"
  by (auto simp: startup_inv_def startup_begin_def finite_dom_map_of)

lemma waiting:
  assumes "startup_inv cs s" and "todo s n = Some rest"
  shows "n \<notin> created s" and "n \<notin> thrown s" and "n \<in> dom cs" and "\<exists>ran. cs n = Some (ran @ rest)"
proof -
  show n: "n \<notin> created s" "n \<notin> thrown s" "n \<in> dom cs"
    using startup_invD(2,3) [OF assms(1)] assms(2) by blast+
  then obtain as where as: "cs n = Some as" by blast
  from startup_invD(5) [OF assms(1) as n(2)] assms(2) as show "\<exists>ran. cs n = Some (ran @ rest)" by auto
qed

text \<open>A constructor that goes on, one that throws and one that ends.\<close>

lemma startup_inv_run:
  assumes inv: "startup_inv cs s" and n: "todo s n = Some (a # rest)"
    and a: "declared a T" and mono: "\<And>b. declared b (topo s) \<Longrightarrow> declared b T"
  shows "startup_inv cs (s\<lparr>todo := (todo s)(n \<mapsto> rest), topo := T\<rparr>)
    \<and> size_todo (todo s) = Suc (size_todo ((todo s)(n \<mapsto> rest)))"
proof -
  have "\<exists>ran. as = ran @ (case ((todo s)(n \<mapsto> rest)) k of None \<Rightarrow> [] | Some rest \<Rightarrow> rest) \<and> (\<forall>b \<in> set ran. declared b T)"
    if k: "cs k = Some as" "k \<notin> thrown s" for k as
  proof -
    from startup_invD(5) [OF inv k] obtain ran where ran:
      "as = ran @ (case todo s k of None \<Rightarrow> [] | Some rest \<Rightarrow> rest)" "\<forall>b \<in> set ran. declared b (topo s)" by blast
    with n a mono show ?thesis
      by (cases "k = n") (auto intro: exI [of _ "ran @ [a]"])
  qed
  moreover have "dom ((todo s)(n \<mapsto> rest)) = dom (todo s)" using n by auto
  ultimately have "startup_inv cs (s\<lparr>todo := (todo s)(n \<mapsto> rest), topo := T\<rparr>)"
    using startup_invD(1-4) [OF inv] by (simp add: startup_inv_def)
  with size_todo_upd [of "todo s" n, OF n startup_invD(1) [OF inv]] show ?thesis by blast
qed

lemma size_todo_less:
  assumes "m n = Some rest" and "finite (dom m)"
  shows "size_todo (m(n := None)) < size_todo m"
  using size_todo_split [OF assms(2), of n] assms(1) by (simp add: domI)

lemma startup_inv_throw:
  assumes inv: "startup_inv cs s" and n: "todo s n = Some rest" and mono: "\<And>b. declared b (topo s) \<Longrightarrow> declared b T"
  shows "startup_inv cs (s\<lparr>todo := (todo s)(n := None), thrown := insert n (thrown s), topo := T\<rparr>)
    \<and> size_todo ((todo s)(n := None)) < size_todo (todo s)"
proof -
  have "\<exists>ran. as = ran @ (case ((todo s)(n := None)) k of None \<Rightarrow> [] | Some rest \<Rightarrow> rest) \<and> (\<forall>b \<in> set ran. declared b T)"
    if "cs k = Some as" "k \<notin> insert n (thrown s)" for k as
    using startup_invD(5) [OF inv that(1)] that(2) mono by auto
  moreover have "dom ((todo s)(n := None)) = dom (todo s) - {n}" by auto
  moreover have "n \<in> dom (todo s)" using n by blast
  ultimately have "startup_inv cs (s\<lparr>todo := (todo s)(n := None), thrown := insert n (thrown s), topo := T\<rparr>)"
    using startup_invD(1-4) [OF inv] waiting(1,3) [OF inv n] unfolding startup_inv_def by (simp add: dom_def) blast
  with size_todo_less [of "todo s" n, OF n startup_invD(1) [OF inv]] show ?thesis by blast
qed

lemma startup_inv_end:
  assumes inv: "startup_inv cs s" and n: "todo s n = Some []"
  shows "startup_inv cs (s\<lparr>todo := (todo s)(n := None), created := insert n (created s)\<rparr>)
    \<and> size_todo ((todo s)(n := None)) < size_todo (todo s)"
proof -
  have "\<exists>ran. as = ran @ (case ((todo s)(n := None)) k of None \<Rightarrow> [] | Some rest \<Rightarrow> rest)
      \<and> (\<forall>b \<in> set ran. declared b (topo s))" if "cs k = Some as" "k \<notin> thrown s" for k as
    using startup_invD(5) [OF inv that] n by (cases "k = n") simp_all
  moreover have "dom ((todo s)(n := None)) = dom (todo s) - {n}" by auto
  moreover have "n \<in> dom (todo s)" using n by blast
  ultimately have "startup_inv cs (s\<lparr>todo := (todo s)(n := None), created := insert n (created s)\<rparr>)"
    using startup_invD(1-4) [OF inv] waiting(2,3) [OF inv n] unfolding startup_inv_def by (simp add: dom_def) blast
  with size_todo_less [of "todo s" n, OF n startup_invD(1) [OF inv]] show ?thesis by blast
qed

lemma startup_step_inv:
  assumes "startup_step groups fragile s t" and "startup_inv cs s"
  shows "startup_inv cs t \<and> size_todo (todo t) < size_todo (todo s)"
  using assms
proof (induction rule: startup_step.induct)
  case (found s n m rest)
  from startup_inv_run [OF found.prems found.hyps(1), of "topo s"] show ?case by (simp add: fun_upd_def)
next
  case (got_client s n g rest)
  from startup_inv_run [OF got_client.prems got_client.hyps(1), of "topo s"] show ?case by (simp add: fun_upd_def)
next
  case (called s n a rest)
  from startup_inv_run [OF called.prems called.hyps(1) declare_at_declared declared_mono] show ?case by (simp add: fun_upd_def)
next
  case (call_failed s n a rest T)
  from call_failed.hyps(3) have "declared b (topo s) \<Longrightarrow> declared b T" for b using declared_mono by blast
  from startup_inv_throw [OF call_failed.prems call_failed.hyps(1) this] show ?case by (simp add: fun_upd_def)
next
  case (cancelled s n m rest)
  from startup_inv_throw [OF cancelled.prems cancelled.hyps(1), of "topo s"] show ?case by (simp add: fun_upd_def)
next
  case (broke s n rest)
  from startup_inv_throw [OF broke.prems broke.hyps(1), of "topo s"] show ?case by (simp add: fun_upd_def)
next
  case (constructed s n)
  from startup_inv_end [OF constructed.prems constructed.hyps] show ?case by (simp add: fun_upd_def)
qed

text \<open>What has thrown first: a component of the framework, or one that calls the broker.\<close>

definition calls_broker :: "(string \<rightharpoonup> action list) \<Rightarrow> string \<Rightarrow> bool" where
  "calls_broker cs n \<longleftrightarrow> (\<exists>as a. cs n = Some as \<and> a \<in> set as \<and> broker_call a)"

definition blame :: "string set \<Rightarrow> (string \<rightharpoonup> action list) \<Rightarrow> startup \<Rightarrow> bool" where
  "blame fragile cs s \<longleftrightarrow> (thrown s = {} \<or> (\<exists>n \<in> thrown s. n \<in> fragile \<or> calls_broker cs n))"

lemma blame_step:
  assumes "startup_step groups fragile s t" and "startup_inv cs s" and "blame fragile cs s"
  shows "blame fragile cs t"
  using assms
proof (induction rule: startup_step.induct)
  case (call_failed s n a rest T)
  from waiting(4) [OF call_failed.prems(1) call_failed.hyps(1)] call_failed.hyps(2)
  have "calls_broker cs n" by (auto simp: calls_broker_def)
  then show ?case by (simp add: blame_def)
qed (auto simp: blame_def)

text \<open>
  Components that can be started: all that a constructor looks up is in the list, with a lower
  rank, and its Redis groups are configured.
\<close>

definition resolvable :: "(string \<Rightarrow> nat \<times> nat) \<Rightarrow> string list \<Rightarrow> component list \<Rightarrow> bool" where
  "resolvable rank groups cs \<longleftrightarrow> (\<forall>(n, as) \<in> set cs. \<forall>a \<in> set as.
     (case a of
        Find m \<Rightarrow> m \<in> fst ` set cs \<and> (rank m, rank n) \<in> less_than <*lex*> less_than
      | Get_Client g \<Rightarrow> g \<in> set groups
      | _ \<Rightarrow> True))"

text \<open>While a constructor has not ended, some step can be taken; as long as none has thrown, none has to throw.\<close>

lemma startup_progress:
  assumes inv: "startup_inv (map_of cs) s" and res: "resolvable rank groups cs" and "todo s \<noteq> Map.empty"
  shows "\<exists>t. startup_step groups fragile s t \<and> (thrown s = {} \<longrightarrow> thrown t = {})"
proof -
  have wf: "wf (inv_image (less_than <*lex*> less_than) rank)" by (intro wf_inv_image wf_lex_prod wf_less_than)
  have "dom (todo s) \<noteq> {}" using assms(3) by simp
  then obtain n where n: "n \<in> dom (todo s)"
    and least: "\<And>m. (rank m, rank n) \<in> less_than <*lex*> less_than \<Longrightarrow> m \<notin> dom (todo s)"
    using wfE_min [OF wf, of _ "dom (todo s)"] by (metis ex_in_conv in_inv_image)
  then obtain rest where rest: "todo s n = Some rest" by blast
  obtain ran where as: "map_of cs n = Some (ran @ rest)" using waiting(4) [OF inv rest] by blast
  have ok: "case a of Find m \<Rightarrow> m \<in> fst ` set cs \<and> (rank m, rank n) \<in> less_than <*lex*> less_than
      | Get_Client g \<Rightarrow> g \<in> set groups | _ \<Rightarrow> True" if "a \<in> set rest" for a
    using res map_of_SomeD [OF as] that unfolding resolvable_def by fastforce
  show ?thesis
  proof (cases rest)
    case Nil
    with rest have "todo s n = Some []" by simp
    from startup_step.constructed [OF this] show ?thesis by (intro exI conjI) (assumption, simp)
  next
    case (Cons a rest')
    with rest have todo: "todo s n = Some (a # rest')" by simp
    show ?thesis
    proof (cases "broker_call a")
      case True
      from startup_step.called [OF todo this] show ?thesis by (intro exI conjI) (assumption, simp)
    next
      case False
      then consider m where "a = Find m" | g where "a = Get_Client g" by (cases a) simp_all
      then show ?thesis
      proof cases
        case (1 m)
        with ok [of a] Cons least have "m \<in> fst ` set cs" "m \<notin> dom (todo s)" by auto
        then have "m \<in> created s \<or> thrown s \<noteq> {}"
          using startup_invD(3) [OF inv] by (auto simp: dom_map_of_conv_image_fst)
        with startup_step.found [of s n m rest'] startup_step.cancelled [of s n m rest'] todo show ?thesis
          unfolding 1 by (metis simps(3) startup.select_convs(3) startup.surjective startup.update_convs(1))
      next
        case (2 g)
        with ok [of a] Cons have "g \<in> set groups" by simp
        from startup_step.got_client [OF todo [unfolded 2] this] show ?thesis by (intro exI conjI) (assumption, simp)
      qed
    qed
  qed
qed

text \<open>No start makes more steps than there are actions and components.\<close>

lemma startup_run:
  assumes "(startup_step groups fragile ^^ k) (startup_begin cs T) s"
  shows "startup_inv (map_of cs) s \<and> blame fragile (map_of cs) s \<and> k + size_todo (todo s) \<le> size_todo (map_of cs)"
  using assms
proof (induction k arbitrary: s)
  case 0
  then have s: "s = startup_begin cs T" by simp
  show ?case unfolding s using startup_begin_inv [of cs T] by (simp add: startup_begin_def blame_def)
next
  case (Suc k)
  then obtain r where r: "(startup_step groups fragile ^^ k) (startup_begin cs T) r" "startup_step groups fragile r s" by auto
  from Suc.IH [OF r(1)] startup_step_inv [OF r(2)] blame_step [OF r(2)] show ?case by fastforce
qed

lemma startup_reach:
  "(startup_step groups fragile)\<^sup>*\<^sup>* (startup_begin cs T) s \<Longrightarrow> startup_inv (map_of cs) s"
  using startup_run rtranclp_imp_relpowp by metis

lemma startup_ended:
  assumes "startup_inv (map_of cs) s" and "todo s = Map.empty"
  shows "created s \<union> thrown s = fst ` set cs" and "created s \<inter> thrown s = {}"
  using startup_invD(3,4) [OF assms(1)] assms(2) by (simp_all add: dom_map_of_conv_image_fst)

text \<open>In a process that has started, all components exist and all their declarations were made.\<close>

lemma startup_finished:
  assumes "startup_inv (map_of cs) s" and "started s"
  shows "created s = fst ` set cs"
    and "map_of cs n = Some as \<Longrightarrow> a \<in> set as \<Longrightarrow> declared a (topo s)"
proof -
  have s: "todo s = Map.empty" "thrown s = {}" using assms(2) by (simp_all add: started_def)
  show "created s = fst ` set cs" using startup_ended(1) [OF assms(1) s(1)] s(2) by simp
  show "declared a (topo s)" if "map_of cs n = Some as" "a \<in> set as"
    using startup_invD(5) [OF assms(1) that(1)] that(2) s by auto
qed

text \<open>Every start in which nothing has thrown can be completed.\<close>

lemma startup_completable:
  assumes "startup_inv (map_of cs) s" and "resolvable rank groups cs" and "thrown s = {}"
  shows "\<exists>t. (startup_step groups fragile)\<^sup>*\<^sup>* s t \<and> started t"
  using assms(1,3)
proof (induction "size_todo (todo s)" arbitrary: s rule: less_induct)
  case less
  show ?case
  proof (cases "todo s = Map.empty")
    case True
    with less.prems show ?thesis by (auto simp: started_def)
  next
    case False
    from startup_progress [OF less.prems(1) assms(2) this, of fragile] less.prems(2) obtain t where
      t: "startup_step groups fragile s t" "thrown t = {}" by blast
    from startup_step_inv [OF t(1) less.prems(1)] less.hyps [of t] t(2) obtain u where
      "(startup_step groups fragile)\<^sup>*\<^sup>* t u" "started u" by blast
    with t(1) show ?thesis by (blast intro: converse_rtranclp_into_rtranclp)
  qed
qed

section \<open>The framework\<close>

text \<open>The library components of each process, those of them that are loaded, and the components of the repository.\<close>

fun registered_names :: "framework \<Rightarrow> process \<Rightarrow> string list" where
  "registered_names F Monolith = minimal_server_list F @ [''handler-ping'', ''testsuite-support''] @ http_client_list F @
     [''dns-client'', ''tests-control'', ''congestion-control'', ''secdist'', ''default-secdist-provider'',
      ''key-value-database'', ''rabbitmq-driver'', ''postgres-db-1''] @ grpc_client_list F @ [''grpc-client-factory'']"
| "registered_names F Chat = minimal_server_list F @ [''handler-ping'', ''handler-server-monitor'', ''testsuite-support'',
      ''tests-control'', ''dns-client'', ''congestion-control'', ''secdist'', ''default-secdist-provider'',
      ''key-value-database'', ''rabbitmq-driver''] @ grpc_server_list F"
| "registered_names F Counter = minimal_server_list F @ [''handler-ping'', ''testsuite-support'',
      ''tests-control'', ''dns-client'', ''congestion-control'', ''secdist'', ''default-secdist-provider'',
      ''key-value-database'', ''rabbitmq-driver''] @ grpc_server_list F"

definition library_names :: "framework \<Rightarrow> process \<Rightarrow> string list" where
  "library_names F p = filter (load_enabled F p) (registered_names F p)"

definition base_components :: "string list" where
  "base_components = [''auth-pg-cache'', ''dialog-grpc-client'', ''counter-grpc-client'', ''post-feed-cache'',
     ''post-feed-ws-manager'', ''post-feed-publisher'']"

definition top_components :: "string list" where
  "top_components = [''post-feed-consumer'', ''ws-fanout-consumer'',
     ''handler-user-register'', ''handler-user-get'', ''handler-user-search'', ''handler-login'',
     ''handler-friend-add'', ''handler-friend-delete'', ''handler-post-create'', ''handler-post-update'',
     ''handler-post-delete'', ''handler-post-get'', ''handler-post-feed'', ''handler-post-feed-ws'',
     ''handler-dialog-send'', ''handler-dialog-list'', ''handler-dialog-unread-count'',
     ''dialog-grpc-service'', ''counter-grpc-service'', ''counter-consumer'', ''counter-reconciler'']"

text \<open>The components whose constructors declare something at the broker.\<close>

definition broker_callers :: "string set" where
  "broker_callers = {''post-feed-publisher'', ''ws-fanout-consumer'', ''dialog-grpc-service'', ''counter-consumer''}"

definition component_rank :: "(string \<Rightarrow> nat) \<Rightarrow> string \<Rightarrow> nat \<times> nat" where
  "component_rank lib_rank n = (if n \<in> set top_components then 2 else if n \<in> set base_components then 1 else 0, lib_rank n)"

text \<open>Lookups that go to the library or from the top components to the base ones.\<close>

definition lookup_ok :: "framework \<Rightarrow> process \<Rightarrow> string list \<Rightarrow> string \<Rightarrow> action \<Rightarrow> bool" where
  "lookup_ok F p names n a \<longleftrightarrow> (case a of
     Find m \<Rightarrow> m \<in> set (library_names F p) \<or> (m \<in> set base_components \<and> m \<in> set names \<and> n \<in> set top_components)
   | Get_Client g \<Rightarrow> g \<in> set (redis_groups p)
   | _ \<Rightarrow> True)"

definition own_ok :: "framework \<Rightarrow> process \<Rightarrow> string list \<Rightarrow> component \<Rightarrow> bool" where
  "own_ok F p names c \<longleftrightarrow> (fst c \<in> set base_components \<or> fst c \<in> set top_components)
     \<and> (\<forall>a \<in> set (snd c). lookup_ok F p names (fst c) a)"

text \<open>The repository's components of the monolith after the login cache.\<close>

abbreviation social_net_own :: "framework \<Rightarrow> lib \<Rightarrow> uuid \<Rightarrow> component list" where
  "social_net_own F L i \<equiv>
     [DialogGrpcClient_new F, CounterGrpcClient_new F,
      PostFeedCache_new F, PostFeedWsManager_new F, PostFeedPublisher_new F, PostFeedConsumer_new F,
      WsFanoutConsumer_new F L i,
      UserRegisterHandler_new F, UserGetHandler_new F, UserSearchHandler_new F, Login_new F,
      FriendAddHandler_new F, FriendDeleteHandler_new F,
      PostCreateHandler_new F, PostUpdateHandler_new F, PostDeleteHandler_new F, PostGetHandler_new F,
      PostFeedHandler_new F, PostFeedWsHandler_new F,
      DialogSendHandler_new F, DialogListHandler_new F, DialogUnreadHandler_new F]"

text \<open>Every registered component comes from the framework or is one of the repository's.\<close>

definition own_components :: "framework \<Rightarrow> lib \<Rightarrow> uuid \<Rightarrow> process \<Rightarrow> component list" where
  "own_components F L i p =
     (case p of
        Monolith \<Rightarrow> AuthCache_new F # social_net_own F L i
      | Chat \<Rightarrow> [DialogServiceComponent_new F]
      | Counter \<Rightarrow> [CounterServiceComponent_new F, CounterConsumer_new F, CounterReconciler_new F])"

text \<open>Constructors that do not call the broker, and components whose constructors do not or are known to.\<close>

definition silent :: "action list \<Rightarrow> bool" where
  "silent as \<longleftrightarrow> (\<forall>a \<in> set as. \<not> broker_call a)"

lemma silent_simps:
  "silent []" "silent (as @ bs) \<longleftrightarrow> silent as \<and> silent bs" "silent (Find n # as) \<longleftrightarrow> silent as"
  "silent (Get_Client g # as) \<longleftrightarrow> silent as" "silent (map Find ns)"
  by (auto simp: silent_def)

lemma silent_bases: "silent (component_base F)" "silent (consumer_base F)" "silent (handler_base F n)"
  by (simp_all add: component_base_def consumer_base_def handler_base_def CheckerFactory_new_def silent_simps split: option.split)

definition quiet :: "component \<Rightarrow> bool" where
  "quiet c \<longleftrightarrow> silent (snd c)
     \<or> fst c \<in> broker_callers"

lemma quiet_silent: "silent as \<Longrightarrow> quiet (n, as)"
  by (simp add: quiet_def)

text \<open>
  What the code relies on: the loaded library components of a process look up only loaded library
  components of that process and not each other in a circle, and so do the base classes; no library
  component has the name of one of the repository's.
\<close>

locale startup_framework =
  fixes F :: framework and lib_rank :: "string \<Rightarrow> nat"
  assumes lib_closed: "n \<in> set (library_names F p) \<Longrightarrow> m \<in> set (lib_finds F n) \<Longrightarrow>
      m \<in> set (library_names F p) \<and> lib_rank m < lib_rank n"
    and base_closed: "set (base_finds F) \<subseteq> set (library_names F p)"
    and no_clash: "n \<in> set (registered_names F p) \<Longrightarrow> n \<notin> set base_components \<and> n \<notin> set top_components"
begin

lemma library_rank: "n \<in> set (library_names F p) \<Longrightarrow> component_rank lib_rank n = (0, lib_rank n)"
  using no_clash [of n p] by (simp add: component_rank_def library_names_def)

lemma top_base_disjoint: "n \<in> set top_components \<Longrightarrow> n \<notin> set base_components"
  by (auto simp: top_components_def base_components_def)

lemma lookup_okD:
  assumes "lookup_ok F p names n a" and "set (library_names F p) \<subseteq> set names"
    and "n \<in> set base_components \<or> n \<in> set top_components"
  shows "case a of Find m \<Rightarrow> m \<in> set names \<and> (component_rank lib_rank m, component_rank lib_rank n) \<in> less_than <*lex*> less_than
     | Get_Client g \<Rightarrow> g \<in> set (redis_groups p) | _ \<Rightarrow> True"
proof (cases a)
  case (Find m)
  show ?thesis
  proof (cases "m \<in> set (library_names F p)")
    case True
    with assms(2,3) library_rank [OF True] show ?thesis by (auto simp: Find component_rank_def)
  next
    case False
    with assms(1) have m: "m \<in> set base_components" "m \<in> set names" "n \<in> set top_components"
      by (simp_all add: Find lookup_ok_def)
    moreover from m(1) have "m \<notin> set top_components" using top_base_disjoint by blast
    ultimately show ?thesis by (simp add: Find component_rank_def)
  qed
qed (use assms(1) in \<open>simp_all add: lookup_ok_def\<close>)

lemma base_lookups: "a \<in> set (component_base F) \<Longrightarrow> lookup_ok F p names n a"
  using base_closed [of p] by (auto simp: component_base_def lookup_ok_def)

lemma resolvable_list:
  assumes "\<And>n as. (n, as) \<in> set cs \<Longrightarrow>
      (n \<in> set (library_names F p) \<and> (n, as) = lib_component F n)
      \<or> ((n \<in> set base_components \<or> n \<in> set top_components) \<and> (\<forall>a \<in> set as. lookup_ok F p (map fst cs) n a))"
    and "set (library_names F p) \<subseteq> set (map fst cs)"
  shows "resolvable (component_rank lib_rank) (redis_groups p) cs"
  unfolding resolvable_def
proof (intro ballI, clarify)
  fix n as a assume n: "(n, as) \<in> set cs" and a: "a \<in> set as"
  from assms(1) [OF n]
  have "case a of Find m \<Rightarrow> m \<in> set (map fst cs) \<and> (component_rank lib_rank m, component_rank lib_rank n) \<in> less_than <*lex*> less_than
      | Get_Client g \<Rightarrow> g \<in> set (redis_groups p) | _ \<Rightarrow> True"
  proof
    assume lib: "n \<in> set (library_names F p) \<and> (n, as) = lib_component F n"
    with a obtain m where m: "a = Find m" "m \<in> set (lib_finds F n)" by (auto simp: lib_component_def)
    from lib lib_closed [OF _ m(2)] have "m \<in> set (library_names F p)" "lib_rank m < lib_rank n" by blast+
    with lib assms(2) show ?thesis by (auto simp: m(1) library_rank)
  next
    assume "(n \<in> set base_components \<or> n \<in> set top_components) \<and> (\<forall>a \<in> set as. lookup_ok F p (map fst cs) n a)"
    with a lookup_okD [OF _ assms(2)] show ?thesis by blast
  qed
  then show "case a of Find m \<Rightarrow> m \<in> fst ` set cs \<and> (component_rank lib_rank m, component_rank lib_rank n) \<in> less_than <*lex*> less_than
      | Get_Client g \<Rightarrow> g \<in> set (redis_groups p) | _ \<Rightarrow> True" by (cases a) simp_all
qed

lemma lib_component_fst [simp]: "fst (lib_component F n) = n" "map fst (map (lib_component F) ns) = ns"
  by (simp_all add: lib_component_def comp_def)

lemma base_all: "\<forall>a \<in> set (component_base F). lookup_ok F p names n a"
  using base_lookups by blast

lemma handler_all:
  assumes "n \<in> set top_components" and "''auth-pg-cache'' \<in> set names"
  shows "\<forall>a \<in> set (handler_base F n). lookup_ok F p names n a"
proof -
  have "\<forall>a \<in> set CheckerFactory_new. lookup_ok F p names n a"
    using assms by (simp add: CheckerFactory_new_def lookup_ok_def base_components_def)
  then show ?thesis using base_all [of p names n] by (auto simp: handler_base_def split: option.splits)
qed

lemma own_monolith:
  assumes "set base_components \<subseteq> set names"
  shows "list_all (own_ok F Monolith names)
     (AuthCache_new F # social_net_own F L i)"
proof -
  have names: "n \<in> set names" if "n \<in> set base_components" for n using assms that by blast
  have base: "n \<in> set base_components" if "n \<in> {''auth-pg-cache'', ''dialog-grpc-client'', ''counter-grpc-client'',
      ''post-feed-cache'', ''post-feed-ws-manager'', ''post-feed-publisher''}" for n
    using that unfolding base_components_def by auto
  have top: "n \<in> set top_components" if "n \<in> {''post-feed-consumer'', ''ws-fanout-consumer'',
     ''handler-user-register'', ''handler-user-get'', ''handler-user-search'', ''handler-login'',
     ''handler-friend-add'', ''handler-friend-delete'', ''handler-post-create'', ''handler-post-update'',
     ''handler-post-delete'', ''handler-post-get'', ''handler-post-feed'', ''handler-post-feed-ws'',
     ''handler-dialog-send'', ''handler-dialog-list'', ''handler-dialog-unread-count''}" for n
    using that unfolding top_components_def by auto
  note handlers = handler_all [OF top names [OF base], of _ Monolith]
  have lib: "lookup_ok F Monolith names n (Find m)" if "m \<in> {''postgres-db-1'', ''key-value-database'', ''rabbitmq-driver'',
      ''grpc-client-factory''}" for n m
    using that by (auto simp: lookup_ok_def library_names_def load_enabled_def)
  have own: "lookup_ok F Monolith names n (Find m)" if "m \<in> set base_components" "n \<in> set top_components" for n m
    using that names by (simp add: lookup_ok_def)
  have other: "lookup_ok F Monolith names n (Get_Client ''feed-redis'')" "lookup_ok F Monolith names n (Exchange e k)"
    "lookup_ok F Monolith names n (Queue q f)" "lookup_ok F Monolith names n (Bind e q b)" for n e k q f b
    by (simp_all add: lookup_ok_def)
  show ?thesis
    by (simp add: own_ok_def constructors handler_component_def consumer_base_def DataBase_Name_def ball_Un
        base_all handlers lib own other base top)
qed

lemma own_services:
  "own_ok F Chat names (DialogServiceComponent_new F)" "own_ok F Counter names (CounterServiceComponent_new F)"
  "own_ok F Counter names (CounterConsumer_new F)" "own_ok F Counter names (CounterReconciler_new F)"
proof -
  have top: "n \<in> set top_components" if "n \<in> {''dialog-grpc-service'', ''counter-grpc-service'', ''counter-consumer'',
      ''counter-reconciler''}" for n
    using that unfolding top_components_def by auto
  have lib: "lookup_ok F Chat names n (Find m)" "lookup_ok F Counter names n (Find m)"
    if "m \<in> {''key-value-database'', ''rabbitmq-driver''}" for n m
    using that by (auto simp: lookup_ok_def library_names_def load_enabled_def)
  have other: "lookup_ok F Chat names n (Get_Client ''dialog-redis'')" "lookup_ok F Counter names n (Get_Client ''counter-redis'')"
    "lookup_ok F q names n (Exchange e k)" "lookup_ok F q names n (Queue e f)" "lookup_ok F q names n (Bind e d b)" for n q e k d f b
    by (simp_all add: lookup_ok_def)
  show "own_ok F Chat names (DialogServiceComponent_new F)" "own_ok F Counter names (CounterServiceComponent_new F)"
    "own_ok F Counter names (CounterConsumer_new F)" "own_ok F Counter names (CounterReconciler_new F)"
    by (simp_all add: own_ok_def constructors consumer_base_def ball_Un base_all lib other top)
qed

lemma resolvable_own:
  assumes "\<And>c. c \<in> set cs \<Longrightarrow> (fst c \<in> set (library_names F p) \<and> c = lib_component F (fst c)) \<or> own_ok F p (map fst cs) c"
    and "set (library_names F p) \<subseteq> set (map fst cs)"
  shows "resolvable (component_rank lib_rank) (redis_groups p) cs"
  using assms(1) by (intro resolvable_list [OF _ assms(2)]) (force simp: own_ok_def)

text \<open>The components of the repository are not switched off.\<close>

lemma own_loaded:
  assumes "n \<in> set base_components \<or> n \<in> set top_components"
  shows "load_enabled F p n"
  using assms by (auto simp: load_enabled_def base_components_def top_components_def)

lemma registered_set:
  "set (registered F L i p) = lib_component F ` set (registered_names F p) \<union> set (own_components F L i p)"
  by (cases p) (auto simp: social_net_main_def chat_main_def counter_main_def own_components_def DataBase_Name_def)

lemma own_members:
  assumes "set base_components \<subseteq> set names \<or> p \<noteq> Monolith" and "c \<in> set (own_components F L i p)"
  shows "own_ok F p names c"
proof (cases p)
  case Monolith
  with own_monolith [of names L i] assms have "list_all (own_ok F Monolith names) (own_components F L i Monolith)"
    by (simp only: own_components_def process.case) blast
  with assms(2) show ?thesis unfolding Monolith list_all_iff by blast
next
  case Chat
  with assms(2) own_services(1) [of names] show ?thesis by (simp add: own_components_def)
next
  case Counter
  with assms(2) own_services(2-4) [of names] show ?thesis by (auto simp: own_components_def)
qed

lemma own_names: "c \<in> set (own_components F L i p) \<Longrightarrow> fst c \<in> set base_components \<or> fst c \<in> set top_components"
  using own_members [of base_components] by (simp add: own_ok_def)

lemma component_list_set:
  "set (component_list F L i p) = lib_component F ` set (library_names F p) \<union> set (own_components F L i p)"
proof -
  have "load_enabled F p (fst c)" if "c \<in> set (own_components F L i p)" for c
    using own_loaded [OF own_names [OF that]] .
  then show ?thesis by (auto simp: component_list_def registered_set library_names_def)
qed

lemma component_names:
  "set (map fst (component_list F L i p)) = set (library_names F p) \<union> fst ` set (own_components F L i p)"
  by (simp add: component_list_set image_Un image_image)

lemma processes_resolvable: "resolvable (component_rank lib_rank) (redis_groups p) (component_list F L i p)"
proof (rule resolvable_own)
  let ?names = "map fst (component_list F L i p)"
  show "set (library_names F p) \<subseteq> set ?names" unfolding component_names by blast
  fix c assume "c \<in> set (component_list F L i p)"
  then consider n where "n \<in> set (library_names F p)" "c = lib_component F n" | "c \<in> set (own_components F L i p)"
    unfolding component_list_set by blast
  then show "(fst c \<in> set (library_names F p) \<and> c = lib_component F (fst c)) \<or> own_ok F p ?names c"
  proof cases
    case 2
    have "set base_components \<subseteq> set ?names" if "p = Monolith"
      unfolding component_names that by (simp add: own_components_def base_components_def constructors)
    with own_members [OF _ 2, of ?names] show ?thesis by blast
  qed simp
qed

text \<open>The constructors of the components that declare something.\<close>

lemma own_distinct: "distinct (map fst (own_components F L i p))"
  by (cases p) (simp_all add: own_components_def constructors handler_component_def)

lemma map_of_own:
  assumes "c \<in> set (own_components F L i p)"
  shows "map_of (component_list F L i p) (fst c) = Some (snd c)"
proof -
  have only: "as = snd c" if "(fst c, as) \<in> set (component_list F L i p)" for as
  proof -
    have "fst c \<notin> set (library_names F p)"
      using own_names [OF assms] no_clash [of "fst c" p] by (auto simp: library_names_def)
    with that have "(fst c, as) \<in> set (own_components F L i p)"
      unfolding component_list_set by (auto simp: lib_component_def)
    with assms own_distinct [of L i p] show ?thesis by (metis eq_key_imp_eq_value prod.collapse)
  qed
  have "(fst c, snd c) \<in> set (component_list F L i p)" using assms unfolding component_list_set by simp
  then obtain as where "map_of (component_list F L i p) (fst c) = Some as" by (metis not_Some_eq weak_map_of_SomeI)
  with only [OF map_of_SomeD [OF this]] show ?thesis by simp
qed

lemma declaring_components:
  "map_of (component_list F L i Monolith) ''post-feed-publisher'' = Some (snd (PostFeedPublisher_new F))"
  "map_of (component_list F L i Monolith) ''ws-fanout-consumer'' = Some (snd (WsFanoutConsumer_new F L i))"
  "map_of (component_list F L i Chat) ''dialog-grpc-service'' = Some (snd (DialogServiceComponent_new F))"
  "map_of (component_list F L i Counter) ''counter-consumer'' = Some (snd (CounterConsumer_new F))"
proof -
  have own: "PostFeedPublisher_new F \<in> set (own_components F L i Monolith)" "WsFanoutConsumer_new F L i \<in> set (own_components F L i Monolith)"
    "DialogServiceComponent_new F \<in> set (own_components F L i Chat)" "CounterConsumer_new F \<in> set (own_components F L i Counter)"
    by (simp_all add: own_components_def)
  have names: "fst (PostFeedPublisher_new F) = ''post-feed-publisher''" "fst (WsFanoutConsumer_new F L i) = ''ws-fanout-consumer''"
    "fst (DialogServiceComponent_new F) = ''dialog-grpc-service''" "fst (CounterConsumer_new F) = ''counter-consumer''"
    by (simp_all add: constructors)
  show "map_of (component_list F L i Monolith) ''post-feed-publisher'' = Some (snd (PostFeedPublisher_new F))"
    "map_of (component_list F L i Monolith) ''ws-fanout-consumer'' = Some (snd (WsFanoutConsumer_new F L i))"
    "map_of (component_list F L i Chat) ''dialog-grpc-service'' = Some (snd (DialogServiceComponent_new F))"
    "map_of (component_list F L i Counter) ''counter-consumer'' = Some (snd (CounterConsumer_new F))"
    using map_of_own [OF own(1)] map_of_own [OF own(2)] map_of_own [OF own(3)] map_of_own [OF own(4)]
    unfolding names by blast+
qed

text \<open>No other constructor calls the broker.\<close>

lemma own_quiet: "list_all quiet (own_components F L i p)"
proof -
  have four: "quiet (PostFeedPublisher_new F)" "quiet (WsFanoutConsumer_new F L i)" "quiet (DialogServiceComponent_new F)"
    "quiet (CounterConsumer_new F)"
    by (simp_all add: quiet_def broker_callers_def PostFeedPublisher_new_def WsFanoutConsumer_new_def DialogServiceComponent_new_def
        CounterConsumer_new_def)
  note others = AuthCache_new_def DialogGrpcClient_new_def CounterGrpcClient_new_def PostFeedCache_new_def PostFeedWsManager_new_def
    PostFeedConsumer_new_def UserRegisterHandler_new_def UserGetHandler_new_def UserSearchHandler_new_def Login_new_def
    FriendAddHandler_new_def FriendDeleteHandler_new_def PostCreateHandler_new_def PostUpdateHandler_new_def
    PostDeleteHandler_new_def PostGetHandler_new_def PostFeedHandler_new_def PostFeedWsHandler_new_def
    DialogSendHandler_new_def DialogListHandler_new_def DialogUnreadHandler_new_def CounterServiceComponent_new_def
    CounterReconciler_new_def
  show ?thesis
    by (cases p)
      (simp_all only: own_components_def process.case list.pred_inject simp_thms four others handler_component_def quiet_silent
        silent_simps silent_bases)
qed

lemma no_other_calls:
  assumes "(n, as) \<in> set (component_list F L i p)" and "a \<in> set as" and "broker_call a"
  shows "n \<in> broker_callers"
proof -
  have "(n, as) \<in> set (own_components F L i p)"
    using assms unfolding component_list_set by (auto simp: lib_component_def)
  with own_quiet [of L i p] have "quiet (n, as)" by (simp only: list_all_iff)
  with assms(2,3) show ?thesis unfolding quiet_def silent_def fst_conv snd_conv by blast
qed

lemma startup_exists:
  "\<exists>s. (startup_step (redis_groups p) fragile)\<^sup>*\<^sup>* (startup_begin (component_list F L i p) T) s \<and> started s"
  by (rule startup_completable [OF startup_begin_inv processes_resolvable]) (simp add: startup_begin_def)

end

definition ref_framework :: framework where
  "ref_framework = \<lparr>minimal_server_list = [''logging'', ''server''], http_client_list = [''http-client''],
     grpc_client_list = [''grpc-client-common''], grpc_server_list = [''grpc-server''],
     lib_finds = (\<lambda>n. if n = ''logging'' then [] else [''logging'']), base_finds = [''logging''],
     variables = [''is-testing'' \<mapsto> False]\<rparr>"

definition ref_rank :: "string \<Rightarrow> nat" where
  "ref_rank n = (if n = ''logging'' then 0 else 1)"

interpretation ref_startup: startup_framework ref_framework ref_rank
proof
  fix n m p
  assume n: "n \<in> set (library_names ref_framework p)" and "m \<in> set (lib_finds ref_framework n)"
  then have "m = ''logging''" "n \<noteq> ''logging''" by (auto simp: ref_framework_def split: if_splits)
  moreover have "''logging'' \<in> set (library_names ref_framework p)"
    by (cases p) (simp_all add: ref_framework_def library_names_def load_enabled_def)
  ultimately show "m \<in> set (library_names ref_framework p) \<and> ref_rank m < ref_rank n" by (simp add: ref_rank_def)
next
  fix p
  show "set (base_finds ref_framework) \<subseteq> set (library_names ref_framework p)"
    by (cases p) (simp_all add: ref_framework_def library_names_def load_enabled_def)
next
  fix n p assume "n \<in> set (registered_names ref_framework p)"
  then show "n \<notin> set base_components \<and> n \<notin> set top_components"
    by (cases p) (auto simp: ref_framework_def base_components_def top_components_def)
qed

lemmas ref_startup_axioms = ref_startup.startup_framework_axioms

text \<open>With the variables as the deployments set them, the three switches are off, off and not applied.\<close>

lemma ref_switches:
  "\<not> load_enabled ref_framework p ''congestion-control''" "\<not> load_enabled ref_framework p ''tests-control''"
  "load_enabled ref_framework p ''http-client-core''"
  by (simp_all add: load_enabled_def ref_framework_def)

section \<open>Properties\<close>

text \<open>
  C23. Every process starts unless something it depends on fails. In whatever order the
  constructors of a process run, no two of them wait for each other and no lookup names a component
  that is missing or switched off: while a constructor has not ended some step can be taken, and
  one without a failure as long as none has occurred; no start makes more steps than there are
  actions and components. At the end every component that the configuration loads exists or has
  thrown, and nothing has thrown unless a component of the framework did or one of the four
  constructors that declare something at the broker.
\<close>

theorem startup_completes:
  assumes "startup_framework F lib_rank" and "cs = component_list F L i p"
    and "(startup_step (redis_groups p) fragile ^^ k) (startup_begin cs T) s"
  shows "k \<le> size_todo (map_of cs)
    \<and> (todo s \<noteq> Map.empty \<longrightarrow> (\<exists>t. startup_step (redis_groups p) fragile s t \<and> (thrown s = {} \<longrightarrow> thrown t = {})))
    \<and> (todo s = Map.empty \<longrightarrow> created s \<union> thrown s = fst ` set cs \<and> created s \<inter> thrown s = {})
    \<and> (thrown s \<noteq> {} \<longrightarrow> thrown s \<inter> (fragile \<union> broker_callers) \<noteq> {})
    \<and> ''congestion-control'' \<notin> fst ` set cs
    \<and> (variables F ''is-testing'' = Some False \<longrightarrow> ''tests-control'' \<notin> fst ` set cs)"
proof (intro conjI impI)
  from startup_run [OF assms(3)] have inv: "startup_inv (map_of cs) s" and blame: "blame fragile (map_of cs) s"
    and k: "k + size_todo (todo s) \<le> size_todo (map_of cs)" by blast+
  note res = startup_framework.processes_resolvable [OF assms(1), of p L i, folded assms(2)]
  show "k \<le> size_todo (map_of cs)" using k by simp
  show "\<exists>t. startup_step (redis_groups p) fragile s t \<and> (thrown s = {} \<longrightarrow> thrown t = {})" if "todo s \<noteq> Map.empty"
    by (rule startup_progress [OF inv res that])
  show "created s \<union> thrown s = fst ` set cs" "created s \<inter> thrown s = {}" if "todo s = Map.empty"
    using startup_ended [OF inv that] by simp_all
  show "thrown s \<inter> (fragile \<union> broker_callers) \<noteq> {}" if "thrown s \<noteq> {}"
  proof -
    from blame that obtain n where n: "n \<in> thrown s" "n \<in> fragile \<or> calls_broker (map_of cs) n"
      by (auto simp: blame_def)
    have "n \<in> broker_callers" if "calls_broker (map_of cs) n"
    proof -
      from that obtain as a where "(n, as) \<in> set cs" "a \<in> set as" "broker_call a"
        by (auto simp: calls_broker_def dest: map_of_SomeD)
      with startup_framework.no_other_calls [OF assms(1)] show ?thesis unfolding assms(2) by blast
    qed
    with n show ?thesis by blast
  qed
  show "''congestion-control'' \<notin> fst ` set cs"
    "variables F ''is-testing'' = Some False \<Longrightarrow> ''tests-control'' \<notin> fst ` set cs"
    by (auto simp: assms(2) component_list_def load_enabled_def)
qed

theorem startup_completes_witness:
  "\<exists>t. startup_step [''feed-redis''] {''rabbitmq-driver''}
      (startup_begin (component_list ref_framework ref_lib (Uuid 5) Monolith) no_topology) t \<and> thrown t = {}"
proof -
  let ?s = "startup_begin (component_list ref_framework ref_lib (Uuid 5) Monolith) no_topology"
  have run: "(startup_step (redis_groups Monolith) {''rabbitmq-driver''} ^^ 0) ?s ?s" by simp
  have s: "todo ?s = map_of (component_list ref_framework ref_lib (Uuid 5) Monolith)" "thrown ?s = {}"
    by (simp_all add: startup_begin_def)
  have "todo ?s \<noteq> Map.empty"
    unfolding s(1) using ref_startup.declaring_components(1) [of ref_lib "Uuid 5"] by (metis option.distinct(1))
  from mp [OF conjunct1 [OF conjunct2 [OF startup_completes [OF ref_startup_axioms refl run]]] this] s(2)
  show ?thesis by (simp only: redis_groups.simps simp_thms)
qed

text \<open>
  C30. A started process hears its events. Once a process has started, in whatever order its
  constructors ran and whatever the broker knew before, the queues its consumers read exist and
  the broker routes to them: post events to the materialisation queue and fan-out messages to the
  instance's own queue in the monolith, sent messages to the counter queue in the counter service;
  the exchange of sent messages exists when the chat service has started.
\<close>

theorem started_process_hears_its_events:
  assumes "startup_framework F lib_rank" and "topic_broker matches" and "cs = component_list F L i p"
    and "(startup_step (redis_groups p) fragile)\<^sup>*\<^sup>* (startup_begin cs T) s" and "started s"
  shows "(p = Monolith \<longrightarrow> {(''feed-materialization'', [kDurable]), (''ws-fanout-'' @ to_str L i, [kAutoDelete])}
          \<subseteq> set (declared_queues (topo s))
        \<and> ''feed-materialization'' \<in> set (route matches (topo s) (Publication feed_exchange (''post.created.'' @ key) body))
        \<and> ''ws-fanout-'' @ to_str L i \<in> set (route matches (topo s) (Publication ''ws-fanout'' key body)))
    \<and> (p = Counter \<longrightarrow> (''message-counters'', [kDurable]) \<in> set (declared_queues (topo s))
        \<and> ''message-counters'' \<in> set (route matches (topo s) (Publication ''messages-exchange'' (''message.sent.'' @ key) body)))
    \<and> (p = Chat \<longrightarrow> (''messages-exchange'', kTopic) \<in> set (exchanges (topo s)))"
proof -
  note known = startup_finished(2) [OF startup_reach [OF assms(4)] assms(5), unfolded assms(3)]
    and components = startup_framework.declaring_components [OF assms(1)]
    and matching = topic_broker.post_created_matches [OF assms(2), of key] topic_broker.message_sent_matches [OF assms(2), of key]
  have monolith: "declared a (topo s)"
    if "p = Monolith" "a \<in> set (snd (PostFeedPublisher_new F)) \<union> set (snd (WsFanoutConsumer_new F L i))" for a
    using known components(1,2) that by blast
  have counter: "declared a (topo s)" if "p = Counter" "a \<in> set (snd (CounterConsumer_new F))" for a
    using known components(4) that by blast
  have chat: "declared a (topo s)" if "p = Chat" "a \<in> set (snd (DialogServiceComponent_new F))" for a
    using known components(3) that by blast
  show ?thesis
  proof (cases p)
    case Monolith
    note m = monolith [OF Monolith]
    have "(''feed-materialization'', [kDurable]) \<in> set (declared_queues (topo s))" "(feed_exchange, kTopic) \<in> set (exchanges (topo s))"
      "(feed_exchange, ''feed-materialization'', ''post.created.#'') \<in> set (bindings (topo s))"
      using m [of "Queue ''feed-materialization'' [kDurable]"] m [of "Exchange feed_exchange kTopic"]
        m [of "Bind feed_exchange ''feed-materialization'' ''post.created.#''"]
      by (simp_all add: PostFeedPublisher_new_def)
    moreover have "(''ws-fanout-'' @ to_str L i, [kAutoDelete]) \<in> set (declared_queues (topo s))"
      "(''ws-fanout'', kFanOut) \<in> set (exchanges (topo s))"
      "(''ws-fanout'', ''ws-fanout-'' @ to_str L i, []) \<in> set (bindings (topo s))"
      using m [of "Queue (''ws-fanout-'' @ to_str L i) [kAutoDelete]"] m [of "Exchange ''ws-fanout'' kFanOut"]
        m [of "Bind ''ws-fanout'' (''ws-fanout-'' @ to_str L i) []"]
      by (simp_all add: WsFanoutConsumer_new_def)
    ultimately show ?thesis using matching by (auto simp: Monolith set_route)
  next
    case Chat
    with chat [of "Exchange ''messages-exchange'' kTopic"] show ?thesis by (simp add: DialogServiceComponent_new_def)
  next
    case Counter
    note c = counter [OF Counter]
    have "(''message-counters'', [kDurable]) \<in> set (declared_queues (topo s))"
      "(''messages-exchange'', kTopic) \<in> set (exchanges (topo s))"
      "(''messages-exchange'', ''message-counters'', ''message.sent.#'') \<in> set (bindings (topo s))"
      using c [of "Queue ''message-counters'' [kDurable]"] c [of "Exchange ''messages-exchange'' kTopic"]
        c [of "Bind ''messages-exchange'' ''message-counters'' ''message.sent.#''"]
      by (simp_all add: CounterConsumer_new_def)
    with matching show ?thesis by (auto simp: Counter set_route)
  qed
qed

theorem started_process_hears_its_events_witness:
  "\<exists>s. (startup_step [''counter-redis''] {})\<^sup>*\<^sup>*
       (startup_begin (component_list ref_framework ref_lib (Uuid 5) Counter) no_topology) s
     \<and> (''message-counters'', [kDurable]) \<in> set (declared_queues (topo s))"
proof -
  obtain s where s: "(startup_step (redis_groups Counter) {})\<^sup>*\<^sup>*
       (startup_begin (component_list ref_framework ref_lib (Uuid 5) Counter) no_topology) s" "started s"
    using ref_startup.startup_exists by blast
  from started_process_hears_its_events [OF ref_startup_axioms ref_broker_axioms refl this] s show ?thesis by auto
qed

end
