(* ===== verification/Objects.thy ===== *)
theory Objects
  imports Wiring
begin

text \<open>
  The objects behind the components: the members of every class of the repository, the
  constructors that initialise them from the component context, and the start of a process as the
  construction of these objects. A component context is a map from names to objects; a reference
  to a component is its name. The handles that the library's components give out
  (\<open>GetCluster\<close>, \<open>GetClient\<close>) are values that name the component they come from.
\<close>

section \<open>References and handles\<close>

type_synonym reference = string

datatype cluster = Cluster reference
datatype redis_client = Redis_Client reference string
datatype rabbit_client = Rabbit_Client reference
datatype dialog_client = Dialog_Client reference
datatype counter_client = Counter_Client reference

section \<open>The members of the classes\<close>

record AuthCheckerBearer_members =
  acb_auth_cache :: reference
  acb_required_scopes :: "string list"

record CheckerFactory_members =
  cf_auth_cache :: reference

text \<open>What the handler base classes keep: the checker, when authorization is configured.\<close>

record http_handler =
  hh_checker :: "AuthCheckerBearer_members option"

record UserRegisterHandler_members = http_handler +
  urh_pg_cluster :: cluster

record UserGetHandler_members = http_handler +
  ugh_pg_cluster :: cluster

record UserSearchHandler_members = http_handler +
  ush_pg_cluster :: cluster

record Login_members = http_handler +
  login_pg_cluster :: cluster
  login_auth_cache :: reference

record FriendAddHandler_members = http_handler +
  fah_pg_cluster :: cluster
  fah_feed_cache :: reference

record FriendDeleteHandler_members = http_handler +
  fdh_pg_cluster :: cluster
  fdh_feed_cache :: reference

record PostCreateHandler_members = http_handler +
  pch_pg_cluster :: cluster
  pch_publisher :: reference

record PostUpdateHandler_members = http_handler +
  puh_pg_cluster :: cluster
  puh_feed_cache :: reference

record PostDeleteHandler_members = http_handler +
  pdh_pg_cluster :: cluster
  pdh_feed_cache :: reference

record PostGetHandler_members = http_handler +
  pgh_pg_cluster :: cluster

record PostFeedHandler_members = http_handler +
  pfh_feed_cache :: reference

record PostFeedWsHandler_members = http_handler +
  pfw_ws_manager :: reference

record DialogSendHandler_members = http_handler +
  dsh_grpc_client :: dialog_client

record DialogListHandler_members = http_handler +
  dlh_grpc_client :: dialog_client
  dlh_counter_client :: counter_client

record DialogUnreadHandler_members = http_handler +
  duh_counter_client :: counter_client

record PostFeedCache_members =
  pfc_pg_cluster :: cluster
  pfc_redis_client :: redis_client

record PostFeedWsManager_members =
  pfm_pg_cluster :: cluster
  pfm_sessions :: "uuid \<Rightarrow> nat list"

record PostFeedPublisher_members =
  pfp_client :: rabbit_client
  pfp_exchange :: string

record PostFeedConsumer_members =
  pfs_feed_cache :: reference
  pfs_client :: rabbit_client

text \<open>A consumer of the broker library: its client, the queue it reads, how many messages it
  takes at once, and whether it has been started.\<close>

record ConsumerBase =
  cb_client :: rabbit_client
  cb_queue :: string
  cb_prefetch :: nat
  cb_started :: bool

record WsFanoutConsumer_Impl_members = ConsumerBase +
  wfi_ws_manager :: reference

record WsFanoutConsumer_members =
  wfc_impl :: WsFanoutConsumer_Impl_members

record DialogServiceImpl_members =
  dsi_redis_client :: redis_client
  dsi_rabbit_client :: rabbit_client

record DialogServiceComponent_members =
  dsc_service :: DialogServiceImpl_members

record CounterServiceImpl_members =
  csi_redis_client :: redis_client

record CounterServiceComponent_members =
  csc_service :: CounterServiceImpl_members

record CounterConsumer_members =
  cc_redis_client :: redis_client

record periodic_task =
  pt_name :: string
  pt_seconds :: nat
  pt_running :: bool

record CounterReconciler_members =
  cr_redis_client :: redis_client
  cr_task :: periodic_task

section \<open>Objects and their classes\<close>

text \<open>Of the library's components only those that the repository asks for are told apart.\<close>

datatype component_class =
    C_Postgres | C_Redis | C_RabbitMQ | C_ClientFactory | C_Other
  | C_AuthCache | C_DialogGrpcClientComponent | C_CounterGrpcClientComponent
  | C_PostFeedCache | C_PostFeedWsManager | C_PostFeedPublisher | C_PostFeedConsumer | C_WsFanoutConsumer
  | C_UserRegisterHandler | C_UserGetHandler | C_UserSearchHandler | C_Login
  | C_FriendAddHandler | C_FriendDeleteHandler
  | C_PostCreateHandler | C_PostUpdateHandler | C_PostDeleteHandler | C_PostGetHandler
  | C_PostFeedHandler | C_PostFeedWsHandler
  | C_DialogSendHandler | C_DialogListHandler | C_DialogUnreadHandler
  | C_DialogServiceComponent
  | C_CounterServiceComponent | C_CounterConsumer | C_CounterReconciler

datatype object =
    O_Postgres | O_Redis "string list" | O_RabbitMQ | O_ClientFactory | O_Other
  | O_AuthCache cluster | O_DialogGrpcClientComponent reference | O_CounterGrpcClientComponent reference
  | O_PostFeedCache PostFeedCache_members | O_PostFeedWsManager PostFeedWsManager_members
  | O_PostFeedPublisher PostFeedPublisher_members | O_PostFeedConsumer PostFeedConsumer_members
  | O_WsFanoutConsumer WsFanoutConsumer_members
  | O_UserRegisterHandler UserRegisterHandler_members | O_UserGetHandler UserGetHandler_members
  | O_UserSearchHandler UserSearchHandler_members | O_Login Login_members
  | O_FriendAddHandler FriendAddHandler_members | O_FriendDeleteHandler FriendDeleteHandler_members
  | O_PostCreateHandler PostCreateHandler_members | O_PostUpdateHandler PostUpdateHandler_members
  | O_PostDeleteHandler PostDeleteHandler_members | O_PostGetHandler PostGetHandler_members
  | O_PostFeedHandler PostFeedHandler_members | O_PostFeedWsHandler PostFeedWsHandler_members
  | O_DialogSendHandler DialogSendHandler_members | O_DialogListHandler DialogListHandler_members
  | O_DialogUnreadHandler DialogUnreadHandler_members
  | O_DialogServiceComponent DialogServiceComponent_members
  | O_CounterServiceComponent CounterServiceComponent_members | O_CounterConsumer CounterConsumer_members
  | O_CounterReconciler CounterReconciler_members

primrec class_of :: "object \<Rightarrow> component_class" where
  "class_of O_Postgres = C_Postgres"
| "class_of (O_Redis x) = C_Redis"
| "class_of O_RabbitMQ = C_RabbitMQ"
| "class_of O_ClientFactory = C_ClientFactory"
| "class_of O_Other = C_Other"
| "class_of (O_AuthCache x) = C_AuthCache"
| "class_of (O_DialogGrpcClientComponent x) = C_DialogGrpcClientComponent"
| "class_of (O_CounterGrpcClientComponent x) = C_CounterGrpcClientComponent"
| "class_of (O_PostFeedCache x) = C_PostFeedCache"
| "class_of (O_PostFeedWsManager x) = C_PostFeedWsManager"
| "class_of (O_PostFeedPublisher x) = C_PostFeedPublisher"
| "class_of (O_PostFeedConsumer x) = C_PostFeedConsumer"
| "class_of (O_WsFanoutConsumer x) = C_WsFanoutConsumer"
| "class_of (O_UserRegisterHandler x) = C_UserRegisterHandler"
| "class_of (O_UserGetHandler x) = C_UserGetHandler"
| "class_of (O_UserSearchHandler x) = C_UserSearchHandler"
| "class_of (O_Login x) = C_Login"
| "class_of (O_FriendAddHandler x) = C_FriendAddHandler"
| "class_of (O_FriendDeleteHandler x) = C_FriendDeleteHandler"
| "class_of (O_PostCreateHandler x) = C_PostCreateHandler"
| "class_of (O_PostUpdateHandler x) = C_PostUpdateHandler"
| "class_of (O_PostDeleteHandler x) = C_PostDeleteHandler"
| "class_of (O_PostGetHandler x) = C_PostGetHandler"
| "class_of (O_PostFeedHandler x) = C_PostFeedHandler"
| "class_of (O_PostFeedWsHandler x) = C_PostFeedWsHandler"
| "class_of (O_DialogSendHandler x) = C_DialogSendHandler"
| "class_of (O_DialogListHandler x) = C_DialogListHandler"
| "class_of (O_DialogUnreadHandler x) = C_DialogUnreadHandler"
| "class_of (O_DialogServiceComponent x) = C_DialogServiceComponent"
| "class_of (O_CounterServiceComponent x) = C_CounterServiceComponent"
| "class_of (O_CounterConsumer x) = C_CounterConsumer"
| "class_of (O_CounterReconciler x) = C_CounterReconciler"

type_synonym components = "string \<rightharpoonup> object"

text \<open>
  \<open>FindComponent\<close>: the component of that name, if it is of that class. A client of a Redis
  component exists for the groups that it is configured with.
\<close>

definition FindComponent :: "components \<Rightarrow> component_class \<Rightarrow> string \<Rightarrow> exn + reference" where
  "FindComponent context C name =
     (case context name of
        Some obj \<Rightarrow> if class_of obj = C then Inr name else Inl RuntimeError
      | None \<Rightarrow> Inl RuntimeError)"

definition GetCluster :: "components \<Rightarrow> string \<Rightarrow> exn + cluster" where
  "GetCluster context name = sum_bind (FindComponent context C_Postgres name) (\<lambda>component. Inr (Cluster component))"

definition GetRedisClient :: "components \<Rightarrow> string \<Rightarrow> string \<Rightarrow> exn + redis_client" where
  "GetRedisClient context name group_name =
     (case context name of
        Some (O_Redis groups) \<Rightarrow> if group_name \<in> set groups then Inr (Redis_Client name group_name) else Inl RuntimeError
      | _ \<Rightarrow> Inl RuntimeError)"

definition GetRabbitClient :: "components \<Rightarrow> string \<Rightarrow> exn + rabbit_client" where
  "GetRabbitClient context name = sum_bind (FindComponent context C_RabbitMQ name) (\<lambda>component. Inr (Rabbit_Client component))"

section \<open>The constructors\<close>

definition CheckerFactory_ctor :: "components \<Rightarrow> exn + CheckerFactory_members" where
  "CheckerFactory_ctor context =
     sum_bind (FindComponent context C_AuthCache ''auth-pg-cache'') (\<lambda>found. Inr \<lparr>cf_auth_cache = found\<rparr>)"

definition AuthCheckerBearer_ctor :: "reference \<Rightarrow> string list \<Rightarrow> AuthCheckerBearer_members" where
  "AuthCheckerBearer_ctor cache required_scopes =
     \<lparr>acb_auth_cache = cache, acb_required_scopes = required_scopes\<rparr>"

definition CheckerFactory_MakeAuthChecker :: "CheckerFactory_members \<Rightarrow> string list option \<Rightarrow> AuthCheckerBearer_members" where
  "CheckerFactory_MakeAuthChecker factory configured =
     (let scopes = (case configured of None \<Rightarrow> [] | Some scopes \<Rightarrow> scopes) in
      AuthCheckerBearer_ctor (cf_auth_cache factory) scopes)"

text \<open>
  The handler base makes a checker with the registered factory for a handler that is configured
  with \<open>auth\<close>.
\<close>

definition HttpHandlerBase_ctor :: "components \<Rightarrow> string \<Rightarrow> exn + AuthCheckerBearer_members option" where
  "HttpHandlerBase_ctor context name =
     (case Option.bind (map_of static_config name) hc_scopes of
        None \<Rightarrow> Inr None
      | Some scopes \<Rightarrow> sum_bind (CheckerFactory_ctor context) (\<lambda>factory.
          Inr (Some (CheckerFactory_MakeAuthChecker factory (Some scopes)))))"

definition UserRegisterHandler_ctor :: "components \<Rightarrow> exn + UserRegisterHandler_members" where
  "UserRegisterHandler_ctor context =
     sum_bind (HttpHandlerBase_ctor context ''handler-user-register'') (\<lambda>checker.
     sum_bind (GetCluster context DataBase_Name) (\<lambda>pg_cluster.
     Inr \<lparr>hh_checker = checker, urh_pg_cluster = pg_cluster\<rparr>))"

definition UserGetHandler_ctor :: "components \<Rightarrow> exn + UserGetHandler_members" where
  "UserGetHandler_ctor context =
     sum_bind (HttpHandlerBase_ctor context ''handler-user-get'') (\<lambda>checker.
     sum_bind (GetCluster context DataBase_Name) (\<lambda>pg_cluster.
     Inr \<lparr>hh_checker = checker, ugh_pg_cluster = pg_cluster\<rparr>))"

definition UserSearchHandler_ctor :: "components \<Rightarrow> exn + UserSearchHandler_members" where
  "UserSearchHandler_ctor context =
     sum_bind (HttpHandlerBase_ctor context ''handler-user-search'') (\<lambda>checker.
     sum_bind (GetCluster context DataBase_Name) (\<lambda>pg_cluster.
     Inr \<lparr>hh_checker = checker, ush_pg_cluster = pg_cluster\<rparr>))"

definition Login_ctor :: "components \<Rightarrow> exn + Login_members" where
  "Login_ctor context =
     sum_bind (HttpHandlerBase_ctor context ''handler-login'') (\<lambda>checker.
     sum_bind (GetCluster context DataBase_Name) (\<lambda>pg_cluster.
     sum_bind (FindComponent context C_AuthCache ''auth-pg-cache'') (\<lambda>cache.
     Inr \<lparr>hh_checker = checker, login_pg_cluster = pg_cluster, login_auth_cache = cache\<rparr>)))"

definition FriendAddHandler_ctor :: "components \<Rightarrow> exn + FriendAddHandler_members" where
  "FriendAddHandler_ctor context =
     sum_bind (HttpHandlerBase_ctor context ''handler-friend-add'') (\<lambda>checker.
     sum_bind (GetCluster context DataBase_Name) (\<lambda>pg_cluster.
     sum_bind (FindComponent context C_PostFeedCache ''post-feed-cache'') (\<lambda>feed_cache.
     Inr \<lparr>hh_checker = checker, fah_pg_cluster = pg_cluster, fah_feed_cache = feed_cache\<rparr>)))"

definition FriendDeleteHandler_ctor :: "components \<Rightarrow> exn + FriendDeleteHandler_members" where
  "FriendDeleteHandler_ctor context =
     sum_bind (HttpHandlerBase_ctor context ''handler-friend-delete'') (\<lambda>checker.
     sum_bind (GetCluster context DataBase_Name) (\<lambda>pg_cluster.
     sum_bind (FindComponent context C_PostFeedCache ''post-feed-cache'') (\<lambda>feed_cache.
     Inr \<lparr>hh_checker = checker, fdh_pg_cluster = pg_cluster, fdh_feed_cache = feed_cache\<rparr>)))"

definition PostCreateHandler_ctor :: "components \<Rightarrow> exn + PostCreateHandler_members" where
  "PostCreateHandler_ctor context =
     sum_bind (HttpHandlerBase_ctor context ''handler-post-create'') (\<lambda>checker.
     sum_bind (GetCluster context DataBase_Name) (\<lambda>pg_cluster.
     sum_bind (FindComponent context C_PostFeedPublisher ''post-feed-publisher'') (\<lambda>publisher.
     Inr \<lparr>hh_checker = checker, pch_pg_cluster = pg_cluster, pch_publisher = publisher\<rparr>)))"

definition PostUpdateHandler_ctor :: "components \<Rightarrow> exn + PostUpdateHandler_members" where
  "PostUpdateHandler_ctor context =
     sum_bind (HttpHandlerBase_ctor context ''handler-post-update'') (\<lambda>checker.
     sum_bind (GetCluster context DataBase_Name) (\<lambda>pg_cluster.
     sum_bind (FindComponent context C_PostFeedCache ''post-feed-cache'') (\<lambda>feed_cache.
     Inr \<lparr>hh_checker = checker, puh_pg_cluster = pg_cluster, puh_feed_cache = feed_cache\<rparr>)))"

definition PostDeleteHandler_ctor :: "components \<Rightarrow> exn + PostDeleteHandler_members" where
  "PostDeleteHandler_ctor context =
     sum_bind (HttpHandlerBase_ctor context ''handler-post-delete'') (\<lambda>checker.
     sum_bind (GetCluster context DataBase_Name) (\<lambda>pg_cluster.
     sum_bind (FindComponent context C_PostFeedCache ''post-feed-cache'') (\<lambda>feed_cache.
     Inr \<lparr>hh_checker = checker, pdh_pg_cluster = pg_cluster, pdh_feed_cache = feed_cache\<rparr>)))"

definition PostGetHandler_ctor :: "components \<Rightarrow> exn + PostGetHandler_members" where
  "PostGetHandler_ctor context =
     sum_bind (HttpHandlerBase_ctor context ''handler-post-get'') (\<lambda>checker.
     sum_bind (GetCluster context DataBase_Name) (\<lambda>pg_cluster.
     Inr \<lparr>hh_checker = checker, pgh_pg_cluster = pg_cluster\<rparr>))"

definition PostFeedHandler_ctor :: "components \<Rightarrow> exn + PostFeedHandler_members" where
  "PostFeedHandler_ctor context =
     sum_bind (HttpHandlerBase_ctor context ''handler-post-feed'') (\<lambda>checker.
     sum_bind (FindComponent context C_PostFeedCache ''post-feed-cache'') (\<lambda>feed_cache.
     Inr \<lparr>hh_checker = checker, pfh_feed_cache = feed_cache\<rparr>))"

definition PostFeedWsHandler_ctor :: "components \<Rightarrow> exn + PostFeedWsHandler_members" where
  "PostFeedWsHandler_ctor context =
     sum_bind (HttpHandlerBase_ctor context ''handler-post-feed-ws'') (\<lambda>checker.
     sum_bind (FindComponent context C_PostFeedWsManager ''post-feed-ws-manager'') (\<lambda>ws_manager.
     Inr \<lparr>hh_checker = checker, pfw_ws_manager = ws_manager\<rparr>))"

definition GetDialogClient :: "components \<Rightarrow> string \<Rightarrow> exn + dialog_client" where
  "GetDialogClient context name =
     sum_bind (FindComponent context C_DialogGrpcClientComponent name) (\<lambda>component. Inr (Dialog_Client component))"

definition GetCounterClient :: "components \<Rightarrow> string \<Rightarrow> exn + counter_client" where
  "GetCounterClient context name =
     sum_bind (FindComponent context C_CounterGrpcClientComponent name) (\<lambda>component. Inr (Counter_Client component))"

definition DialogSendHandler_ctor :: "components \<Rightarrow> exn + DialogSendHandler_members" where
  "DialogSendHandler_ctor context =
     sum_bind (HttpHandlerBase_ctor context ''handler-dialog-send'') (\<lambda>checker.
     sum_bind (GetDialogClient context ''dialog-grpc-client'') (\<lambda>grpc_client.
     Inr \<lparr>hh_checker = checker, dsh_grpc_client = grpc_client\<rparr>))"

definition DialogListHandler_ctor :: "components \<Rightarrow> exn + DialogListHandler_members" where
  "DialogListHandler_ctor context =
     sum_bind (HttpHandlerBase_ctor context ''handler-dialog-list'') (\<lambda>checker.
     sum_bind (GetDialogClient context ''dialog-grpc-client'') (\<lambda>grpc_client.
     sum_bind (GetCounterClient context ''counter-grpc-client'') (\<lambda>counter_client.
     Inr \<lparr>hh_checker = checker, dlh_grpc_client = grpc_client, dlh_counter_client = counter_client\<rparr>)))"

definition DialogUnreadHandler_ctor :: "components \<Rightarrow> exn + DialogUnreadHandler_members" where
  "DialogUnreadHandler_ctor context =
     sum_bind (HttpHandlerBase_ctor context ''handler-dialog-unread-count'') (\<lambda>checker.
     sum_bind (GetCounterClient context ''counter-grpc-client'') (\<lambda>counter_client.
     Inr \<lparr>hh_checker = checker, duh_counter_client = counter_client\<rparr>))"

text \<open>
  A constructor that declares something at the broker also gives these declarations. It waits for
  each of them until its deadline; \<open>fails\<close> tells which of them throw, and the first that does
  ends the constructor.
\<close>

fun broker_calls :: "(action \<Rightarrow> exn option) \<Rightarrow> action list \<Rightarrow> exn + action list" where
  "broker_calls fails [] = Inr []"
| "broker_calls fails (a # as) =
     (case fails a of
        Some e \<Rightarrow> Inl e
      | None \<Rightarrow> sum_bind (broker_calls fails as) (\<lambda>done. Inr (a # done)))"

definition PostFeedCache_ctor :: "components \<Rightarrow> exn + PostFeedCache_members" where
  "PostFeedCache_ctor context =
     sum_bind (GetCluster context DataBase_Name) (\<lambda>pg_cluster.
     sum_bind (GetRedisClient context ''key-value-database'' ''feed-redis'') (\<lambda>redis_client.
     Inr \<lparr>pfc_pg_cluster = pg_cluster, pfc_redis_client = redis_client\<rparr>))"

definition PostFeedWsManager_ctor :: "components \<Rightarrow> exn + PostFeedWsManager_members" where
  "PostFeedWsManager_ctor context =
     sum_bind (GetCluster context DataBase_Name) (\<lambda>pg_cluster.
     Inr \<lparr>pfm_pg_cluster = pg_cluster, pfm_sessions = (\<lambda>_. [])\<rparr>)"

definition PostFeedPublisher_ctor :: "(action \<Rightarrow> exn option) \<Rightarrow> components \<Rightarrow> exn + PostFeedPublisher_members \<times> action list" where
  "PostFeedPublisher_ctor fails context =
     sum_bind (GetRabbitClient context (config_value ''post-feed-publisher'' ''rabbit_name'')) (\<lambda>client.
     let exchange = config_value ''post-feed-publisher'' ''exchange'' in
     sum_bind (broker_calls fails
       [Exchange exchange kTopic, Queue ''feed-materialization'' [kDurable],
        Bind exchange ''feed-materialization'' ''post.created.#'']) (\<lambda>ds.
     Inr (\<lparr>pfp_client = client, pfp_exchange = exchange\<rparr>, ds)))"

definition PostFeedConsumer_ctor :: "components \<Rightarrow> exn + PostFeedConsumer_members" where
  "PostFeedConsumer_ctor context =
     sum_bind (FindComponent context C_PostFeedCache ''post-feed-cache'') (\<lambda>feed_cache.
     sum_bind (GetRabbitClient context ''rabbitmq-driver'') (\<lambda>client.
     Inr \<lparr>pfs_feed_cache = feed_cache, pfs_client = client\<rparr>))"

text \<open>The implementation of the fan-out consumer is made stopped; the component starts and stops it.\<close>

definition WsFanoutConsumer_Impl_ctor :: "rabbit_client \<Rightarrow> string \<Rightarrow> reference \<Rightarrow> WsFanoutConsumer_Impl_members" where
  "WsFanoutConsumer_Impl_ctor client queue_name ws_manager =
     \<lparr>cb_client = client, cb_queue = queue_name, cb_prefetch = 1, cb_started = False, wfi_ws_manager = ws_manager\<rparr>"

definition WsFanoutConsumer_ctor ::
  "lib \<Rightarrow> uuid \<Rightarrow> (action \<Rightarrow> exn option) \<Rightarrow> components \<Rightarrow> exn + WsFanoutConsumer_members \<times> action list" where
  "WsFanoutConsumer_ctor L instance_id fails context =
     sum_bind (GetRabbitClient context ''rabbitmq-driver'') (\<lambda>client.
     sum_bind (FindComponent context C_PostFeedWsManager ''post-feed-ws-manager'') (\<lambda>ws_manager.
     let queue_name = ''ws-fanout-'' @ to_str L instance_id in
     sum_bind (broker_calls fails
       [Exchange ''ws-fanout'' kFanOut, Queue queue_name [kAutoDelete], Bind ''ws-fanout'' queue_name []]) (\<lambda>ds.
     Inr (\<lparr>wfc_impl = WsFanoutConsumer_Impl_ctor client queue_name ws_manager\<rparr>, ds))))"

definition WsFanoutConsumer_OnAllComponentsLoaded :: "WsFanoutConsumer_members \<Rightarrow> WsFanoutConsumer_members" where
  "WsFanoutConsumer_OnAllComponentsLoaded c = c\<lparr>wfc_impl := (wfc_impl c)\<lparr>cb_started := True\<rparr>\<rparr>"

definition WsFanoutConsumer_OnAllComponentsAreStopping :: "WsFanoutConsumer_members \<Rightarrow> WsFanoutConsumer_members" where
  "WsFanoutConsumer_OnAllComponentsAreStopping c = c\<lparr>wfc_impl := (wfc_impl c)\<lparr>cb_started := False\<rparr>\<rparr>"

definition DialogServiceImpl_ctor :: "redis_client \<Rightarrow> rabbit_client \<Rightarrow> DialogServiceImpl_members" where
  "DialogServiceImpl_ctor redis rabbit = \<lparr>dsi_redis_client = redis, dsi_rabbit_client = rabbit\<rparr>"

definition DialogServiceComponent_ctor ::
  "(action \<Rightarrow> exn option) \<Rightarrow> components \<Rightarrow> exn + DialogServiceComponent_members \<times> action list" where
  "DialogServiceComponent_ctor fails context =
     sum_bind (GetRedisClient context ''key-value-database'' ''dialog-redis'') (\<lambda>redis.
     sum_bind (GetRabbitClient context ''rabbitmq-driver'') (\<lambda>client.
     sum_bind (broker_calls fails [Exchange ''messages-exchange'' kTopic]) (\<lambda>ds.
     Inr (\<lparr>dsc_service = DialogServiceImpl_ctor redis client\<rparr>, ds))))"

definition CounterServiceImpl_ctor :: "redis_client \<Rightarrow> CounterServiceImpl_members" where
  "CounterServiceImpl_ctor redis = \<lparr>csi_redis_client = redis\<rparr>"

definition CounterServiceComponent_ctor :: "components \<Rightarrow> exn + CounterServiceComponent_members" where
  "CounterServiceComponent_ctor context =
     sum_bind (GetRedisClient context ''key-value-database'' ''counter-redis'') (\<lambda>redis.
     Inr \<lparr>csc_service = CounterServiceImpl_ctor redis\<rparr>)"

definition CounterConsumer_ctor :: "(action \<Rightarrow> exn option) \<Rightarrow> components \<Rightarrow> exn + CounterConsumer_members \<times> action list" where
  "CounterConsumer_ctor fails context =
     sum_bind (GetRedisClient context ''key-value-database'' ''counter-redis'') (\<lambda>redis_client.
     sum_bind (GetRabbitClient context ''rabbitmq-driver'') (\<lambda>client.
     sum_bind (broker_calls fails
       [Exchange ''messages-exchange'' kTopic, Queue ''message-counters'' [kDurable],
        Bind ''messages-exchange'' ''message-counters'' ''message.sent.#'']) (\<lambda>ds.
     Inr (\<lparr>cc_redis_client = redis_client\<rparr>, ds))))"

text \<open>The reconciler runs every minute from its construction to its destruction.\<close>

definition CounterReconciler_ctor :: "components \<Rightarrow> exn + CounterReconciler_members" where
  "CounterReconciler_ctor context =
     sum_bind (GetRedisClient context ''key-value-database'' ''counter-redis'') (\<lambda>redis_client.
     Inr \<lparr>cr_redis_client = redis_client,
          cr_task = \<lparr>pt_name = ''counter-reconciler'', pt_seconds = 60, pt_running = True\<rparr>\<rparr>)"

definition CounterReconciler_dtor :: "CounterReconciler_members \<Rightarrow> CounterReconciler_members" where
  "CounterReconciler_dtor c = c\<lparr>cr_task := (cr_task c)\<lparr>pt_running := False\<rparr>\<rparr>"

section \<open>The processes as lists of classes\<close>

text \<open>The name under which a component of each class is registered: its \<open>kName\<close>, or the
  argument of \<open>Append\<close>.\<close>

primrec component_name :: "component_class \<Rightarrow> string" where
  "component_name C_Postgres = DataBase_Name"
| "component_name C_Redis = ''key-value-database''"
| "component_name C_RabbitMQ = ''rabbitmq-driver''"
| "component_name C_ClientFactory = ''grpc-client-factory''"
| "component_name C_Other = []"
| "component_name C_AuthCache = ''auth-pg-cache''"
| "component_name C_DialogGrpcClientComponent = ''dialog-grpc-client''"
| "component_name C_CounterGrpcClientComponent = ''counter-grpc-client''"
| "component_name C_PostFeedCache = ''post-feed-cache''"
| "component_name C_PostFeedWsManager = ''post-feed-ws-manager''"
| "component_name C_PostFeedPublisher = ''post-feed-publisher''"
| "component_name C_PostFeedConsumer = ''post-feed-consumer''"
| "component_name C_WsFanoutConsumer = ''ws-fanout-consumer''"
| "component_name C_UserRegisterHandler = ''handler-user-register''"
| "component_name C_UserGetHandler = ''handler-user-get''"
| "component_name C_UserSearchHandler = ''handler-user-search''"
| "component_name C_Login = ''handler-login''"
| "component_name C_FriendAddHandler = ''handler-friend-add''"
| "component_name C_FriendDeleteHandler = ''handler-friend-delete''"
| "component_name C_PostCreateHandler = ''handler-post-create''"
| "component_name C_PostUpdateHandler = ''handler-post-update''"
| "component_name C_PostDeleteHandler = ''handler-post-delete''"
| "component_name C_PostGetHandler = ''handler-post-get''"
| "component_name C_PostFeedHandler = ''handler-post-feed''"
| "component_name C_PostFeedWsHandler = ''handler-post-feed-ws''"
| "component_name C_DialogSendHandler = ''handler-dialog-send''"
| "component_name C_DialogListHandler = ''handler-dialog-list''"
| "component_name C_DialogUnreadHandler = ''handler-dialog-unread-count''"
| "component_name C_DialogServiceComponent = ''dialog-grpc-service''"
| "component_name C_CounterServiceComponent = ''counter-grpc-service''"
| "component_name C_CounterConsumer = ''counter-consumer''"
| "component_name C_CounterReconciler = ''counter-reconciler''"

definition social_net_classes :: "component_class list" where
  "social_net_classes =
     [C_Redis, C_RabbitMQ, C_AuthCache, C_Postgres, C_ClientFactory,
      C_DialogGrpcClientComponent, C_CounterGrpcClientComponent,
      C_PostFeedCache, C_PostFeedWsManager, C_PostFeedPublisher, C_PostFeedConsumer, C_WsFanoutConsumer,
      C_UserRegisterHandler, C_UserGetHandler, C_UserSearchHandler, C_Login,
      C_FriendAddHandler, C_FriendDeleteHandler,
      C_PostCreateHandler, C_PostUpdateHandler, C_PostDeleteHandler, C_PostGetHandler,
      C_PostFeedHandler, C_PostFeedWsHandler,
      C_DialogSendHandler, C_DialogListHandler, C_DialogUnreadHandler]"

definition chat_classes :: "component_class list" where
  "chat_classes = [C_Redis, C_RabbitMQ, C_DialogServiceComponent]"

definition counter_classes :: "component_class list" where
  "counter_classes = [C_Redis, C_RabbitMQ, C_CounterServiceComponent, C_CounterConsumer, C_CounterReconciler]"

fun classes :: "process \<Rightarrow> component_class list" where
  "classes Monolith = social_net_classes"
| "classes Chat = chat_classes"
| "classes Counter = counter_classes"

text \<open>The class registered under a name; what is not listed comes with the framework.\<close>

definition class_at :: "process \<Rightarrow> string \<Rightarrow> component_class" where
  "class_at p name =
     (case map_of (map (\<lambda>C. (component_name C, C)) (classes p)) name of Some C \<Rightarrow> C | None \<Rightarrow> C_Other)"

abbreviation made :: "('a \<Rightarrow> object) \<Rightarrow> exn + 'a \<Rightarrow> exn + object" where
  "made object ctor \<equiv> sum_bind ctor (\<lambda>members. Inr (object members))"

text \<open>
  The construction of a component. The cache of tokens and the gRPC clients are classes of the
  framework that find what their configuration names.
\<close>

primrec construct :: "lib \<Rightarrow> uuid \<Rightarrow> process \<Rightarrow> (action \<Rightarrow> exn option) \<Rightarrow> components \<Rightarrow> component_class \<Rightarrow> exn + object" where
  "construct L i p fails context C_Postgres = Inr O_Postgres"
| "construct L i p fails context C_Redis = Inr (O_Redis (redis_groups p))"
| "construct L i p fails context C_RabbitMQ = Inr O_RabbitMQ"
| "construct L i p fails context C_ClientFactory = Inr O_ClientFactory"
| "construct L i p fails context C_Other = Inr O_Other"
| "construct L i p fails context C_AuthCache = made O_AuthCache (GetCluster context DataBase_Name)"
| "construct L i p fails context C_DialogGrpcClientComponent =
     made O_DialogGrpcClientComponent (FindComponent context C_ClientFactory ''grpc-client-factory'')"
| "construct L i p fails context C_CounterGrpcClientComponent =
     made O_CounterGrpcClientComponent (FindComponent context C_ClientFactory ''grpc-client-factory'')"
| "construct L i p fails context C_WsFanoutConsumer = made (O_WsFanoutConsumer \<circ> fst) (WsFanoutConsumer_ctor L i fails context)"
| "construct L i p fails context C_PostFeedCache = made O_PostFeedCache (PostFeedCache_ctor context)"
| "construct L i p fails context C_PostFeedWsManager = made O_PostFeedWsManager (PostFeedWsManager_ctor context)"
| "construct L i p fails context C_PostFeedPublisher = made (O_PostFeedPublisher \<circ> fst) (PostFeedPublisher_ctor fails context)"
| "construct L i p fails context C_PostFeedConsumer = made O_PostFeedConsumer (PostFeedConsumer_ctor context)"
| "construct L i p fails context C_UserRegisterHandler = made O_UserRegisterHandler (UserRegisterHandler_ctor context)"
| "construct L i p fails context C_UserGetHandler = made O_UserGetHandler (UserGetHandler_ctor context)"
| "construct L i p fails context C_UserSearchHandler = made O_UserSearchHandler (UserSearchHandler_ctor context)"
| "construct L i p fails context C_Login = made O_Login (Login_ctor context)"
| "construct L i p fails context C_FriendAddHandler = made O_FriendAddHandler (FriendAddHandler_ctor context)"
| "construct L i p fails context C_FriendDeleteHandler = made O_FriendDeleteHandler (FriendDeleteHandler_ctor context)"
| "construct L i p fails context C_PostCreateHandler = made O_PostCreateHandler (PostCreateHandler_ctor context)"
| "construct L i p fails context C_PostUpdateHandler = made O_PostUpdateHandler (PostUpdateHandler_ctor context)"
| "construct L i p fails context C_PostDeleteHandler = made O_PostDeleteHandler (PostDeleteHandler_ctor context)"
| "construct L i p fails context C_PostGetHandler = made O_PostGetHandler (PostGetHandler_ctor context)"
| "construct L i p fails context C_PostFeedHandler = made O_PostFeedHandler (PostFeedHandler_ctor context)"
| "construct L i p fails context C_PostFeedWsHandler = made O_PostFeedWsHandler (PostFeedWsHandler_ctor context)"
| "construct L i p fails context C_DialogSendHandler = made O_DialogSendHandler (DialogSendHandler_ctor context)"
| "construct L i p fails context C_DialogListHandler = made O_DialogListHandler (DialogListHandler_ctor context)"
| "construct L i p fails context C_DialogUnreadHandler = made O_DialogUnreadHandler (DialogUnreadHandler_ctor context)"
| "construct L i p fails context C_DialogServiceComponent = made (O_DialogServiceComponent \<circ> fst) (DialogServiceComponent_ctor fails context)"
| "construct L i p fails context C_CounterServiceComponent = made O_CounterServiceComponent (CounterServiceComponent_ctor context)"
| "construct L i p fails context C_CounterConsumer = made (O_CounterConsumer \<circ> fst) (CounterConsumer_ctor fails context)"
| "construct L i p fails context C_CounterReconciler = made O_CounterReconciler (CounterReconciler_ctor context)"

section \<open>What an object refers to\<close>

text \<open>Every component that an object holds, directly or through a handle, with the class it is
  used as; the Redis groups of its clients; the checker of a handler.\<close>

primrec cluster_refs :: "cluster \<Rightarrow> (reference \<times> component_class) list" where
  "cluster_refs (Cluster c) = [(c, C_Postgres)]"

primrec redis_refs :: "redis_client \<Rightarrow> (reference \<times> component_class) list" where
  "redis_refs (Redis_Client c g) = [(c, C_Redis)]"

primrec redis_group :: "redis_client \<Rightarrow> string" where
  "redis_group (Redis_Client c g) = g"

primrec rabbit_refs :: "rabbit_client \<Rightarrow> (reference \<times> component_class) list" where
  "rabbit_refs (Rabbit_Client c) = [(c, C_RabbitMQ)]"

primrec dialog_refs :: "dialog_client \<Rightarrow> (reference \<times> component_class) list" where
  "dialog_refs (Dialog_Client c) = [(c, C_DialogGrpcClientComponent)]"

primrec counter_refs :: "counter_client \<Rightarrow> (reference \<times> component_class) list" where
  "counter_refs (Counter_Client c) = [(c, C_CounterGrpcClientComponent)]"

fun checker_refs :: "AuthCheckerBearer_members option \<Rightarrow> (reference \<times> component_class) list" where
  "checker_refs None = []"
| "checker_refs (Some checker) = [(acb_auth_cache checker, C_AuthCache)]"

primrec refs_of :: "object \<Rightarrow> (reference \<times> component_class) list" where
  "refs_of O_Postgres = []"
| "refs_of (O_Redis x) = []"
| "refs_of O_RabbitMQ = []"
| "refs_of O_ClientFactory = []"
| "refs_of O_Other = []"
| "refs_of (O_AuthCache x) = cluster_refs x"
| "refs_of (O_DialogGrpcClientComponent x) = [(x, C_ClientFactory)]"
| "refs_of (O_CounterGrpcClientComponent x) = [(x, C_ClientFactory)]"
| "refs_of (O_PostFeedCache x) = cluster_refs (pfc_pg_cluster x) @ redis_refs (pfc_redis_client x)"
| "refs_of (O_PostFeedWsManager x) = cluster_refs (pfm_pg_cluster x)"
| "refs_of (O_PostFeedPublisher x) = rabbit_refs (pfp_client x)"
| "refs_of (O_PostFeedConsumer x) = [(pfs_feed_cache x, C_PostFeedCache)] @ rabbit_refs (pfs_client x)"
| "refs_of (O_WsFanoutConsumer x) = rabbit_refs (cb_client (wfc_impl x)) @ [(wfi_ws_manager (wfc_impl x), C_PostFeedWsManager)]"
| "refs_of (O_UserRegisterHandler x) = checker_refs (hh_checker x) @ cluster_refs (urh_pg_cluster x)"
| "refs_of (O_UserGetHandler x) = checker_refs (hh_checker x) @ cluster_refs (ugh_pg_cluster x)"
| "refs_of (O_UserSearchHandler x) = checker_refs (hh_checker x) @ cluster_refs (ush_pg_cluster x)"
| "refs_of (O_Login x) = checker_refs (hh_checker x) @ cluster_refs (login_pg_cluster x) @ [(login_auth_cache x, C_AuthCache)]"
| "refs_of (O_FriendAddHandler x) = checker_refs (hh_checker x) @ cluster_refs (fah_pg_cluster x) @ [(fah_feed_cache x, C_PostFeedCache)]"
| "refs_of (O_FriendDeleteHandler x) = checker_refs (hh_checker x) @ cluster_refs (fdh_pg_cluster x) @ [(fdh_feed_cache x, C_PostFeedCache)]"
| "refs_of (O_PostCreateHandler x) = checker_refs (hh_checker x) @ cluster_refs (pch_pg_cluster x) @ [(pch_publisher x, C_PostFeedPublisher)]"
| "refs_of (O_PostUpdateHandler x) = checker_refs (hh_checker x) @ cluster_refs (puh_pg_cluster x) @ [(puh_feed_cache x, C_PostFeedCache)]"
| "refs_of (O_PostDeleteHandler x) = checker_refs (hh_checker x) @ cluster_refs (pdh_pg_cluster x) @ [(pdh_feed_cache x, C_PostFeedCache)]"
| "refs_of (O_PostGetHandler x) = checker_refs (hh_checker x) @ cluster_refs (pgh_pg_cluster x)"
| "refs_of (O_PostFeedHandler x) = checker_refs (hh_checker x) @ [(pfh_feed_cache x, C_PostFeedCache)]"
| "refs_of (O_PostFeedWsHandler x) = checker_refs (hh_checker x) @ [(pfw_ws_manager x, C_PostFeedWsManager)]"
| "refs_of (O_DialogSendHandler x) = checker_refs (hh_checker x) @ dialog_refs (dsh_grpc_client x)"
| "refs_of (O_DialogListHandler x) = checker_refs (hh_checker x) @ dialog_refs (dlh_grpc_client x) @ counter_refs (dlh_counter_client x)"
| "refs_of (O_DialogUnreadHandler x) = checker_refs (hh_checker x) @ counter_refs (duh_counter_client x)"
| "refs_of (O_DialogServiceComponent x) = redis_refs (dsi_redis_client (dsc_service x)) @ rabbit_refs (dsi_rabbit_client (dsc_service x))"
| "refs_of (O_CounterServiceComponent x) = redis_refs (csi_redis_client (csc_service x))"
| "refs_of (O_CounterConsumer x) = redis_refs (cc_redis_client x)"
| "refs_of (O_CounterReconciler x) = redis_refs (cr_redis_client x)"

primrec groups_of :: "object \<Rightarrow> string list" where
  "groups_of O_Postgres = []"
| "groups_of (O_Redis x) = []"
| "groups_of O_RabbitMQ = []"
| "groups_of O_ClientFactory = []"
| "groups_of O_Other = []"
| "groups_of (O_AuthCache x) = []"
| "groups_of (O_DialogGrpcClientComponent x) = []"
| "groups_of (O_CounterGrpcClientComponent x) = []"
| "groups_of (O_PostFeedCache x) = [redis_group (pfc_redis_client x)]"
| "groups_of (O_PostFeedWsManager x) = []"
| "groups_of (O_PostFeedPublisher x) = []"
| "groups_of (O_PostFeedConsumer x) = []"
| "groups_of (O_WsFanoutConsumer x) = []"
| "groups_of (O_UserRegisterHandler x) = []"
| "groups_of (O_UserGetHandler x) = []"
| "groups_of (O_UserSearchHandler x) = []"
| "groups_of (O_Login x) = []"
| "groups_of (O_FriendAddHandler x) = []"
| "groups_of (O_FriendDeleteHandler x) = []"
| "groups_of (O_PostCreateHandler x) = []"
| "groups_of (O_PostUpdateHandler x) = []"
| "groups_of (O_PostDeleteHandler x) = []"
| "groups_of (O_PostGetHandler x) = []"
| "groups_of (O_PostFeedHandler x) = []"
| "groups_of (O_PostFeedWsHandler x) = []"
| "groups_of (O_DialogSendHandler x) = []"
| "groups_of (O_DialogListHandler x) = []"
| "groups_of (O_DialogUnreadHandler x) = []"
| "groups_of (O_DialogServiceComponent x) = [redis_group (dsi_redis_client (dsc_service x))]"
| "groups_of (O_CounterServiceComponent x) = [redis_group (csi_redis_client (csc_service x))]"
| "groups_of (O_CounterConsumer x) = [redis_group (cc_redis_client x)]"
| "groups_of (O_CounterReconciler x) = [redis_group (cr_redis_client x)]"

primrec checker_of :: "object \<Rightarrow> AuthCheckerBearer_members option" where
  "checker_of O_Postgres = None"
| "checker_of (O_Redis x) = None"
| "checker_of O_RabbitMQ = None"
| "checker_of O_ClientFactory = None"
| "checker_of O_Other = None"
| "checker_of (O_AuthCache x) = None"
| "checker_of (O_DialogGrpcClientComponent x) = None"
| "checker_of (O_CounterGrpcClientComponent x) = None"
| "checker_of (O_PostFeedCache x) = None"
| "checker_of (O_PostFeedWsManager x) = None"
| "checker_of (O_PostFeedPublisher x) = None"
| "checker_of (O_PostFeedConsumer x) = None"
| "checker_of (O_WsFanoutConsumer x) = None"
| "checker_of (O_UserRegisterHandler x) = hh_checker x"
| "checker_of (O_UserGetHandler x) = hh_checker x"
| "checker_of (O_UserSearchHandler x) = hh_checker x"
| "checker_of (O_Login x) = hh_checker x"
| "checker_of (O_FriendAddHandler x) = hh_checker x"
| "checker_of (O_FriendDeleteHandler x) = hh_checker x"
| "checker_of (O_PostCreateHandler x) = hh_checker x"
| "checker_of (O_PostUpdateHandler x) = hh_checker x"
| "checker_of (O_PostDeleteHandler x) = hh_checker x"
| "checker_of (O_PostGetHandler x) = hh_checker x"
| "checker_of (O_PostFeedHandler x) = hh_checker x"
| "checker_of (O_PostFeedWsHandler x) = hh_checker x"
| "checker_of (O_DialogSendHandler x) = hh_checker x"
| "checker_of (O_DialogListHandler x) = hh_checker x"
| "checker_of (O_DialogUnreadHandler x) = hh_checker x"
| "checker_of (O_DialogServiceComponent x) = None"
| "checker_of (O_CounterServiceComponent x) = None"
| "checker_of (O_CounterConsumer x) = None"
| "checker_of (O_CounterReconciler x) = None"

text \<open>What the constructor of a class looks for.\<close>

primrec needs :: "component_class \<Rightarrow> component_class list" where
  "needs C_Postgres = []"
| "needs C_Redis = []"
| "needs C_RabbitMQ = []"
| "needs C_ClientFactory = []"
| "needs C_Other = []"
| "needs C_AuthCache = [C_Postgres]"
| "needs C_DialogGrpcClientComponent = [C_ClientFactory]"
| "needs C_CounterGrpcClientComponent = [C_ClientFactory]"
| "needs C_PostFeedCache = [C_Postgres, C_Redis]"
| "needs C_PostFeedWsManager = [C_Postgres]"
| "needs C_PostFeedPublisher = [C_RabbitMQ]"
| "needs C_PostFeedConsumer = [C_PostFeedCache, C_RabbitMQ]"
| "needs C_WsFanoutConsumer = [C_RabbitMQ, C_PostFeedWsManager]"
| "needs C_UserRegisterHandler = [C_Postgres]"
| "needs C_UserGetHandler = [C_AuthCache, C_Postgres]"
| "needs C_UserSearchHandler = [C_AuthCache, C_Postgres]"
| "needs C_Login = [C_Postgres, C_AuthCache]"
| "needs C_FriendAddHandler = [C_AuthCache, C_Postgres, C_PostFeedCache]"
| "needs C_FriendDeleteHandler = [C_AuthCache, C_Postgres, C_PostFeedCache]"
| "needs C_PostCreateHandler = [C_AuthCache, C_Postgres, C_PostFeedPublisher]"
| "needs C_PostUpdateHandler = [C_AuthCache, C_Postgres, C_PostFeedCache]"
| "needs C_PostDeleteHandler = [C_AuthCache, C_Postgres, C_PostFeedCache]"
| "needs C_PostGetHandler = [C_Postgres]"
| "needs C_PostFeedHandler = [C_AuthCache, C_PostFeedCache]"
| "needs C_PostFeedWsHandler = [C_AuthCache, C_PostFeedWsManager]"
| "needs C_DialogSendHandler = [C_AuthCache, C_DialogGrpcClientComponent]"
| "needs C_DialogListHandler = [C_AuthCache, C_DialogGrpcClientComponent, C_CounterGrpcClientComponent]"
| "needs C_DialogUnreadHandler = [C_AuthCache, C_CounterGrpcClientComponent]"
| "needs C_DialogServiceComponent = [C_Redis, C_RabbitMQ]"
| "needs C_CounterServiceComponent = [C_Redis]"
| "needs C_CounterConsumer = [C_Redis, C_RabbitMQ]"
| "needs C_CounterReconciler = [C_Redis]"

text \<open>A handler's own check, with the scopes its checker requires.\<close>

definition checker_decides :: "auth_snapshot \<Rightarrow> AuthCheckerBearer_members option \<Rightarrow> string \<Rightarrow> auth_status + uuid option" where
  "checker_decides cache checker header =
     (case checker of
        None \<Rightarrow> Inr None
      | Some c \<Rightarrow> (case CheckAuth cache (acb_required_scopes c) header of
            (kAuthOk, user) \<Rightarrow> Inr user
          | (refused, _) \<Rightarrow> Inl refused))"

definition configured_checker :: "string \<Rightarrow> AuthCheckerBearer_members option" where
  "configured_checker name = map_option (\<lambda>scopes. \<lparr>acb_auth_cache = ''auth-pg-cache'', acb_required_scopes = scopes\<rparr>)
     (Option.bind (map_of static_config name) hc_scopes)"

lemma checker_is_authorization:
  "checker_decides cache (configured_checker (handler_name h)) header = authorize cache h header"
  by (simp add: checker_decides_def configured_checker_def authorize_def auth_scopes_def MakeAuthChecker_def
      split: option.split)

section \<open>Constructors and declarations\<close>

text \<open>
  The declarations of a constructor are those it makes during a start. The publisher publishes to
  the exchange and the fan-out consumer reads the queue that it declares; consuming begins when all
  components are loaded, and stopping ends it.
\<close>

lemma broker_calls_made: "broker_calls fails as = Inr ds \<longleftrightarrow> ds = as \<and> (\<forall>a \<in> set as. fails a = None)"
  by (induction as arbitrary: ds) (auto simp: sum_bind_eq_Inr split: option.split)

lemma broker_calls_failed: "broker_calls fails as = Inl e \<Longrightarrow> \<exists>a \<in> set as. fails a = Some e"
  by (induction as) (auto split: option.splits sum.splits simp: sum_bind_def)

lemma constructors_declare:
  "PostFeedPublisher_ctor fails context = Inr (m1, ds) \<Longrightarrow>
     ds = filter broker_call (snd (PostFeedPublisher_new F)) \<and> Exchange (pfp_exchange m1) kTopic \<in> set ds"
  "WsFanoutConsumer_ctor L i fails context = Inr (m2, ds) \<Longrightarrow>
     ds = filter broker_call (snd (WsFanoutConsumer_new F L i)) \<and> Queue (cb_queue (wfc_impl m2)) [kAutoDelete] \<in> set ds"
  "DialogServiceComponent_ctor fails context = Inr (m3, ds) \<Longrightarrow> ds = filter broker_call (snd (DialogServiceComponent_new F))"
  "CounterConsumer_ctor fails context = Inr (m4, ds) \<Longrightarrow> ds = filter broker_call (snd (CounterConsumer_new F))"
  by (auto simp: PostFeedPublisher_ctor_def PostFeedPublisher_new_def WsFanoutConsumer_ctor_def WsFanoutConsumer_Impl_ctor_def
      WsFanoutConsumer_new_def DialogServiceComponent_ctor_def DialogServiceComponent_new_def CounterConsumer_ctor_def
      CounterConsumer_new_def component_base_def consumer_base_def sum_bind_eq_Inr broker_calls_made Let_def
      simp del: broker_calls.simps)

lemma fanout_consumer_lifecycle:
  assumes "WsFanoutConsumer_ctor L i fails context = Inr (m, ds)"
  shows "\<not> cb_started (wfc_impl m)" and "cb_started (wfc_impl (WsFanoutConsumer_OnAllComponentsLoaded m))"
    and "WsFanoutConsumer_OnAllComponentsAreStopping (WsFanoutConsumer_OnAllComponentsLoaded m) = m"
  using assms by (auto simp: WsFanoutConsumer_ctor_def WsFanoutConsumer_Impl_ctor_def sum_bind_eq_Inr Let_def
      WsFanoutConsumer_OnAllComponentsLoaded_def WsFanoutConsumer_OnAllComponentsAreStopping_def)

text \<open>The reconciler runs until it is destroyed.\<close>

lemma reconciler_runs:
  "CounterReconciler_ctor context = Inr m \<Longrightarrow> pt_running (cr_task m) \<and> \<not> pt_running (cr_task (CounterReconciler_dtor m))"
  by (auto simp: CounterReconciler_ctor_def CounterReconciler_dtor_def sum_bind_eq_Inr)

end
