(* ===== verification/Construction.thy ===== *)
theory Construction
  imports Objects
begin

text \<open>
  The start of a process as the construction of its objects: what a constructor needs is there when
  its lookups are done, so that only its own calls of the broker can make it throw
  (\<open>constructor_succeeds\<close>, \<open>constructor_throws\<close>), and what the objects refer to is shared and of the
  right class in every state of a start (\<open>build_inv\<close>).
\<close>

section \<open>Construction succeeds\<close>

definition present :: "components \<Rightarrow> component_class \<Rightarrow> bool" where
  "present ctx C \<longleftrightarrow> (\<exists>obj. ctx (component_name C) = Some obj \<and> class_of obj = C)"

lemma present_found: "present ctx C \<Longrightarrow> FindComponent ctx C (component_name C) = Inr (component_name C)"
  by (auto simp: present_def FindComponent_def)

lemmas present_components = present_found [where C = C_AuthCache, simplified] present_found [where C = C_PostFeedCache, simplified]
  present_found [where C = C_PostFeedPublisher, simplified] present_found [where C = C_PostFeedWsManager, simplified]
  present_found [where C = C_ClientFactory, simplified]

lemma present_handles:
  "present ctx C_Postgres \<Longrightarrow> GetCluster ctx DataBase_Name = Inr (Cluster DataBase_Name)"
  "present ctx C_RabbitMQ \<Longrightarrow> GetRabbitClient ctx ''rabbitmq-driver'' = Inr (Rabbit_Client ''rabbitmq-driver'')"
  "present ctx C_DialogGrpcClientComponent \<Longrightarrow>
     GetDialogClient ctx ''dialog-grpc-client'' = Inr (Dialog_Client ''dialog-grpc-client'')"
  "present ctx C_CounterGrpcClientComponent \<Longrightarrow>
     GetCounterClient ctx ''counter-grpc-client'' = Inr (Counter_Client ''counter-grpc-client'')"
  using present_found [of ctx C_Postgres] present_found [of ctx C_RabbitMQ]
    present_found [of ctx C_DialogGrpcClientComponent] present_found [of ctx C_CounterGrpcClientComponent]
  by (simp_all add: GetCluster_def GetRabbitClient_def GetDialogClient_def GetCounterClient_def)

lemma present_redis:
  assumes "present ctx C_Redis" and "\<And>gs. ctx ''key-value-database'' = Some (O_Redis gs) \<Longrightarrow> gs = groups"
    and "g \<in> set groups"
  shows "GetRedisClient ctx ''key-value-database'' g = Inr (Redis_Client ''key-value-database'' g)"
proof -
  obtain obj where obj: "ctx ''key-value-database'' = Some obj" "class_of obj = C_Redis"
    using assms(1) by (auto simp: present_def)
  then obtain gs where "obj = O_Redis gs" by (cases obj) simp_all
  with obj(1) have redis: "ctx ''key-value-database'' = Some (O_Redis gs)" by simp
  with assms(2) have "gs = groups" .
  with redis assms(3) show ?thesis by (simp add: GetRedisClient_def)
qed

lemma present_checker:
  assumes "Option.bind (map_of static_config name) hc_scopes \<noteq> None \<Longrightarrow> present ctx C_AuthCache"
  shows "HttpHandlerBase_ctor ctx name = Inr (configured_checker name)"
proof (cases "Option.bind (map_of static_config name) hc_scopes")
  case None
  then show ?thesis by (simp add: HttpHandlerBase_ctor_def configured_checker_def)
next
  case (Some scopes)
  with assms have "present ctx C_AuthCache" by simp
  then show ?thesis
    by (simp add: HttpHandlerBase_ctor_def configured_checker_def Some CheckerFactory_ctor_def present_components(1)
        CheckerFactory_MakeAuthChecker_def AuthCheckerBearer_ctor_def)
qed

lemmas handler_constructors = UserRegisterHandler_ctor_def UserGetHandler_ctor_def UserSearchHandler_ctor_def Login_ctor_def
  FriendAddHandler_ctor_def FriendDeleteHandler_ctor_def PostCreateHandler_ctor_def PostUpdateHandler_ctor_def
  PostDeleteHandler_ctor_def PostGetHandler_ctor_def PostFeedHandler_ctor_def PostFeedWsHandler_ctor_def
  DialogSendHandler_ctor_def DialogListHandler_ctor_def DialogUnreadHandler_ctor_def

lemmas component_constructors = PostFeedCache_ctor_def PostFeedWsManager_ctor_def PostFeedPublisher_ctor_def PostFeedConsumer_ctor_def
  WsFanoutConsumer_ctor_def WsFanoutConsumer_Impl_ctor_def DialogServiceComponent_ctor_def DialogServiceImpl_ctor_def
  CounterServiceComponent_ctor_def CounterServiceImpl_ctor_def CounterConsumer_ctor_def CounterReconciler_ctor_def

lemma configured:
  "configured_checker (component_name C) = None \<or>
   configured_checker (component_name C) = Some \<lparr>acb_auth_cache = ''auth-pg-cache'', acb_required_scopes = [''read'']\<rparr> \<and> C_AuthCache \<in> set (needs C)"
  by (cases C; simp add: configured_checker_def static_config_def bearer_route_def open_route_def DataBase_Name_def)

lemma base_constructed:
  assumes "\<forall>D \<in> set (needs C). present ctx D"
  shows "HttpHandlerBase_ctor ctx (component_name C) = Inr (configured_checker (component_name C))"
proof (rule present_checker)
  assume "Option.bind (map_of static_config (component_name C)) hc_scopes \<noteq> None"
  then have "configured_checker (component_name C) \<noteq> None" by (simp add: configured_checker_def)
  with configured [of C] assms show "present ctx C_AuthCache" by auto
qed

text \<open>What is to be shown of an object that is built for a class.\<close>

definition built_ok :: "process \<Rightarrow> component_class \<Rightarrow> object \<Rightarrow> bool" where
  "built_ok p C obj \<longleftrightarrow> class_of obj = C
     \<and> (\<forall>(m, D) \<in> set (refs_of obj). D \<in> set (needs C) \<and> m = component_name D)
     \<and> set (groups_of obj) \<subseteq> set (redis_groups p) \<and> checker_of obj = configured_checker (component_name C)
     \<and> (\<forall>gs. obj = O_Redis gs \<longrightarrow> gs = redis_groups p)"

lemma checker_refs_configured:
  "\<forall>(m, D) \<in> set (checker_refs (configured_checker (component_name C))). D \<in> set (needs C) \<and> m = component_name D"
  using configured [of C] by auto

abbreviation handler_classes :: "component_class set" where
  "handler_classes \<equiv> {C_UserRegisterHandler, C_UserGetHandler, C_UserSearchHandler, C_Login, C_FriendAddHandler, C_FriendDeleteHandler,
    C_PostCreateHandler, C_PostUpdateHandler, C_PostDeleteHandler, C_PostGetHandler, C_PostFeedHandler, C_PostFeedWsHandler,
    C_DialogSendHandler, C_DialogListHandler, C_DialogUnreadHandler}"

lemma construct_handler:
  assumes "C \<in> handler_classes" and "\<forall>D \<in> set (needs C). present ctx D"
  shows "\<exists>obj. construct L i p (\<lambda>_. None) ctx C = Inr obj \<and> built_ok p C obj"
  using assms base_constructed [OF assms(2)] checker_refs_configured [of C]
  by (elim insertE) (simp_all add: handler_constructors present_components present_handles built_ok_def)

lemma construct_component:
  assumes "C \<in> set (classes p)" and "C \<notin> handler_classes" and "\<forall>D \<in> set (needs C). present ctx D"
    and "\<And>gs. ctx ''key-value-database'' = Some (O_Redis gs) \<Longrightarrow> gs = redis_groups p"
  shows "\<exists>obj. construct L i p (\<lambda>_. None) ctx C = Inr obj \<and> built_ok p C obj"
proof -
  have r: "GetRedisClient ctx ''key-value-database'' g = Inr (Redis_Client ''key-value-database'' g)"
    if "present ctx C_Redis" "g \<in> set (redis_groups p)" for g
    using present_redis [OF that(1) assms(4) that(2)] .
  have n: "configured_checker (component_name C) = None"
    using assms(2) by (cases C; simp add: configured_checker_def static_config_def DataBase_Name_def)
  note defs = component_constructors present_components present_handles built_ok_def Let_def
  show ?thesis
  proof (cases p)
    case Monolith
    with assms(1,2) have "C \<in> {C_Redis, C_RabbitMQ, C_AuthCache, C_Postgres, C_ClientFactory, C_DialogGrpcClientComponent,
      C_CounterGrpcClientComponent, C_PostFeedCache, C_PostFeedWsManager, C_PostFeedPublisher, C_PostFeedConsumer, C_WsFanoutConsumer}"
      by (simp add: social_net_classes_def)
    then show ?thesis using assms(3) r n by (elim insertE) (simp_all add: defs Monolith)
  next
    case Chat
    with assms(1) have "C \<in> {C_Redis, C_RabbitMQ, C_DialogServiceComponent}" by (simp add: chat_classes_def)
    then show ?thesis using assms(3) r n by (elim insertE) (simp_all add: defs Chat)
  next
    case Counter
    with assms(1) have "C \<in> {C_Redis, C_RabbitMQ, C_CounterServiceComponent, C_CounterConsumer, C_CounterReconciler}"
      by (simp add: counter_classes_def)
    then show ?thesis using assms(3) r n by (elim insertE) (simp_all add: defs Counter)
  qed
qed

lemma construct_ok:
  assumes "C \<in> set (classes p) \<or> C = C_Other" and "\<forall>D \<in> set (needs C). present ctx D"
    and "\<And>gs. ctx ''key-value-database'' = Some (O_Redis gs) \<Longrightarrow> gs = redis_groups p"
  shows "\<exists>obj. construct L i p (\<lambda>_. None) ctx C = Inr obj \<and> built_ok p C obj"
proof -
  consider "C \<in> handler_classes" | "C \<notin> handler_classes" "C \<in> set (classes p)" | "C = C_Other" using assms(1) by blast
  then show ?thesis
  proof cases
    case 1
    then show ?thesis by (rule construct_handler [OF _ assms(2)])
  next
    case 2
    show ?thesis by (rule construct_component [OF 2(2,1) assms(2,3)])
  next
    case 3
    then show ?thesis by (simp add: built_ok_def configured_checker_def static_config_def)
  qed
qed

text \<open>A call of the broker that throws makes the constructor throw.\<close>

definition calling_classes :: "component_class set" where
  "calling_classes = {C_PostFeedPublisher, C_WsFanoutConsumer, C_DialogServiceComponent, C_CounterConsumer}"

lemma construct_without_calls:
  "C \<notin> calling_classes \<Longrightarrow> construct L i p fails ctx C = construct L i p (\<lambda>_. None) ctx C"
  by (cases C) (simp_all add: calling_classes_def)

lemma calls_all_made: "broker_calls (\<lambda>_. None) as = Inr as"
  by (simp add: broker_calls_made)

lemma construct_calls:
  "construct L i p (\<lambda>_. None) ctx C_PostFeedPublisher = Inr obj \<Longrightarrow> construct L i p fails ctx C_PostFeedPublisher
     = sum_bind (broker_calls fails (filter broker_call (snd (PostFeedPublisher_new F)))) (\<lambda>_. Inr obj)"
  "construct L i p (\<lambda>_. None) ctx C_WsFanoutConsumer = Inr obj \<Longrightarrow> construct L i p fails ctx C_WsFanoutConsumer
     = sum_bind (broker_calls fails (filter broker_call (snd (WsFanoutConsumer_new F L i)))) (\<lambda>_. Inr obj)"
  "construct L i p (\<lambda>_. None) ctx C_DialogServiceComponent = Inr obj \<Longrightarrow> construct L i p fails ctx C_DialogServiceComponent
     = sum_bind (broker_calls fails (filter broker_call (snd (DialogServiceComponent_new F)))) (\<lambda>_. Inr obj)"
  "construct L i p (\<lambda>_. None) ctx C_CounterConsumer = Inr obj \<Longrightarrow> construct L i p fails ctx C_CounterConsumer
     = sum_bind (broker_calls fails (filter broker_call (snd (CounterConsumer_new F)))) (\<lambda>_. Inr obj)"
  by (auto simp: component_constructors constructors component_base_def consumer_base_def calls_all_made sum_bind_def Let_def
      simp del: broker_calls.simps split: sum.splits prod.splits)

section \<open>The classes in the component lists\<close>

lemma classes_named: "distinct (map component_name (classes p))"
  by (cases p) (simp_all add: social_net_classes_def chat_classes_def counter_classes_def DataBase_Name_def)

lemma class_at_name: "C \<in> set (classes p) \<Longrightarrow> class_at p (component_name C) = C"
proof -
  assume "C \<in> set (classes p)"
  then have "map_of (map (\<lambda>C. (component_name C, C)) (classes p)) (component_name C) = Some C"
    using classes_named [of p] by (intro map_of_is_SomeI) (auto simp: comp_def)
  then show ?thesis by (simp add: class_at_def)
qed

lemma class_at_cases: "class_at p n \<in> set (classes p) \<and> component_name (class_at p n) = n \<or> class_at p n = C_Other"
  by (auto simp: class_at_def split: option.split dest!: map_of_SomeD)

lemma needs_registered: "C \<in> set (classes p) \<Longrightarrow> D \<in> set (needs C) \<Longrightarrow> D \<in> set (classes p)"
proof -
  have "\<forall>C \<in> set (classes p). set (needs C) \<subseteq> set (classes p)"
    by (cases p) (simp_all add: social_net_classes_def chat_classes_def counter_classes_def)
  then show "C \<in> set (classes p) \<Longrightarrow> D \<in> set (needs C) \<Longrightarrow> D \<in> set (classes p)" by blast
qed

text \<open>The constructors look for what their members need.\<close>

definition finds_needs :: "component_class \<Rightarrow> component \<Rightarrow> bool" where
  "finds_needs C c \<longleftrightarrow> fst c = component_name C \<and> (\<forall>D \<in> set (needs C). Find (component_name D) \<in> set (snd c))"

lemma own_finds_needs:
  "list_all2 finds_needs (filter (\<lambda>C. C \<notin> {C_Redis, C_RabbitMQ, C_Postgres, C_ClientFactory}) social_net_classes)
     (AuthCache_new F # social_net_own F L i)"
  "finds_needs C_DialogServiceComponent (DialogServiceComponent_new F)"
  "finds_needs C_CounterServiceComponent (CounterServiceComponent_new F)"
  "finds_needs C_CounterConsumer (CounterConsumer_new F)"
  "finds_needs C_CounterReconciler (CounterReconciler_new F)"
  by (simp_all add: social_net_classes_def finds_needs_def constructors handler_component_def handler_base_def static_config_def
      bearer_route_def open_route_def CheckerFactory_new_def consumer_base_def DataBase_Name_def)

lemma list_all2_left: "list_all2 P xs ys \<Longrightarrow> y \<in> set ys \<Longrightarrow> \<exists>x \<in> set xs. P x y"
  by (induction rule: list_all2_induct) auto

context startup_framework
begin

lemma component_finds_needs:
  assumes "(n, as) \<in> set (component_list F L i p)" and "D \<in> set (needs (class_at p n))"
  shows "Find (component_name D) \<in> set as"
proof -
  have own: "Find (component_name D) \<in> set as" if "finds_needs C (n, as)" "C \<in> set (classes p)" for C
    using that assms(2) class_at_name [of C p] by (simp add: finds_needs_def)
  have library: False if "n \<in> set (library_names F p)"
  proof -
    from assms(2) class_at_cases [of p n] have "component_name (class_at p n) = n" "needs (class_at p n) \<noteq> []" by auto
    then have "n \<in> set base_components \<or> n \<in> set top_components"
      by (cases "class_at p n") (auto simp: base_components_def top_components_def)
    with no_clash [of n p] that show False by (auto simp: library_names_def)
  qed
  with assms(1) have c: "(n, as) \<in> set (own_components F L i p)"
    unfolding component_list_set by (auto simp: lib_component_def)
  show ?thesis
  proof (cases p)
    case Monolith
    with c have "(n, as) \<in> set (AuthCache_new F # social_net_own F L i)" by (simp only: own_components_def process.case)
    from list_all2_left [OF own_finds_needs(1) this] obtain C where C: "C \<in> set social_net_classes" "finds_needs C (n, as)"
      unfolding set_filter by blast
    show ?thesis by (rule own [OF C(2)]) (simp only: Monolith classes.simps C(1))
  next
    case Chat
    with c have c: "(n, as) = DialogServiceComponent_new F" by (simp add: own_components_def)
    show ?thesis
    proof (rule own)
      show "finds_needs C_DialogServiceComponent (n, as)" unfolding c by (rule own_finds_needs(2))
    qed (simp add: Chat chat_classes_def)
  next
    case Counter
    with c have c: "(n, as) \<in> {CounterServiceComponent_new F, CounterConsumer_new F, CounterReconciler_new F}"
      by (simp add: own_components_def)
    have classes: "C \<in> set (classes p)" if "C \<in> {C_CounterServiceComponent, C_CounterConsumer, C_CounterReconciler}" for C
      using that by (auto simp: Counter counter_classes_def)
    have "\<exists>C \<in> {C_CounterServiceComponent, C_CounterConsumer, C_CounterReconciler}. finds_needs C (n, as)"
      using c own_finds_needs(3-5) [of F] by (elim insertE) simp_all
    then show ?thesis using own classes by blast
  qed
qed

text \<open>The constructors that call the broker are those of the four classes.\<close>

lemma own_callers: "filter (\<lambda>n. n \<in> broker_callers) (map fst (own_components F L i p)) =
    (case p of Monolith \<Rightarrow> map component_name [C_PostFeedPublisher, C_WsFanoutConsumer]
     | Chat \<Rightarrow> [component_name C_DialogServiceComponent] | Counter \<Rightarrow> [component_name C_CounterConsumer])"
  by (cases p) (simp_all add: own_components_def constructors handler_component_def broker_callers_def)

lemma calling_class:
  assumes "(n, as) \<in> set (component_list F L i p)" and "a \<in> set as" and "broker_call a"
  shows "class_at p n \<in> calling_classes"
proof -
  have "(n, as) \<in> set (own_components F L i p)"
    using assms unfolding component_list_set by (auto simp: lib_component_def)
  then have "n \<in> set (map fst (own_components F L i p))" by force
  with no_other_calls [OF assms] have "n \<in> set (filter (\<lambda>n. n \<in> broker_callers) (map fst (own_components F L i p)))" by simp
  moreover have "class_at Monolith (component_name C_PostFeedPublisher) = C_PostFeedPublisher"
    "class_at Monolith (component_name C_WsFanoutConsumer) = C_WsFanoutConsumer"
    "class_at Chat (component_name C_DialogServiceComponent) = C_DialogServiceComponent"
    "class_at Counter (component_name C_CounterConsumer) = C_CounterConsumer"
    by (rule class_at_name; simp add: social_net_classes_def chat_classes_def counter_classes_def)+
  ultimately show ?thesis
    unfolding own_callers by (cases p) (auto simp: calling_classes_def simp del: component_name.simps)
qed

lemma calls_of_class:
  assumes "map_of (component_list F L i p) n = Some as" and "construct L i p (\<lambda>_. None) ctx (class_at p n) = Inr obj"
  shows "construct L i p fails ctx (class_at p n) = sum_bind (broker_calls fails (filter broker_call as)) (\<lambda>_. Inr obj)"
proof (cases "class_at p n \<in> calling_classes")
  case False
  with calling_class [OF map_of_SomeD [OF assms(1)]] have "filter broker_call as = []" by (auto simp: filter_empty_conv)
  with construct_without_calls [OF False, of L i p fails ctx] assms(2) show ?thesis by (simp add: sum_bind_def)
next
  case True
  with class_at_cases [of p n] have C: "class_at p n \<in> set (classes p)" "component_name (class_at p n) = n"
    by (auto simp: calling_classes_def)
  consider "class_at p n = C_PostFeedPublisher" | "class_at p n = C_WsFanoutConsumer"
    | "class_at p n = C_DialogServiceComponent" | "class_at p n = C_CounterConsumer"
    using True by (auto simp: calling_classes_def)
  then show ?thesis
  proof cases
    case 1
    with C have p: "p = Monolith" "n = ''post-feed-publisher''"
      by (cases p; simp add: chat_classes_def counter_classes_def)+
    with assms(1) declaring_components(1) [of L i] have "as = snd (PostFeedPublisher_new F)" by simp
    with construct_calls(1) [of L i p ctx obj fails F] assms(2) show ?thesis unfolding 1 by blast
  next
    case 2
    with C have p: "p = Monolith" "n = ''ws-fanout-consumer''"
      by (cases p; simp add: chat_classes_def counter_classes_def)+
    with assms(1) declaring_components(2) [of L i] have "as = snd (WsFanoutConsumer_new F L i)" by simp
    with construct_calls(2) [of L i p ctx obj fails F] assms(2) show ?thesis unfolding 2 by blast
  next
    case 3
    with C have p: "p = Chat" "n = ''dialog-grpc-service''"
      by (cases p; simp add: social_net_classes_def counter_classes_def)+
    with assms(1) declaring_components(3) [of L i] have "as = snd (DialogServiceComponent_new F)" by simp
    with construct_calls(3) [of L i p ctx obj fails F] assms(2) show ?thesis unfolding 3 by blast
  next
    case 4
    with C have p: "p = Counter" "n = ''counter-consumer''"
      by (cases p; simp add: social_net_classes_def chat_classes_def)+
    with assms(1) declaring_components(4) [of L i] have "as = snd (CounterConsumer_new F)" by simp
    with construct_calls(4) [of L i p ctx obj fails F] assms(2) show ?thesis unfolding 4 by blast
  qed
qed

end

section \<open>Building a process\<close>

text \<open>
  A start (\<open>startup_step\<close>) that also makes the objects: the constructor of a component, whose
  lookups have all waited for their components and whose calls have all succeeded, puts its object
  into the context.
\<close>

type_synonym build = "startup \<times> components"

inductive build_step :: "lib \<Rightarrow> uuid \<Rightarrow> process \<Rightarrow> string set \<Rightarrow> build \<Rightarrow> build \<Rightarrow> bool"
  for L :: lib and i :: uuid and p :: process and fragile :: "string set"
where
  runs: "startup_step (redis_groups p) fragile s t \<Longrightarrow> created t = created s \<Longrightarrow>
    build_step L i p fragile (s, ctx) (t, ctx)"
| builds: "todo s n = Some [] \<Longrightarrow> construct L i p (\<lambda>_. None) ctx (class_at p n) = Inr obj \<Longrightarrow>
    build_step L i p fragile (s, ctx) (s\<lparr>todo := (todo s)(n := None), created := insert n (created s)\<rparr>, ctx(n \<mapsto> obj))"

definition build_begin :: "component list \<Rightarrow> topology \<Rightarrow> build" where
  "build_begin cs T = (startup_begin cs T, Map.empty)"

text \<open>Every lookup that a constructor has behind it has found its component.\<close>

definition found_inv :: "(string \<rightharpoonup> action list) \<Rightarrow> startup \<Rightarrow> bool" where
  "found_inv cs s \<longleftrightarrow> (\<forall>n as. cs n = Some as \<longrightarrow> n \<notin> thrown s \<longrightarrow> (\<exists>ran. as = ran @ (case todo s n of None \<Rightarrow> [] | Some rest \<Rightarrow> rest) \<and>
     (\<forall>m. Find m \<in> set ran \<longrightarrow> m \<in> created s)))"

lemma found_inv_run:
  assumes inv: "found_inv cs s" and n: "todo s n = Some (a # rest)" and a: "\<And>m. a = Find m \<Longrightarrow> m \<in> created s"
  shows "found_inv cs (s\<lparr>todo := (todo s)(n \<mapsto> rest), topo := T\<rparr>)"
  unfolding found_inv_def
proof (intro allI impI)
  fix k as assume "cs k = Some as" and "k \<notin> thrown (s\<lparr>todo := (todo s)(n \<mapsto> rest), topo := T\<rparr>)"
  with inv obtain ran where ran: "as = ran @ (case todo s k of None \<Rightarrow> [] | Some rest \<Rightarrow> rest)"
    "\<forall>m. Find m \<in> set ran \<longrightarrow> m \<in> created s" unfolding found_inv_def by auto
  with n a show "\<exists>ran. as = ran @ (case todo (s\<lparr>todo := (todo s)(n \<mapsto> rest), topo := T\<rparr>) k of None \<Rightarrow> [] | Some rest \<Rightarrow> rest)
      \<and> (\<forall>m. Find m \<in> set ran \<longrightarrow> m \<in> created (s\<lparr>todo := (todo s)(n \<mapsto> rest), topo := T\<rparr>))"
    by (cases "k = n") (auto intro: exI [of _ "ran @ [a]"])
qed

lemma found_inv_throw:
  "found_inv cs s \<Longrightarrow> found_inv cs (s\<lparr>todo := (todo s)(n := None), thrown := insert n (thrown s), topo := T\<rparr>)"
  by (simp add: found_inv_def)

lemma startup_step_found:
  assumes "startup_step groups fragile s t" and "found_inv cs s"
  shows "found_inv cs t"
  using assms
proof (induction rule: startup_step.induct)
  case (found s n m rest)
  from found_inv_run [OF found.prems found.hyps(1), of "topo s"] found.hyps(2) show ?case by simp
next
  case (got_client s n g rest)
  from found_inv_run [OF got_client.prems got_client.hyps(1), of "topo s"] show ?case by simp
next
  case (called s n a rest)
  from called.hyps(2) have "a \<noteq> Find m" for m by auto
  with found_inv_run [OF called.prems called.hyps(1)] show ?case by blast
next
  case (call_failed s n a rest T)
  from found_inv_throw [OF call_failed.prems] show ?case .
next
  case (cancelled s n m rest)
  from found_inv_throw [OF cancelled.prems, of "topo s" n] show ?case by simp
next
  case (broke s n rest)
  from found_inv_throw [OF broke.prems, of "topo s" n] show ?case by simp
next
  case (constructed s n)
  have "\<exists>ran. as = ran @ (case ((todo s)(n := None)) k of None \<Rightarrow> [] | Some rest \<Rightarrow> rest) \<and>
      (\<forall>m. Find m \<in> set ran \<longrightarrow> m = n \<or> m \<in> created s)" if "cs k = Some as" "k \<notin> thrown s" for k as
  proof -
    from constructed.prems that obtain ran where "as = ran @ (case todo s k of None \<Rightarrow> [] | Some rest \<Rightarrow> rest)"
      "\<forall>m. Find m \<in> set ran \<longrightarrow> m \<in> created s" unfolding found_inv_def by blast
    with constructed.hyps show ?thesis by (cases "k = n") auto
  qed
  then show ?case by (simp add: found_inv_def fun_upd_def)
qed

definition build_inv :: "process \<Rightarrow> (string \<rightharpoonup> action list) \<Rightarrow> build \<Rightarrow> bool" where
  "build_inv p cs b \<longleftrightarrow> (case b of (s, ctx) \<Rightarrow> startup_inv cs s \<and> found_inv cs s \<and> dom ctx = created s \<and>
     (\<forall>n obj. ctx n = Some obj \<longrightarrow> built_ok p (class_at p n) obj \<and> (\<forall>D \<in> set (needs (class_at p n)). present ctx D)))"

lemma build_invD:
  assumes "build_inv p cs (s, ctx)"
  shows "startup_inv cs s" and "found_inv cs s" and "dom ctx = created s"
    and "ctx n = Some obj \<Longrightarrow> built_ok p (class_at p n) obj"
    and "ctx n = Some obj \<Longrightarrow> D \<in> set (needs (class_at p n)) \<Longrightarrow> present ctx D"
  using assms by (auto simp: build_inv_def)

lemma build_begin_inv: "build_inv p (map_of cs) (build_begin cs T)"
proof -
  have "found_inv (map_of cs) (startup_begin cs T)" by (simp add: found_inv_def startup_begin_def)
  moreover have "created (startup_begin cs T) = {}" by (simp add: startup_begin_def)
  ultimately show ?thesis using startup_begin_inv [of cs T] by (simp add: build_inv_def build_begin_def)
qed

lemma present_upd: "present ctx D \<Longrightarrow> n \<notin> dom ctx \<Longrightarrow> present (ctx(n \<mapsto> obj)) D"
  by (auto simp: present_def)

lemma needs_class:
  assumes "D \<in> set (needs (class_at p n))"
  shows "class_at p n \<in> set (classes p)" and "class_at p (component_name D) = D"
proof -
  show c: "class_at p n \<in> set (classes p)" using class_at_cases [of p n] assms by auto
  show "class_at p (component_name D) = D" by (rule class_at_name [OF needs_registered [OF c assms]])
qed

context startup_framework
begin

lemma needs_present:
  assumes inv: "build_inv p (map_of (component_list F L i p)) (s, ctx)" and n: "todo s n = Some rest"
    and rest: "\<forall>a \<in> set rest. broker_call a" and D: "D \<in> set (needs (class_at p n))"
  shows "present ctx D"
proof -
  note b = build_invD [OF inv]
  obtain ran where as: "map_of (component_list F L i p) n = Some (ran @ rest)"
    using waiting(4) [OF b(1) n] by blast
  then obtain ran' where "ran @ rest = ran' @ rest" "\<forall>m. Find m \<in> set ran' \<longrightarrow> m \<in> created s"
    using b(2) n waiting(2) [OF b(1) n] unfolding found_inv_def by fastforce
  then have found: "\<forall>m. Find m \<in> set ran \<longrightarrow> m \<in> created s" by simp
  have "Find (component_name D) \<in> set (ran @ rest)"
    by (rule component_finds_needs [OF map_of_SomeD [OF as] D])
  moreover have "Find (component_name D) \<notin> set rest" using rest by auto
  ultimately obtain obj where obj: "ctx (component_name D) = Some obj" using found b(3) by auto
  with b(4) [OF obj] needs_class(2) [OF D] show ?thesis by (simp add: present_def built_ok_def)
qed

text \<open>A constructor whose lookups are done can throw only by its calls of the broker.\<close>

lemma constructor_succeeds:
  assumes inv: "build_inv p (map_of (component_list F L i p)) (s, ctx)" and n: "todo s n = Some rest"
    and rest: "\<forall>a \<in> set rest. broker_call a"
  shows "\<exists>obj. construct L i p (\<lambda>_. None) ctx (class_at p n) = Inr obj \<and> built_ok p (class_at p n) obj"
proof (rule construct_ok)
  show "class_at p n \<in> set (classes p) \<or> class_at p n = C_Other" using class_at_cases [of p n] by blast
  show "\<forall>D \<in> set (needs (class_at p n)). present ctx D" using needs_present [OF inv n rest] by blast
  show "gs = redis_groups p" if "ctx ''key-value-database'' = Some (O_Redis gs)" for gs
    using build_invD(4) [OF inv that] by (simp add: built_ok_def)
qed

lemma constructor_throws:
  assumes inv: "build_inv p (map_of (component_list F L i p)) (s, ctx)" and n: "todo s n = Some rest"
    and rest: "\<forall>a \<in> set rest. broker_call a" and as: "map_of (component_list F L i p) n = Some as"
  shows "case construct L i p fails ctx (class_at p n) of
      Inr obj \<Rightarrow> \<forall>a \<in> set as. broker_call a \<longrightarrow> fails a = None
    | Inl e \<Rightarrow> \<exists>a \<in> set as. broker_call a \<and> fails a = Some e"
proof -
  obtain obj where "construct L i p (\<lambda>_. None) ctx (class_at p n) = Inr obj" using constructor_succeeds [OF inv n rest] by blast
  note made = calls_of_class [OF as this, of fails]
  show ?thesis
  proof (cases "broker_calls fails (filter broker_call as)")
    case (Inl e)
    from broker_calls_failed [OF this] show ?thesis unfolding made Inl by (auto simp: sum_bind_def)
  next
    case (Inr ds)
    then have "\<forall>a \<in> set as. broker_call a \<longrightarrow> fails a = None" by (simp add: broker_calls_made)
    then show ?thesis unfolding made Inr by (simp add: sum_bind_def)
  qed
qed

lemma build_step_inv:
  assumes "build_step L i p fragile b b'" and "build_inv p (map_of (component_list F L i p)) b"
  shows "build_inv p (map_of (component_list F L i p)) b'"
  using assms
proof cases
  case (runs s t ctx)
  note b = build_invD [OF assms(2) [unfolded runs(1)]]
  from startup_step_inv [OF runs(3) b(1)] startup_step_found [OF runs(3) b(2)] b(3-5) runs(2,4)
  show ?thesis by (simp add: build_inv_def)
next
  case (builds s n ctx obj)
  note inv = assms(2) [unfolded builds(1)]
  note b = build_invD [OF inv]
  let ?t = "s\<lparr>todo := (todo s)(n := None), created := insert n (created s)\<rparr>"
  have step: "startup_step (redis_groups p) fragile s ?t" by (rule startup_step.constructed [OF builds(3)])
  have new: "n \<notin> dom ctx" using waiting(1) [OF b(1) builds(3)] b(3) by simp
  have obj: "built_ok p (class_at p n) obj" using constructor_succeeds [OF inv builds(3)] builds(4) by auto
  have needed: "D \<in> set (needs (class_at p n)) \<Longrightarrow> present ctx D" for D by (rule needs_present [OF inv builds(3)]) simp_all
  have "built_ok p (class_at p k) o' \<and> (\<forall>D \<in> set (needs (class_at p k)). present (ctx(n \<mapsto> obj)) D)"
    if "(ctx(n \<mapsto> obj)) k = Some o'" for k o'
    using that obj b(4,5) [of k] needed present_upd [OF _ new] by (cases "k = n") auto
  moreover have "dom (ctx(n \<mapsto> obj)) = created ?t" using b(3) by simp
  ultimately show ?thesis
    using startup_step_inv [OF step b(1)] startup_step_found [OF step b(2)] unfolding builds(2) by (simp add: build_inv_def)
qed

lemma build_reach_inv:
  "(build_step L i p fragile)\<^sup>*\<^sup>* (build_begin (component_list F L i p) T) b \<Longrightarrow> build_inv p (map_of (component_list F L i p)) b"
  by (induction rule: rtranclp_induct) (blast intro: build_begin_inv build_step_inv)+

text \<open>Every start makes objects as it goes.\<close>

lemma start_builds:
  "(startup_step (redis_groups p) fragile)\<^sup>*\<^sup>* (startup_begin (component_list F L i p) T) s \<Longrightarrow>
   \<exists>ctx. (build_step L i p fragile)\<^sup>*\<^sup>* (build_begin (component_list F L i p) T) (s, ctx)"
proof (induction rule: rtranclp_induct)
  case base
  then show ?case unfolding build_begin_def by blast
next
  case (step s t)
  then obtain ctx where ctx: "(build_step L i p fragile)\<^sup>*\<^sup>* (build_begin (component_list F L i p) T) (s, ctx)" by blast
  have "\<exists>ctx'. build_step L i p fragile (s, ctx) (t, ctx')"
    using step.hyps(2)
  proof cases
    case (constructed n)
    from constructor_succeeds [OF build_reach_inv [OF ctx] constructed(2)] show ?thesis
      unfolding constructed(1) by (auto intro: build_step.builds [OF constructed(2)])
  qed (use build_step.runs [OF step.hyps(2)] in auto)
  with ctx show ?case by (blast intro: rtranclp.rtrancl_into_rtrancl)
qed

end

section \<open>Properties\<close>

lemma handler_class: "\<exists>C \<in> set (classes Monolith). component_name C = handler_name h"
  by (cases h) (simp_all add: social_net_classes_def)

text \<open>
  C24. The components fit together. However the constructors of a process interleave and whatever
  fails on the way, a constructor whose lookups are done throws exactly if one of its calls of the
  broker does, with that exception: what it looks up exists and is of the class it asks for, and its
  Redis group is configured. Every reference an object holds is to an existing component of the
  right class, and two objects that refer to components of the same class refer to the same one: all
  share one database, one Redis, one broker, one feed cache and one session manager. Every handler's
  checker decides as its configuration says.
\<close>

theorem components_fit_together:
  assumes "startup_framework F lib_rank" and "cs = component_list F L i p"
    and "(startup_step (redis_groups p) fragile)\<^sup>*\<^sup>* (startup_begin cs T) s"
  shows "(\<exists>ctx. (build_step L i p fragile)\<^sup>*\<^sup>* (build_begin cs T) (s, ctx))
    \<and> (\<forall>ctx. (build_step L i p fragile)\<^sup>*\<^sup>* (build_begin cs T) (s, ctx) \<longrightarrow>
         dom ctx = created s
       \<and> (\<forall>n rest as fails. todo s n = Some rest \<longrightarrow> (\<forall>a \<in> set rest. broker_call a) \<longrightarrow> map_of cs n = Some as \<longrightarrow>
            (case construct L i p fails ctx (class_at p n) of
               Inr obj \<Rightarrow> \<forall>a \<in> set as. broker_call a \<longrightarrow> fails a = None
             | Inl e \<Rightarrow> \<exists>a \<in> set as. broker_call a \<and> fails a = Some e))
       \<and> (\<forall>n obj. ctx n = Some obj \<longrightarrow> class_of obj = class_at p n \<and> set (groups_of obj) \<subseteq> set (redis_groups p)
            \<and> (\<forall>(m, C) \<in> set (refs_of obj). m = component_name C \<and> map_option class_of (ctx m) = Some C))
       \<and> (\<forall>h obj cache header. p = Monolith \<and> ctx (handler_name h) = Some obj \<longrightarrow>
            checker_decides cache (checker_of obj) header = authorize cache h header))"
proof (intro conjI allI impI)
  show "\<exists>ctx. (build_step L i p fragile)\<^sup>*\<^sup>* (build_begin cs T) (s, ctx)"
    using startup_framework.start_builds [OF assms(1)] assms(2,3) by blast
next
  fix ctx assume reach: "(build_step L i p fragile)\<^sup>*\<^sup>* (build_begin cs T) (s, ctx)"
  note inv = startup_framework.build_reach_inv [OF assms(1) reach [unfolded assms(2)]]
  note b = build_invD [OF inv]
  show "dom ctx = created s" by (rule b(3))
  show "case construct L i p fails ctx (class_at p n) of
      Inr obj \<Rightarrow> \<forall>a \<in> set as. broker_call a \<longrightarrow> fails a = None
    | Inl e \<Rightarrow> \<exists>a \<in> set as. broker_call a \<and> fails a = Some e"
    if "todo s n = Some rest" "\<forall>a \<in> set rest. broker_call a" "map_of cs n = Some as" for n rest as fails
    by (rule startup_framework.constructor_throws [OF assms(1) inv that(1,2) that(3) [unfolded assms(2)]])
  fix n obj assume obj: "ctx n = Some obj"
  note ok = b(4) [OF obj, unfolded built_ok_def]
  show "class_of obj = class_at p n" and "set (groups_of obj) \<subseteq> set (redis_groups p)" using ok by simp_all
  show "\<forall>(m, C) \<in> set (refs_of obj). m = component_name C \<and> map_option class_of (ctx m) = Some C"
    using ok b(5) [OF obj] by (fastforce simp: present_def)
next
  fix ctx h obj cache header
  assume reach: "(build_step L i p fragile)\<^sup>*\<^sup>* (build_begin cs T) (s, ctx)"
    and h: "p = Monolith \<and> ctx (handler_name h) = Some obj"
  note inv = startup_framework.build_reach_inv [OF assms(1) reach [unfolded assms(2)]]
  obtain C where "C \<in> set (classes p)" "component_name C = handler_name h" using handler_class h by blast
  with class_at_name [of C p] build_invD(4) [OF inv, of "handler_name h" obj] h
  have "checker_of obj = configured_checker (handler_name h)" by (simp add: built_ok_def)
  then show "checker_decides cache (checker_of obj) header = authorize cache h header"
    by (simp only: checker_is_authorization)
qed

theorem components_fit_together_witness:
  "\<exists>s ctx obj. (build_step ref_lib (Uuid 5) Monolith {})\<^sup>*\<^sup>*
      (build_begin (component_list ref_framework ref_lib (Uuid 5) Monolith) no_topology) (s, ctx)
    \<and> ctx ''handler-login'' = Some obj \<and> class_of obj = C_Login"
proof -
  let ?cs = "component_list ref_framework ref_lib (Uuid 5) Monolith"
  obtain s where s: "(startup_step (redis_groups Monolith) {})\<^sup>*\<^sup>* (startup_begin ?cs no_topology) s" "started s"
    using ref_startup.startup_exists by blast
  have "Login_new ref_framework \<in> set (own_components ref_framework ref_lib (Uuid 5) Monolith)" by (simp add: own_components_def)
  then have "Login_new ref_framework \<in> set ?cs" unfolding ref_startup.component_list_set by (rule UnI2)
  then have "fst (Login_new ref_framework) \<in> fst ` set ?cs" by (rule imageI)
  then have "''handler-login'' \<in> fst ` set ?cs" by (simp only: Login_new_def handler_component_def fst_conv)
  with startup_finished(1) [OF startup_reach [OF s(1)] s(2)] have created: "''handler-login'' \<in> created s" by simp
  note fit = components_fit_together [OF ref_startup_axioms refl s(1)]
  obtain ctx where ctx: "(build_step ref_lib (Uuid 5) Monolith {})\<^sup>*\<^sup>* (build_begin ?cs no_topology) (s, ctx)"
    using conjunct1 [OF fit] by (rule exE)
  note facts = conjunct2 [OF fit, THEN spec, THEN mp, OF ctx]
  from conjunct1 [OF facts] created have "''handler-login'' \<in> dom ctx" by simp
  then obtain obj where obj: "ctx ''handler-login'' = Some obj" by (rule exE [OF domD])
  with facts have "class_of obj = class_at Monolith ''handler-login''" by simp
  moreover have "class_at Monolith ''handler-login'' = C_Login"
    using class_at_name [of C_Login Monolith] by (simp add: social_net_classes_def)
  ultimately have "class_of obj = C_Login" by simp
  with ctx obj show ?thesis by (intro exI conjI)
qed

end
