(* ===== verification/Server_Concurrency.thy ===== *)
theory Server_Concurrency
  imports Server Feed_Concurrency
begin

text \<open>
  The monolith when requests overlap: every handler as a program that can be interrupted between
  its calls, the system in which any number of requests and consumed events run at once, and what
  holds in all of its states. That a handler's calls only act for its user (\<open>acts_only\<close>) carries over
  from \<open>performs\<close> in \<open>Server\<close>; only login relies on what it has read before, and that no
  other request undoes.
\<close>

section \<open>The handlers, call by call\<close>

definition pparse_or_bad_request ::
  "exn + 'a \<Rightarrow> 'b \<Rightarrow> ('a \<Rightarrow> ('s, http_status \<times> 'b) prog) \<Rightarrow> ('s, http_status \<times> 'b) prog"
where
  "pparse_or_bad_request parsed body k =
     (case parsed of
        Inl e \<Rightarrow> if is_runtime_error e then pret (kBadRequest, body) else Done (Inl e)
      | Inr x \<Rightarrow> k x)"

definition PostCreateHandler_prog ::
  "lib \<Rightarrow> string \<Rightarrow> uuid \<Rightarrow> int \<Rightarrow> uuid \<Rightarrow> json_body \<Rightarrow> (('r, 'z) world_scheme, http_status \<times> json) prog"
where
  "PostCreateHandler_prog L exchange new_id now user_id body =
     (if \<not> has_member body ''text''
      then pret (kBadRequest, error_json ''Expected body has `text` field'')
      else pbind (Done (field_string (JObject body) ''text'')) (\<lambda>text.
           pbind (atomic (on_master (sql_insert_post new_id now user_id text))) (\<lambda>post_id.
           pbind (atomic (Publish L exchange user_id post_id text)) (\<lambda>_.
           pret (kOk, JObject [(''id'', JString (to_str L post_id))])))))"

definition PostUpdateHandler_prog ::
  "lib \<Rightarrow> 'r redis \<Rightarrow> planner \<Rightarrow> json_body \<Rightarrow> (('r, 'z) world_scheme, http_status \<times> json) prog"
where
  "PostUpdateHandler_prog L R P body =
     (if \<not> (has_member body ''id'' \<and> has_member body ''text'')
      then pret (kBadRequest, error_json ''Expected body has `id` and `text` fields'')
      else pparse_or_bad_request
             (sum_bind (field_string (JObject body) ''id'') (string_generator L))
             (error_json ''Invalid UUID format'') (\<lambda>post_id.
           pbind (Done (field_string (JObject body) ''text'')) (\<lambda>text.
           pbind (atomic (on_master (sql_update_post post_id text))) (\<lambda>result.
           pbind (if result \<noteq> []
                  then pbind (Done (as_single_row result)) (InvalidateFeedsOfFollowersOf_prog L R P)
                  else pret ()) (\<lambda>_.
           pret (kOk, JObject []))))))"

definition PostDeleteHandler_prog ::
  "lib \<Rightarrow> 'r redis \<Rightarrow> planner \<Rightarrow> http_request \<Rightarrow> (('r, 'z) world_scheme, http_status \<times> string) prog"
where
  "PostDeleteHandler_prog L R P req =
     pparse_or_bad_request (string_generator L (path_arg req)) [] (\<lambda>post_id.
     pbind (atomic (on_master (sql_delete_post post_id))) (\<lambda>result.
     pbind (if result \<noteq> []
            then pbind (Done (as_single_row result)) (InvalidateFeedsOfFollowersOf_prog L R P)
            else pret ()) (\<lambda>_.
     pret (kOk, []))))"

definition PostFeedHandler_prog ::
  "lib \<Rightarrow> 'r redis \<Rightarrow> planner \<Rightarrow> uuid \<Rightarrow> http_request \<Rightarrow> (('r, 'z) world_scheme, http_status \<times> string) prog"
where
  "PostFeedHandler_prog L R P user_id req =
     (case sum_bind (feed_arg req ''offset'' 0) (\<lambda>offset.
           sum_bind (feed_arg req ''limit'' 10) (\<lambda>limit. Inr (offset, limit))) of
        Inl _ \<Rightarrow> pret (kBadRequest, [])
      | Inr (offset, limit) \<Rightarrow>
          pbind (GetFeed_prog L R P user_id offset limit) (\<lambda>feed.
          pret (kOk, json_dump L (feed_json L feed))))"

definition FriendAddHandler_prog ::
  "lib \<Rightarrow> 'r redis \<Rightarrow> int \<Rightarrow> uuid \<Rightarrow> http_request \<Rightarrow> (('r, 'z) world_scheme, http_status \<times> string) prog"
where
  "FriendAddHandler_prog L R now user_id req =
     pparse_or_bad_request (string_generator L (path_arg req)) [] (\<lambda>friend_id.
     pbind (atomic (on_master (sql_insert_friendship user_id friend_id now))) (\<lambda>_.
     pbind (InvalidateFeed_prog L R user_id) (\<lambda>_.
     pret (kOk, []))))"

definition FriendDeleteHandler_prog ::
  "lib \<Rightarrow> 'r redis \<Rightarrow> uuid \<Rightarrow> http_request \<Rightarrow> (('r, 'z) world_scheme, http_status \<times> string) prog"
where
  "FriendDeleteHandler_prog L R user_id req =
     pparse_or_bad_request (string_generator L (path_arg req)) [] (\<lambda>friend_id.
     pbind (atomic (on_master (sql_delete_friendship user_id friend_id))) (\<lambda>_.
     pbind (InvalidateFeed_prog L R user_id) (\<lambda>_.
     pret (kOk, []))))"

definition PostFeedConsumer_Process_prog ::
  "lib \<Rightarrow> 'r redis \<Rightarrow> planner \<Rightarrow> string \<Rightarrow> (('r, 'z) world_scheme, unit) prog"
where
  "PostFeedConsumer_Process_prog L R P message =
     pbind (Done (sum_bind (json_from_string L message) (\<lambda>json.
       sum_bind (sum_bind (field_string json ''postId'') (string_generator L)) (\<lambda>post_id.
       sum_bind (sum_bind (field_string json ''author_user_id'') (string_generator L)) (\<lambda>author_id.
       sum_bind (field_string json ''postText'') (\<lambda>text. Inr (post_id, author_id, text)))))))
     (\<lambda>(post_id, author_id, text).
     pbind (OnPostCreated_prog L R P author_id post_id text) (\<lambda>_.
     atomic (publish ''ws-fanout'' [] message)))"

definition GenerateToken_prog ::
  "(nat \<Rightarrow> nat \<Rightarrow> nat) \<Rightarrow> int \<Rightarrow> uuid \<Rightarrow> (('r, 'z) app_scheme, string \<times> bool) prog"
where
  "GenerateToken_prog draw now user_id =
     (let token = GenerateBearerToken draw token_length;
          scopes = [''read'', ''user'']
      in pbind (atomic (on_master (sql_insert_token token user_id scopes now))) (\<lambda>result.
         if result = [] then pret ([], False)
         else pbind (atomic (modify (\<lambda>w. w\<lparr>cache_invalidations := Suc (cache_invalidations w)\<rparr>))) (\<lambda>_.
              pret (token, True))))"

definition Login_prog ::
  "lib \<Rightarrow> std_hash \<Rightarrow> (nat \<Rightarrow> nat \<Rightarrow> nat) \<Rightarrow> int \<Rightarrow> json_body \<Rightarrow> (('r, 'z) app_scheme, http_status \<times> json) prog"
where
  "Login_prog L H draw now body =
     (if \<not> login_IsCorrectRequest body
      then pret (kBadRequest, error_json ''Expected body has `id` and `password` fields'')
      else
        pbind (Done (sum_bind (field_string (JObject body) ''id'') (string_generator L))) (\<lambda>user_id.
        pbind (atomic (from_master (sql_select_credentials user_id))) (\<lambda>result.
        case result of
          [] \<Rightarrow> pret (kNotFound, JObject [])
        | row # _ \<Rightarrow>
            pbind (Done (sum_bind (field_string (JObject body) ''password'')
                    (\<lambda>password. check_credentials H password row))) (\<lambda>verified.
            if \<not> verified then pret (kNotFound, JObject [])
            else pbind (GenerateToken_prog draw now user_id) (\<lambda>(token, success).
                 if \<not> success then pret (kInternalServerError, JObject [])
                 else pret (kOk, JObject [(''token'', JString token)]))))))"

definition DialogSendHandler_prog ::
  "lib \<Rightarrow> 's send_rpc \<Rightarrow> uuid \<Rightarrow> http_request \<Rightarrow> json_body \<Rightarrow> ('s, http_status \<times> json) prog"
where
  "DialogSendHandler_prog L send from_user_id req body =
     (if \<not> has_member body ''text''
      then pret (kBadRequest, error_json ''Expected body has `text` field'')
      else pparse_or_bad_request (string_generator L (path_arg req)) JNull (\<lambda>to_user_id.
           pbind (Done (field_string (JObject body) ''text'')) (\<lambda>text.
           pbind (ptry_catch (pbind (atomic (send (user_metadata L from_user_id) (to_str L to_user_id) text)) (\<lambda>_. pret True))
                   is_rpc_error (pret False)) (\<lambda>sent.
           if sent then pret (kOk, JNull) else pret (kInternalServerError, JNull)))))"

definition DialogListHandler_prog ::
  "lib \<Rightarrow> 's reset_rpc \<Rightarrow> 's list_rpc \<Rightarrow> uuid \<Rightarrow> http_request \<Rightarrow> ('s, http_status \<times> string) prog"
where
  "DialogListHandler_prog L reset list user_id req =
     pparse_or_bad_request (string_generator L (path_arg req)) [] (\<lambda>other_user_id.
     let meta = user_metadata L user_id; other_id_str = to_str L other_user_id in
     pbind (ptry_catch (pbind (atomic (reset meta other_id_str)) (\<lambda>_. pret ())) is_rpc_error (pret ())) (\<lambda>_.
     pbind (ptry_catch (pbind (atomic (list meta other_id_str)) (\<lambda>messages. pret (Some messages))) is_rpc_error (pret None)) (\<lambda>resp.
     case resp of
       None \<Rightarrow> pret (kInternalServerError, [])
     | Some messages \<Rightarrow> pret (kOk, json_dump L (JArray (map message_json messages))))))"

definition DialogUnreadHandler_prog :: "lib \<Rightarrow> 's unread_rpc \<Rightarrow> uuid \<Rightarrow> ('s, http_status \<times> string) prog" where
  "DialogUnreadHandler_prog L unread_count user_id =
     pbind (ptry_catch (atomic (unread_count (user_metadata L user_id))) is_rpc_error (pret 0)) (\<lambda>total.
     pret (kOk, json_dump L (JObject [(''unread_count'', JInt total)])))"

definition pjson_answer :: "lib \<Rightarrow> ('s, http_status \<times> json) prog \<Rightarrow> ('s, response) prog" where
  "pjson_answer L p = pbind p (\<lambda>(status, body). pret (Answer status (json_dump L body)))"

definition ptext_answer :: "('s, http_status \<times> string) prog \<Rightarrow> ('s, response) prog" where
  "ptext_answer p = pbind p (\<lambda>(status, body). pret (Answer status body))"

definition pwith_user :: "uuid option \<Rightarrow> (uuid \<Rightarrow> ('s, 'a) prog) \<Rightarrow> ('s, 'a) prog" where
  "pwith_user user k = (case user of None \<Rightarrow> Done (Inl RuntimeError) | Some u \<Rightarrow> k u)"

text \<open>
  A request whose handler makes one call at most is that call: registration, the profile, the
  search and one post.
\<close>

fun call_prog ::
  "('r, ('r, 'z) app_scheme) environment \<Rightarrow> chance \<Rightarrow> uuid option \<Rightarrow> server_request \<Rightarrow> handler
     \<Rightarrow> (('r, 'z) app_scheme, response) prog"
where
  "call_prog E c user q Handler_Login =
     pjson_answer (env_lib E) (Login_prog (env_lib E) (env_hash E) (ch_draw c) (ch_now c) (sr_body q))"
| "call_prog E c user q Handler_Friend_Add = pwith_user user (\<lambda>u.
     ptext_answer (FriendAddHandler_prog (env_lib E) (env_redis E) (ch_now c) u (sr_http q)))"
| "call_prog E c user q Handler_Friend_Delete = pwith_user user (\<lambda>u.
     ptext_answer (FriendDeleteHandler_prog (env_lib E) (env_redis E) u (sr_http q)))"
| "call_prog E c user q Handler_Post_Create = pwith_user user (\<lambda>u.
     pjson_answer (env_lib E) (PostCreateHandler_prog (env_lib E) feed_exchange (ch_id c) (ch_now c) u (sr_body q)))"
| "call_prog E c user q Handler_Post_Update =
     pjson_answer (env_lib E) (PostUpdateHandler_prog (env_lib E) (env_redis E) (env_planner E) (sr_body q))"
| "call_prog E c user q Handler_Post_Delete =
     ptext_answer (PostDeleteHandler_prog (env_lib E) (env_redis E) (env_planner E) (sr_http q))"
| "call_prog E c user q Handler_Post_Feed = pwith_user user (\<lambda>u.
     ptext_answer (PostFeedHandler_prog (env_lib E) (env_redis E) (env_planner E) u (sr_http q)))"
| "call_prog E c user q Handler_Dialog_Send = pwith_user user (\<lambda>u.
     pjson_answer (env_lib E) (DialogSendHandler_prog (env_lib E) (env_send E) u (sr_http q) (sr_body q)))"
| "call_prog E c user q Handler_Dialog_List = pwith_user user (\<lambda>u.
     ptext_answer (DialogListHandler_prog (env_lib E) (env_reset E) (env_list E) u (sr_http q)))"
| "call_prog E c user q Handler_Dialog_Unread = pwith_user user (\<lambda>u.
     ptext_answer (DialogUnreadHandler_prog (env_lib E) (env_unread E) u))"
| "call_prog E c user q h = atomic (call E c user q h)"

lemma run_pparse [simp]: "run (pparse_or_bad_request x b k) = parse_or_bad_request x b (\<lambda>a. run (k a))"
  by (simp add: pparse_or_bad_request_def parse_or_bad_request_def lift_sum_def throw_def fun_eq_iff split: sum.split)

lemma run_answers [simp]:
  "run (pjson_answer L p) = json_answer L (run p)" "run (ptext_answer r) = text_answer (run r)"
  "run (pwith_user user k) = with_user user (\<lambda>u. run (k u))"
  by (simp_all add: pjson_answer_def json_answer_def ptext_answer_def text_answer_def pwith_user_def with_user_def run_cases
      lift_sum_def throw_def fun_eq_iff cong: prod.case_cong split: option.split)

lemma run_handlers [simp]:
  "run (PostCreateHandler_prog L exchange i now u body) = PostCreateHandler L exchange i now u body"
  "run (PostUpdateHandler_prog L R P body) = PostUpdateHandler L R P body"
  "run (PostDeleteHandler_prog L R P req) = PostDeleteHandler L R P req"
  "run (PostFeedHandler_prog L R P u req) = PostFeedHandler L R P u req"
  "run (FriendAddHandler_prog L R now u req) = FriendAddHandler L R now u req"
  "run (FriendDeleteHandler_prog L R u req) = FriendDeleteHandler L R u req"
  "run (PostFeedConsumer_Process_prog L R P m) = PostFeedConsumer_Process L R P m"
  by (simp_all add: PostCreateHandler_prog_def PostCreateHandler_def PostUpdateHandler_prog_def PostUpdateHandler_def
     PostDeleteHandler_prog_def PostDeleteHandler_def PostFeedHandler_prog_def PostFeedHandler_def
     FriendAddHandler_prog_def FriendAddHandler_def FriendDeleteHandler_prog_def FriendDeleteHandler_def
     PostFeedConsumer_Process_prog_def PostFeedConsumer_Process_def run_cases cong: if_cong prod.case_cong sum.case_cong
     del: run.simps pbind.simps pbind_pret)

lemma run_login [simp]:
  "run (GenerateToken_prog draw now u) = GenerateToken draw now u"
  "run (Login_prog L H draw now body) = Login L H draw now body"
proof -
  show token: "run (GenerateToken_prog draw now u) = GenerateToken draw now u" for u
    by (simp add: GenerateToken_prog_def GenerateToken_def Let_def cong: if_cong del: run.simps pbind.simps pbind_pret)
  show "run (Login_prog L H draw now body) = Login L H draw now body"
    by (simp add: Login_prog_def Login_def token run_cases cong: if_cong prod.case_cong list.case_cong del: run.simps pbind.simps pbind_pret)
qed

lemma run_dialogs [simp]:
  "run (DialogSendHandler_prog L send u req body) = DialogSendHandler L send u req body"
  "run (DialogListHandler_prog L reset listing u req) = DialogListHandler L reset listing u req"
  "run (DialogUnreadHandler_prog L unread_count u) = DialogUnreadHandler L unread_count u"
  by (simp_all add: DialogSendHandler_prog_def DialogSendHandler_def DialogListHandler_prog_def DialogListHandler_def
     DialogUnreadHandler_prog_def DialogUnreadHandler_def Let_def run_cases cong: if_cong option.case_cong
     del: run.simps pbind.simps pbind_pret ptry_catch.simps)

lemma run_call_prog: "run (call_prog E c user q h) = call E c user q h"
  by (cases h) simp_all

section \<open>What requests rely on and do\<close>

text \<open>A request relies on users that it has seen; no step removes a user.\<close>

definition knows :: "uuid set \<Rightarrow> ('r, 'z) app_scheme \<Rightarrow> bool" where
  "knows us w \<longleftrightarrow> us \<subseteq> user_ids (master w)"

abbreviation acts_only :: "('r, ('r, 'z) app_scheme) environment \<Rightarrow> uuid option \<Rightarrow> uuid set \<Rightarrow>
    (('r, 'z) app_scheme, 'a) prog \<Rightarrow> bool" where
  "acts_only E user \<equiv> guarantees knows (act E user)\<^sup>*\<^sup>*"

lemma knows_nothing: "\<exists>us. knows us w"
  by (rule exI [of _ "{}"]) (simp add: knows_def)

lemma acts_only_atomic: "performs E user m \<Longrightarrow> acts_only E user us (atomic m)"
  by (rule guarantees_atomic) (simp_all add: performsD knows_nothing)

lemma acts_only_parse [guarantees_intros]:
  "(\<And>x. acts_only E user us (k x)) \<Longrightarrow> acts_only E user us (pparse_or_bad_request parsed body k)"
  unfolding pparse_or_bad_request_def by (intro guarantees_intros)

lemma acts_only_answers [guarantees_intros]:
  "acts_only E user us p \<Longrightarrow> acts_only E user us (pjson_answer L p)"
  "acts_only E user us r \<Longrightarrow> acts_only E user us (ptext_answer r)"
  unfolding pjson_answer_def ptext_answer_def by (intro guarantees_intros; assumption)+

lemma acts_only_with_user [guarantees_intros]:
  "(\<And>u. user = Some u \<Longrightarrow> acts_only E (Some u) us (k u)) \<Longrightarrow> acts_only E user us (pwith_user user k)"
  unfolding pwith_user_def by (cases user) (auto intro: guarantees_intros)

lemma performs_feed_calls:
  "performs E (Some u) (redis_put (\<lambda>r. r_del (env_redis E) r (map (MakeKey (env_lib E)) us)))"
  "performs E (Some u) (redis_put (\<lambda>r. r_del (env_redis E) r [MakeKey (env_lib E) v]))"
  "ps \<noteq> [] \<Longrightarrow> performs E (Some u) (redis_put (\<lambda>r. r_rpush (env_redis E) r (MakeKey (env_lib E) u)
       (map (SerializePost (env_lib E)) ps)))"
  "performs E (Some u) (redis_put (\<lambda>r. r_ltrim (env_redis E) r (MakeKey (env_lib E) u) 0 (int kMaxFeedSize - 1)))"
  "performs E (Some u) (Publish (env_lib E) feed_exchange u i x)"
proof -
  show "performs E (Some u) (redis_put (\<lambda>r. r_del (env_redis E) r [MakeKey (env_lib E) v]))"
    using performs_redis_put [OF act.feeds_dropped [OF refl, of E u _ "[v]"]] by simp
  show "performs E (Some u) (Publish (env_lib E) feed_exchange u i x)"
    unfolding Publish_def Let_def by (intro performs_publish act.post_announced refl)
qed (simp_all add: performs_redis_put performs_publish act.feeds_dropped act.feed_filled act.feed_trimmed)

lemma acts_only_feed:
  "acts_only E (Some u) us (InvalidateFeedsOfFollowersOf_prog (env_lib E) (env_redis E) (env_planner E) a)"
  "acts_only E (Some u) us (InvalidateFeed_prog (env_lib E) (env_redis E) v)"
  "acts_only E (Some u) us (GetFeed_prog (env_lib E) (env_redis E) (env_planner E) u offset limit)"
  unfolding InvalidateFeedsOfFollowersOf_prog_def InvalidateFeed_prog_def GetFeed_prog_def GetFollowers_def LoadFeedFromDb_def Let_def
  by (intro guarantees_intros acts_only_atomic performs_intros performs_feed_calls; assumption?)+

lemma acts_only_posts:
  "acts_only E (Some u) us (PostCreateHandler_prog (env_lib E) feed_exchange i now u body)"
  "acts_only E (Some u) us (PostUpdateHandler_prog (env_lib E) (env_redis E) (env_planner E) body)"
  "acts_only E (Some u) us (PostDeleteHandler_prog (env_lib E) (env_redis E) (env_planner E) req)"
  "acts_only E (Some u) us (PostFeedHandler_prog (env_lib E) (env_redis E) (env_planner E) u req)"
  "acts_only E (Some u) us (FriendAddHandler_prog (env_lib E) (env_redis E) now u req)"
  "acts_only E (Some u) us (FriendDeleteHandler_prog (env_lib E) (env_redis E) u req)"
  unfolding PostCreateHandler_prog_def PostUpdateHandler_prog_def PostDeleteHandler_prog_def PostFeedHandler_prog_def
    FriendAddHandler_prog_def FriendDeleteHandler_prog_def
  by (intro guarantees_intros acts_only_feed acts_only_atomic performs_statements performs_feed_calls)+

lemma acts_only_dialogs:
  "acts_only E (Some u) us (DialogSendHandler_prog (env_lib E) (env_send E) u req body)"
  "acts_only E (Some u) us (DialogListHandler_prog (env_lib E) (env_reset E) (env_list E) u req)"
  "acts_only E (Some u) us (DialogUnreadHandler_prog (env_lib E) (env_unread E) u)"
  unfolding DialogSendHandler_prog_def DialogListHandler_prog_def DialogUnreadHandler_prog_def Let_def
  by (intro guarantees_intros acts_only_atomic performs_calls)+

text \<open>Login has seen the user's row before it issues the token.\<close>

lemma acts_only_token:
  assumes "i \<in> us"
  shows "acts_only E user us (GenerateToken_prog draw now i)"
proof -
  let ?stmt = "sql_insert_token (GenerateBearerToken draw token_length) i [''read'', ''user''] now"
  have insert: "(act E user)\<^sup>*\<^sup>* w (snd (on_master ?stmt w))" if "knows us w" for w
  proof -
    have i: "i \<in> user_ids (master w)" using that assms by (auto simp: knows_def)
    have issued: "(act E user)\<^sup>*\<^sup>* v (v\<lparr>master := snd (?stmt (master v))\<rparr>)" if "master v = master w" for v
      using act.token_issued [of i v] i that by (metis r_into_rtranclp)
    show ?thesis
    proof (cases "faults w")
      case Nil
      with issued [of w] show ?thesis by simp
    next
      case (Cons f fs)
      have fault: "(act E user)\<^sup>*\<^sup>* w (w\<lparr>faults := fs\<rparr>)" by (simp add: act.call_made r_into_rtranclp)
      with rtranclp_trans [OF fault issued [of "w\<lparr>faults := fs\<rparr>"]] Cons show ?thesis
        by (cases f) (simp_all add: on_master_def ext_def Let_def split_beta)
    qed
  qed
  have later: "acts_only E user vs (atomic (modify (\<lambda>w. w\<lparr>cache_invalidations := Suc (cache_invalidations w)\<rparr>)))" for vs
    by (intro acts_only_atomic performs_step) (simp add: modify_def act.update_requested)
  have rest: "acts_only E user vs (if result = [] then pret ([], False) else
     pbind (atomic (modify (\<lambda>w. w\<lparr>cache_invalidations := Suc (cache_invalidations w)\<rparr>))) (\<lambda>_. pret (token, True)))"
    for vs result token
    by (intro guarantees_intros later)
  show ?thesis
    unfolding GenerateToken_prog_def Let_def
    by (rule guarantees_atomic_pbind) (use insert rest knows_nothing in blast)+
qed

lemma acts_only_login:
  fixes E :: "('r, ('r, 'z) app_scheme) environment"
  shows "acts_only E user us (Login_prog (env_lib E) H draw now body)"
proof -
  have found: "acts_only E user {i} (pbind (Done v) (\<lambda>verified.
            if \<not> verified then pret (kNotFound, JObject [])
            else pbind (GenerateToken_prog draw now i) (\<lambda>(token, success).
                 if \<not> success then pret (kInternalServerError, JObject [])
                 else pret (kOk, JObject [(''token'', JString token)]))))" for v i
    by (cases v) (auto intro!: guarantees_intros acts_only_token simp: pret_def [symmetric])
  have select: "acts_only E user vs (pbind (atomic (from_master (sql_select_credentials i))) (\<lambda>result. case result of
          [] \<Rightarrow> pret (kNotFound, JObject [])
        | row # _ \<Rightarrow> pbind (Done (verify row)) (\<lambda>verified.
            if \<not> verified then pret (kNotFound, JObject [])
            else pbind (GenerateToken_prog draw now i) (\<lambda>(token, success).
                 if \<not> success then pret (kInternalServerError, JObject [])
                 else pret (kOk, JObject [(''token'', JString token)])))))" for vs i verify
  proof (rule guarantees_atomic_pbind)
    fix w :: "('r, 'z) app_scheme" assume "knows vs w"
    show "(act E user)\<^sup>*\<^sup>* w (snd (from_master (sql_select_credentials i) w))"
      using performsD [OF performs_reads(1)] .
  next
    fix w :: "('r, 'z) app_scheme" and result assume "fst (from_master (sql_select_credentials i) w) = Inr result"
    then obtain w' where run: "from_master (sql_select_credentials i) w = (Inr result, w')" by (metis prod.collapse)
    note read = from_master_result [OF run]
    show "\<exists>ks. knows ks (snd (from_master (sql_select_credentials i) w)) \<and> acts_only E user ks (case result of
          [] \<Rightarrow> pret (kNotFound, JObject [])
        | row # _ \<Rightarrow> pbind (Done (verify row)) (\<lambda>verified.
            if \<not> verified then pret (kNotFound, JObject [])
            else pbind (GenerateToken_prog draw now i) (\<lambda>(token, success).
                 if \<not> success then pret (kInternalServerError, JObject [])
                 else pret (kOk, JObject [(''token'', JString token)]))))"
    proof (cases result)
      case Nil
      then show ?thesis using knows_nothing [of "snd (from_master (sql_select_credentials i) w)"]
        by (auto intro: guarantees_intros)
    next
      case (Cons row rows)
      with read(1) have "i \<in> user_ids (master w)" by (intro credentials_user) (metis list.distinct(1))
      with read(2) have "knows {i} w'" by (auto simp: knows_def)
      with run Cons found [of i "verify row"] show ?thesis by (intro exI [of _ "{i}"]) simp
    qed
  qed (rule knows_nothing)
  show ?thesis unfolding Login_prog_def
  proof (intro guarantees_cases(1) guarantees_pret)
    show "acts_only E user us (pbind (Done (sum_bind (field_string (JObject body) ''id'') (string_generator (env_lib E)))) (\<lambda>user_id.
        pbind (atomic (from_master (sql_select_credentials user_id))) (\<lambda>result.
        case result of
          [] \<Rightarrow> pret (kNotFound, JObject [])
        | row # _ \<Rightarrow>
            pbind (Done (sum_bind (field_string (JObject body) ''password'')
                    (\<lambda>password. check_credentials H password row))) (\<lambda>verified.
            if \<not> verified then pret (kNotFound, JObject [])
            else pbind (GenerateToken_prog draw now user_id) (\<lambda>(token, success).
                 if \<not> success then pret (kInternalServerError, JObject [])
                 else pret (kOk, JObject [(''token'', JString token)]))))))"
      by (rule guarantees_pbind [OF guarantees_pret(2)]) (rule select)
  qed
qed

lemma acts_only_call:
  assumes "authorize cache h header = Inr user"
  shows "acts_only E user us (call_prog E c user q h)"
  using authorized_has_user [OF assms] performs_call [OF assms, of E c q]
  by (cases h) (auto simp: open_handler_def intro!: acts_only_answers acts_only_with_user acts_only_login acts_only_posts
      acts_only_dialogs acts_only_atomic)

section \<open>Requests at once\<close>

text \<open>Who a task works for: a request with the user its check has found, or the consumer.\<close>

datatype actor = Request server_request "uuid option" | Consumer string

type_synonym ('r, 'z) task = "actor \<times> (('r, 'z) app_scheme, response option) prog"

type_synonym ('r, 'z) tasks = "(nat \<rightharpoonup> ('r, 'z) task) \<times> ('r, 'z) app_scheme"

definition request_task :: "('r, ('r, 'z) app_scheme) environment \<Rightarrow> chance \<Rightarrow> server_request \<Rightarrow> ('r, 'z) app_scheme \<Rightarrow> ('r, 'z) task"
where
  "request_task E c q w =
     (case authorize (auth_cache w) (sr_handler q) (sr_authorization q) of
        Inl status \<Rightarrow> (Request q None, pret (Some (Refused status)))
      | Inr user \<Rightarrow> (Request q user, pbind (call_prog E c user q (sr_handler q)) (\<lambda>r. pret (Some r))))"

definition consumer_task :: "('r, ('r, 'z) app_scheme) environment \<Rightarrow> string \<Rightarrow> ('r, 'z) task" where
  "consumer_task E m = (Consumer m,
     pbind (PostFeedConsumer_Process_prog (env_lib E) (env_redis E) (env_planner E) m) (\<lambda>_. pret None))"

text \<open>
  Requests arrive and are checked, the consumer takes messages, each task makes its calls one by
  one; in between the replica catches up, the token cache is updated, and everything outside the
  monolith's data changes, the faults of later calls included.
\<close>

inductive conc_step :: "('r, ('r, 'z) app_scheme) environment \<Rightarrow> ('r, 'z) tasks \<Rightarrow> ('r, 'z) tasks \<Rightarrow> bool"
  for E :: "('r, ('r, 'z) app_scheme) environment"
where
  arrive: "tasks k = None \<Longrightarrow> conc_step E (tasks, w) (tasks(k \<mapsto> request_task E c q w), w)"
| receive: "tasks k = None \<Longrightarrow> m \<in> set (published w) \<Longrightarrow>
    conc_step E (tasks, w) (tasks(k \<mapsto> consumer_task E (pub_body m)), w)"
| call: "tasks k = Some (a, Call f) \<Longrightarrow> f w = (w', p) \<Longrightarrow> conc_step E (tasks, w) (tasks(k \<mapsto> (a, p)), w')"
| replicate: "conc_step E (tasks, w) (tasks, replicate_now w)"
| update_cache: "conc_step E (tasks, w) (tasks, update_auth_cache t w)"
| elsewhere: "same_app w w' \<Longrightarrow> conc_step E (tasks, w) (tasks, w')"

inductive conc_reach :: "('r, ('r, 'z) app_scheme) environment \<Rightarrow> ('r, 'z) tasks \<Rightarrow> bool"
  for E :: "('r, ('r, 'z) app_scheme) environment"
where
  start: "server_start E w \<Longrightarrow> conc_reach E (Map.empty, w)"
| step: "conc_reach E s \<Longrightarrow> conc_step E s s' \<Longrightarrow> conc_reach E s'"

section \<open>The invariant of all tasks\<close>

definition consumer_keeps :: "('r, ('r, 'z) app_scheme) environment \<Rightarrow> ('r, 'z) app_scheme \<Rightarrow> ('r, 'z) app_scheme \<Rightarrow> bool" where
  "consumer_keeps E w w' \<longleftrightarrow> (server_inv E w \<longrightarrow> server_inv E w') \<and> master w' = master w \<and> slave w' = slave w \<and> auth_cache w' = auth_cache w"

fun actor_does :: "('r, ('r, 'z) app_scheme) environment \<Rightarrow> actor \<Rightarrow> ('r, 'z) app_scheme \<Rightarrow> ('r, 'z) app_scheme \<Rightarrow> bool" where
  "actor_does E (Request q user) = (act E user)\<^sup>*\<^sup>*"
| "actor_does E (Consumer m) = consumer_keeps E"

definition actor_ok :: "('r, 'z) app_scheme \<Rightarrow> actor \<Rightarrow> bool" where
  "actor_ok w a \<longleftrightarrow> (\<forall>q u. a = Request q (Some u) \<longrightarrow> u \<in> user_ids (master w))"

definition conc_inv :: "('r, ('r, 'z) app_scheme) environment \<Rightarrow> ('r, 'z) tasks \<Rightarrow> bool" where
  "conc_inv E s \<longleftrightarrow> (case s of (tasks, w) \<Rightarrow> server_inv E w \<and>
     (\<forall>k a p. tasks k = Some (a, p) \<longrightarrow> actor_ok w a \<and> (\<exists>us. knows us w \<and> guarantees knows (actor_does E a) us p)))"

lemma conc_invD:
  assumes "conc_inv E (tasks, w)"
  shows "server_inv E w"
    and "tasks k = Some (a, p) \<Longrightarrow> actor_ok w a"
    and "tasks k = Some (a, p) \<Longrightarrow> \<exists>us. knows us w \<and> guarantees knows (actor_does E a) us p"
  using assms by (auto simp: conc_inv_def)

text \<open>As long as no user is removed, what the other tasks rely on stays.\<close>

lemma conc_inv_other:
  assumes "conc_inv E (tasks, w)" and "server_inv E w'" and "user_ids (master w) \<subseteq> user_ids (master w')"
  shows "conc_inv E (tasks, w')"
proof -
  have "actor_ok w' a \<and> (\<exists>us. knows us w' \<and> guarantees knows (actor_does E a) us p)" if "tasks k = Some (a, p)" for k a p
  proof -
    note task = conc_invD(2,3) [OF assms(1) that]
    from task(2) obtain us where us: "knows us w" "guarantees knows (actor_does E a) us p" by blast
    from us(1) assms(3) have "knows us w'" by (auto simp: knows_def)
    moreover from task(1) assms(3) have "actor_ok w' a" by (auto simp: actor_ok_def)
    ultimately show ?thesis using us(2) by blast
  qed
  with assms(2) show ?thesis by (simp add: conc_inv_def)
qed

lemma conc_inv_task:
  assumes "conc_inv E (tasks, w)" and "actor_ok w a" and "knows us w" and "guarantees knows (actor_does E a) us p"
  shows "conc_inv E (tasks(k \<mapsto> (a, p)), w)"
proof -
  have "actor_ok w b \<and> (\<exists>us. knows us w \<and> guarantees knows (actor_does E b) us q)"
    if "(tasks(k \<mapsto> (a, p))) j = Some (b, q)" for j b q
  proof (cases "j = k")
    case True
    with that assms(2-4) show ?thesis by auto
  next
    case False
    with that have "tasks j = Some (b, q)" by simp
    from conc_invD(2,3) [OF assms(1) this] show ?thesis ..
  qed
  with conc_invD(1) [OF assms(1)] show ?thesis by (simp add: conc_inv_def)
qed


context server
begin

lemma consumer_keeps_atomic:
  assumes "preserves (server_inv E) m"
    and "\<And>v :: ('r, 'z) app_scheme. preserves (\<lambda>w. master w = master v \<and> slave w = slave v \<and> auth_cache w = auth_cache v) m"
  shows "guarantees knows (consumer_keeps E) us (atomic m)"
proof (rule guarantees_atomic)
  show "consumer_keeps E w (snd (m w))" for w
    using preservesD [OF assms(1), of w] preservesD [OF assms(2) [of w], of w] by (simp add: consumer_keeps_def)
qed (rule knows_nothing)

lemma consumer_frames:
  fixes v :: "('r, 'z) app_scheme"
  defines "I \<equiv> \<lambda>w :: ('r, 'z) app_scheme. master w = master v \<and> slave w = slave v \<and> auth_cache w = auth_cache v"
  shows "preserves I (from_slave q)" "preserves I (redis_get p)" "preserves I (redis_put f)" "preserves I (publish e k b)"
  unfolding I_def from_slave_def redis_get_def redis_put_def publish_def
  by (intro preserves_ext preserves_query preserves_modify; simp)+

lemma consumer_task_keeps:
  assumes "server_inv E w" and "m \<in> set (published w)"
  shows "guarantees knows (consumer_keeps E) us (snd (consumer_task E (pub_body m)))"
proof -
  obtain a i x where m: "pub_body m = post_event (env_lib E) a i x"
    using server_invD(6) [OF assms(1)] assms(2) unfolding events_ok_def by blast
  have "guarantees knows (consumer_keeps E) vs (OnPostCreated_prog (env_lib E) (env_redis E) (env_planner E) a' i' x')" for vs a' i' x'
    unfolding OnPostCreated_prog_def GetFollowers_def Let_def
    by (intro guarantees_intros consumer_keeps_atomic pres_inv_calls consumer_frames decodable_steps)
  moreover have "guarantees knows (consumer_keeps E) vs (atomic (publish ''ws-fanout'' [] (pub_body m)))" for vs
    unfolding m by (intro consumer_keeps_atomic pres_inv_calls consumer_frames)
  ultimately have "guarantees knows (consumer_keeps E) vs (PostFeedConsumer_Process_prog (env_lib E) (env_redis E) (env_planner E) (pub_body m))" for vs
    unfolding PostFeedConsumer_Process_prog_def by (intro guarantees_intros)
  then show ?thesis unfolding consumer_task_def snd_conv by (intro guarantees_intros)
qed

lemma request_task_ok:
  assumes "server_inv E w" and "request_task E c q w = (a, p)"
  shows "actor_ok w a \<and> guarantees knows (actor_does E a) us p"
proof (cases "authorize (auth_cache w) (sr_handler q) (sr_authorization q)")
  case (Inl status)
  with assms(2) show ?thesis by (auto simp: request_task_def actor_ok_def intro: guarantees_pret)
next
  case (Inr user)
  have a: "a = Request q user" "p = pbind (call_prog E c user q (sr_handler q)) (\<lambda>r. pret (Some r))"
    using assms(2) by (simp_all add: request_task_def Inr)
  have "u \<in> user_ids (master w)" if "user = Some u" for u
  proof (rule bearer_is_user [OF assms(1)])
    show "bears_token (auth_cache w) (sr_authorization q) u"
      using Inr that authorize_bearer [of "sr_handler q" "auth_cache w" "sr_authorization q"]
        authorize_open [of "sr_handler q" "auth_cache w" "sr_authorization q"]
      by (cases "open_handler (sr_handler q)"; cases "\<exists>u. bears_token (auth_cache w) (sr_authorization q) u") auto
  qed
  then have "actor_ok w a" by (simp add: actor_ok_def a)
  moreover have "guarantees knows (actor_does E a) us p"
    unfolding a actor_does.simps by (intro guarantees_pbind acts_only_call [OF Inr] guarantees_pret)
  ultimately show ?thesis ..
qed

lemma acts_for_steps: "(act E user)\<^sup>*\<^sup>* w w' \<Longrightarrow> acts_for (env_lib E) user w w'"
  by (induction rule: rtranclp_induct) (auto intro: acts_for_refl acts_for_trans act_acts_for)

lemma acts_inv: "(act E user)\<^sup>*\<^sup>* w w' \<Longrightarrow> server_inv E w \<Longrightarrow> server_inv E w'"
  by (induction rule: rtranclp_induct) (auto intro: act_inv)

lemma actor_does_inv:
  assumes "actor_does E a w w'" and "server_inv E w"
  shows "server_inv E w'" and "user_ids (master w) \<subseteq> user_ids (master w')"
proof -
  have "server_inv E w' \<and> user_ids (master w) \<subseteq> user_ids (master w')"
  proof (cases a)
    case (Request q user)
    with assms acts_inv acts_for_steps [of user w w'] show ?thesis by (auto simp: acts_for_def)
  next
    case (Consumer m)
    with assms show ?thesis by (simp add: consumer_keeps_def)
  qed
  then show "server_inv E w'" and "user_ids (master w) \<subseteq> user_ids (master w')" by simp_all
qed

lemma conc_step_inv:
  assumes "conc_step E s s'" and "conc_inv E s"
  shows "conc_inv E s'"
  using assms
proof (induction rule: conc_step.induct)
  case (arrive tasks k w c q)
  obtain a p where t: "request_task E c q w = (a, p)" by (cases "request_task E c q w")
  from request_task_ok [OF conc_invD(1) [OF arrive.prems] t, of "{}"] show ?case
    unfolding t by (intro conc_inv_task [OF arrive.prems, where us = "{}"]) (simp_all add: knows_def)
next
  case (receive tasks k m w)
  from consumer_task_keeps [OF conc_invD(1) [OF receive.prems] receive.hyps(2), of "{}"] show ?case
    by (cases "consumer_task E (pub_body m)")
      (auto simp: consumer_task_def actor_ok_def knows_def intro!: conc_inv_task [OF receive.prems, where us = "{}"])
next
  case (call tasks k a f w w' p)
  obtain us where us: "knows us w" "guarantees knows (actor_does E a) us (Call f)"
    using conc_invD(3) [OF call.prems call.hyps(1)] by blast
  then obtain vs where step: "actor_does E a w w'" "knows vs w'" "guarantees knows (actor_does E a) vs p"
    using call.hyps(2) by (fastforce simp: guarantees_call)
  note does = actor_does_inv [OF step(1) conc_invD(1) [OF call.prems]]
  have "conc_inv E (tasks, w')" by (rule conc_inv_other [OF call.prems does])
  moreover have "actor_ok w' a"
    using conc_invD(2) [OF call.prems call.hyps(1)] does(2) by (auto simp: actor_ok_def)
  ultimately show ?case using step(2,3) by (rule conc_inv_task)
next
  case (replicate tasks w)
  from step_inv [OF server_step.replicate conc_invD(1) [OF replicate]] show ?case
    by (rule conc_inv_other [OF replicate]) (simp add: replicate_now_def)
next
  case (update_cache tasks w)
  from step_inv [OF server_step.update_cache conc_invD(1) [OF update_cache]] show ?case
    by (rule conc_inv_other [OF update_cache]) simp
next
  case (elsewhere w w' tasks)
  from step_inv [OF server_step.elsewhere [OF elsewhere.hyps] conc_invD(1) [OF elsewhere.prems]] show ?case
    by (rule conc_inv_other [OF elsewhere.prems]) (use elsewhere.hyps in \<open>simp add: same_app_def\<close>)
qed

lemma conc_reach_inv: "conc_reach E s \<Longrightarrow> conc_inv E s"
proof (induction rule: conc_reach.induct)
  case (start w)
  from reach_inv [OF server_reach.start [OF start]] show ?case by (simp add: conc_inv_def)
next
  case (step s s')
  then show ?case by (blast intro: conc_step_inv)
qed

text \<open>What one call does.\<close>

lemma call_does:
  assumes "conc_reach E (tasks, w)" and "tasks k = Some (a, Call f)" and "f w = (w', p)"
  shows "server_inv E w'" and "actor_does E a w w'" and "actor_ok w a"
proof -
  note inv = conc_reach_inv [OF assms(1)]
  obtain us where us: "knows us w" "guarantees knows (actor_does E a) us (Call f)"
    using conc_invD(3) [OF inv assms(2)] by blast
  then show does: "actor_does E a w w'" using assms(3) by (fastforce simp: guarantees_call)
  show "server_inv E w'" using actor_does_inv(1) [OF does conc_invD(1) [OF inv]] .
  show "actor_ok w a" by (rule conc_invD(2) [OF inv assms(2)])
qed

end

section \<open>Fair runs\<close>

text \<open>A step leaves a task alone or is its next call.\<close>

lemma task_step:
  assumes "conc_step E s s'" and "fst s k = Some (a, p)"
  shows "fst s' k = Some (a, p) \<or> (\<exists>f. p = Call f \<and> fst s' k = Some (a, snd (f (snd s))))"
  using assms by (cases rule: conc_step.cases) auto

lemma task_until:
  assumes "\<And>n. conc_step E (r n) (r (Suc n))" and "fst (r n) k = Some (a, Call f)"
    and "n \<le> j" and "fst (r (Suc j)) k \<noteq> fst (r j) k"
  shows "\<exists>m \<ge> n. fst (r (Suc m)) k = Some (a, snd (f (snd (r m))))
    \<and> (\<forall>i. n \<le> i \<longrightarrow> i < m \<longrightarrow> fst (r (Suc i)) k = fst (r i) k)"
proof -
  define m where "m = (LEAST m. n \<le> m \<and> fst (r (Suc m)) k \<noteq> fst (r m) k)"
  have m: "n \<le> m" "fst (r (Suc m)) k \<noteq> fst (r m) k"
    using LeastI [of "\<lambda>m. n \<le> m \<and> fst (r (Suc m)) k \<noteq> fst (r m) k" j] assms(3,4) by (auto simp: m_def)
  have idle: "fst (r (Suc i)) k = fst (r i) k" if "n \<le> i" "i < m" for i
    using that not_less_Least [of i "\<lambda>m. n \<le> m \<and> fst (r (Suc m)) k \<noteq> fst (r m) k"] by (auto simp: m_def)
  have same: "fst (r i) k = Some (a, Call f)" if "n \<le> i" "i \<le> m" for i
    using that by (induction i rule: dec_induct) (use assms(2) idle in auto)
  from task_step [OF assms(1) same [OF m(1) order_refl]] m same [OF m(1) order_refl] idle show ?thesis by auto
qed

text \<open>The calls that task \<open>k\<close> has made between two times, each of which changes it.\<close>

definition calls_made :: "(nat \<Rightarrow> ('r, 'z) tasks) \<Rightarrow> nat \<Rightarrow> nat \<Rightarrow> nat \<Rightarrow> nat" where
  "calls_made r k n m = card {j. n \<le> j \<and> j < m \<and> fst (r (Suc j)) k \<noteq> fst (r j) k}"

lemma calls_made_none [simp]: "calls_made r k n n = 0"
  by (simp add: calls_made_def)

lemma calls_made_next:
  assumes "\<forall>i. n \<le> i \<longrightarrow> i < m \<longrightarrow> fst (r (Suc i)) k = fst (r i) k"
  shows "calls_made r k n t \<le> Suc (calls_made r k (Suc m) t)"
proof -
  let ?S = "\<lambda>n. {j. n \<le> j \<and> j < t \<and> fst (r (Suc j)) k \<noteq> fst (r j) k}"
  have "?S n \<subseteq> insert m (?S (Suc m))"
  proof
    fix j assume j: "j \<in> ?S n"
    with assms have "\<not> j < m" by auto
    with j show "j \<in> insert m (?S (Suc m))" by auto
  qed
  then have "card (?S n) \<le> card (insert m (?S (Suc m)))" by (intro card_mono) simp_all
  also have "\<dots> \<le> Suc (card (?S (Suc m)))" by (rule card_insert_le_m1) simp_all
  finally show ?thesis by (simp add: calls_made_def)
qed

lemma task_ends:
  assumes "within l p" and "\<And>n. conc_step E (r n) (r (Suc n))"
    and "\<And>m f. n \<le> m \<Longrightarrow> fst (r m) k = Some (a, Call f) \<Longrightarrow> \<exists>j \<ge> m. fst (r (Suc j)) k \<noteq> fst (r j) k"
    and "fst (r n) k = Some (a, p)"
  shows "\<exists>m \<ge> n. \<exists>x. fst (r m) k = Some (a, Done x) \<and> calls_made r k n m \<le> l"
  using assms(1,3,4)
proof (induction arbitrary: n rule: within.induct)
  case (result l x)
  then show ?case by (intro exI [of _ n]) simp
next
  case (call l f)
  from call.prems(1) [OF order_refl call.prems(2)] obtain j where "n \<le> j" "fst (r (Suc j)) k \<noteq> fst (r j) k" by blast
  from task_until [OF assms(2) call.prems(2) this] obtain m where
    m: "n \<le> m" "fst (r (Suc m)) k = Some (a, snd (f (snd (r m))))"
    "\<forall>i. n \<le> i \<longrightarrow> i < m \<longrightarrow> fst (r (Suc i)) k = fst (r i) k" by blast
  have "\<exists>t \<ge> Suc m. \<exists>x. fst (r t) k = Some (a, Done x) \<and> calls_made r k (Suc m) t \<le> l"
    by (rule call.IH [OF _ m(2)]) (use m(1) call.prems(1) in auto)
  then obtain t x where t: "Suc m \<le> t" "fst (r t) k = Some (a, Done x)" "calls_made r k (Suc m) t \<le> l" by blast
  with calls_made_next [OF m(3), of t] m(1) show ?case by (intro exI [of _ t]) auto
qed

section \<open>How many calls a request makes\<close>

fun max_calls :: "handler \<Rightarrow> nat" where
  "max_calls Handler_Login = 3"
| "max_calls Handler_Friend_Add = 2"
| "max_calls Handler_Friend_Delete = 2"
| "max_calls Handler_Post_Create = 2"
| "max_calls Handler_Post_Update = 3"
| "max_calls Handler_Post_Delete = 3"
| "max_calls Handler_Post_Feed = 4"
| "max_calls Handler_Dialog_List = 2"
| "max_calls h = 1"

lemma within_then: "within n p \<Longrightarrow> (\<And>a. within 0 (k a)) \<Longrightarrow> within n (pbind p k)"
  using within_pbind [of n p 0 k] by simp

lemma within_parse [within_intros]:
  "(\<And>x. within n (k x)) \<Longrightarrow> within n (pparse_or_bad_request parsed body k)"
  unfolding pparse_or_bad_request_def by (intro within_intros)

lemma within_answers [within_intros]:
  "within n p \<Longrightarrow> within n (pjson_answer L p)" "within n r \<Longrightarrow> within n (ptext_answer r)"
  unfolding pjson_answer_def ptext_answer_def by (intro within_then within_cases within_done; assumption)+

lemma within_with_user [within_intros]: "(\<And>u. within n (k u)) \<Longrightarrow> within n (pwith_user user k)"
  unfolding pwith_user_def by (intro within_intros)

text \<open>One \<open>DEL\<close> drops the feeds of all followers; a read that misses fills the cache with two calls.\<close>

lemma within_invalidation:
  "within 2 (InvalidateFeedsOfFollowersOf_prog L R P a)"
  "within 1 (InvalidateFeed_prog L R u)"
  unfolding InvalidateFeedsOfFollowersOf_prog_def InvalidateFeed_prog_def numeral_2_eq_2 One_nat_def
  by (intro within_intros)+

lemma within_get_feed: "within 4 (GetFeed_prog L R P u offset limit)"
proof -
  have fill: "within (Suc (Suc 0)) (if db_feed \<noteq> [] then pbind (atomic (m db_feed)) (\<lambda>_. atomic n) else pret ())" for db_feed :: "feed_post list" and m n
    by (intro within_cases within_atomic_pbind within_atomic within_done)
  have "within 3 (pbind (atomic l) (\<lambda>db_feed. pbind (if db_feed \<noteq> [] then pbind (atomic (m db_feed)) (\<lambda>_. atomic n) else pret ())
      (\<lambda>_. Done (y db_feed))))" for l :: "('c, feed_post list) eff" and m n y
    unfolding numeral_3_eq_3 by (intro within_atomic_pbind within_then [OF fill] within_done)
  moreover have "within 3 (pbind (Done b) (\<lambda>stop. pbind (atomic (m stop)) (\<lambda>raw. Done (y raw))))" for b m y
    unfolding numeral_3_eq_3 by (intro within_intros)
  ultimately have "within (Suc 3) (GetFeed_prog L R P u offset limit)"
    unfolding GetFeed_prog_def Let_def by (intro within_atomic_pbind within_cases) simp_all
  then show ?thesis by simp
qed

lemma within_changed_post:
  "within 2 (if result \<noteq> [] then pbind (Done x) (InvalidateFeedsOfFollowersOf_prog L R P) else pret ())"
  by (intro within_cases within_done_pbind within_invalidation within_done)

lemma within_posts:
  "within 2 (PostCreateHandler_prog L exchange i now u body)"
  "within 3 (PostUpdateHandler_prog L R P body)"
  "within 3 (PostDeleteHandler_prog L R P req)"
  "within 4 (PostFeedHandler_prog L R P u req)"
proof -
  show "within 2 (PostCreateHandler_prog L exchange i now u body)"
    unfolding PostCreateHandler_prog_def numeral_2_eq_2 by (intro within_intros)
  have changed: "within 3 (pbind (atomic m) (\<lambda>result. pbind (if result \<noteq> []
      then pbind (Done (as_single_row result)) (InvalidateFeedsOfFollowersOf_prog L R P) else pret ()) (\<lambda>_. pret y)))" for m y
    unfolding numeral_3_eq_3
    by (intro within_atomic_pbind within_then [OF within_changed_post [unfolded numeral_2_eq_2]] within_done)
  show "within 3 (PostUpdateHandler_prog L R P body)" "within 3 (PostDeleteHandler_prog L R P req)"
    unfolding PostUpdateHandler_prog_def PostDeleteHandler_prog_def
    by (intro within_cases within_done within_parse within_done_pbind changed)+
  have "within 4 (pbind (GetFeed_prog L R P u offset limit) (\<lambda>feed. pret (y feed)))" for offset limit y
    by (intro within_then [OF within_get_feed] within_done)
  then show "within 4 (PostFeedHandler_prog L R P u req)"
    unfolding PostFeedHandler_prog_def by (intro within_intros)
qed

lemma within_friends:
  "within 2 (FriendAddHandler_prog L R now u req)" "within 2 (FriendDeleteHandler_prog L R u req)"
proof -
  have dropped: "within 2 (pbind (atomic m) (\<lambda>_. pbind (InvalidateFeed_prog L R u) (\<lambda>_. pret y)))" for m y
    unfolding numeral_2_eq_2
    by (intro within_atomic_pbind within_then [OF within_invalidation(2) [unfolded One_nat_def]] within_done)
  show "within 2 (FriendAddHandler_prog L R now u req)" "within 2 (FriendDeleteHandler_prog L R u req)"
    unfolding FriendAddHandler_prog_def FriendDeleteHandler_prog_def by (intro within_parse dropped)+
qed

lemma within_login: "within 3 (Login_prog L H draw now body)"
proof -
  have "within 2 (GenerateToken_prog draw now u)" for u
    unfolding GenerateToken_prog_def Let_def numeral_2_eq_2 by (intro within_intros)
  then have "within 2 (pbind (GenerateToken_prog draw now u) (\<lambda>(token, success).
      if \<not> success then pret x else pret (y token)))" for u x y
    by (intro within_then within_cases within_done; assumption)
  then show ?thesis
    unfolding Login_prog_def numeral_3_eq_3 numeral_2_eq_2 by (intro within_intros) auto
qed

lemma within_dialogs:
  "within 1 (DialogSendHandler_prog L send u req body)"
  "within 2 (DialogListHandler_prog L reset listing u req)"
  "within 1 (DialogUnreadHandler_prog L unread_count u)"
proof -
  have caught: "within 1 (ptry_catch (pbind (atomic m) (\<lambda>x. pret (y x))) is_rpc_error (pret z))" for m y z
    using within_ptry_catch [OF within_atomic_pbind [of 0 "\<lambda>x. pret (y x)" m], of 0 "pret z"] by simp
  have uncalled: "within 1 (ptry_catch (atomic m) is_rpc_error (pret z))" for m z
    using within_ptry_catch [OF within_atomic [of 0 m], of 0 "pret z"] by simp
  show "within 1 (DialogSendHandler_prog L send u req body)"
    unfolding DialogSendHandler_prog_def
    by (intro within_cases within_done within_parse within_done_pbind within_then [OF caught])
  show "within 2 (DialogListHandler_prog L reset listing u req)"
    unfolding DialogListHandler_prog_def Let_def
    by (intro within_parse within_pbind [OF caught, where n = 1, simplified one_add_one] within_then [OF caught] within_cases within_done)
  show "within 1 (DialogUnreadHandler_prog L unread_count u)"
    unfolding DialogUnreadHandler_prog_def
    by (intro within_then [OF uncalled] within_cases within_done)
qed

lemma within_call_prog: "within (max_calls h) (call_prog E c user q h)"
  by (cases h; simp only: max_calls.simps call_prog.simps;
      intro within_answers within_with_user within_posts within_friends within_login within_dialogs
        within_atomic [of 0, unfolded One_nat_def [symmetric]])

lemma within_request: "within (max_calls (sr_handler q)) (snd (request_task E c q w))"
proof -
  have "within (max_calls (sr_handler q)) (pbind (call_prog E c user q (sr_handler q)) (\<lambda>r. pret (Some r)))" for user
    by (intro within_then [OF within_call_prog] within_done)
  then show ?thesis by (simp add: request_task_def split: sum.split)
qed

text \<open>The consumer asks for the followers, makes up to three calls for each, and publishes.\<close>

lemma within_pushes:
  "within (3 * length us) (pfor_each us (\<lambda>u.
     pbind (atomic (found u)) (\<lambda>n.
     if (0::int) < n then pbind (atomic (put u)) (\<lambda>_. atomic (trim u)) else pret ())))"
  unfolding numeral_3_eq_3
  by (intro within_pfor_each within_atomic_pbind within_cases within_done within_atomic)

lemma atomic_pbind: "pbind (atomic m) k = Call (\<lambda>v. (snd (m v), pbind (Done (fst (m v))) k))"
  by (simp add: atomic_def split_beta fun_eq_iff)

lemma within_on_post_created:
  fixes v :: "('r, 'z) world_scheme"
  assumes "OnPostCreated_prog L R P u i x = Call f"
  shows "within (3 * length (sql_followers P u (slave v))) (snd (f v))"
proof -
  define push :: "uuid list \<Rightarrow> (('r, 'z) world_scheme, unit) prog" where "push us = pfor_each us (\<lambda>follower_id.
       pbind (atomic (redis_get (\<lambda>r. r_exists R r (MakeKey L follower_id)))) (\<lambda>found.
       if 0 < found
       then pbind (atomic (redis_put (\<lambda>r. r_lpush R r (MakeKey L follower_id)
           (SerializePost L \<lparr>fp_post_id = i, fp_text = x, fp_author = u\<rparr>))))
         (\<lambda>_. atomic (redis_put (\<lambda>r. r_ltrim R r (MakeKey L follower_id) 0 (int kMaxFeedSize - 1))))
       else pret ()))" for us
  have "OnPostCreated_prog L R P u i x = pbind (atomic (GetFollowers P u)) push"
    unfolding OnPostCreated_prog_def Let_def push_def ..
  with assms have f: "snd (f v) = pbind (Done (fst (GetFollowers P u v))) push" by (auto simp only: atomic_pbind prog.inject snd_conv)
  show ?thesis
  proof (cases "fst (GetFollowers P u v)")
    case (Inl e)
    then show ?thesis by (simp add: f)
  next
    case (Inr us)
    then have "us = sql_followers P u (slave v)"
      by (auto simp: GetFollowers_def from_slave_def ext_def query_def Let_def split: list.splits fault.splits)
    then show ?thesis by (simp add: f Inr) (simp only: push_def within_pushes)
  qed
qed

lemma within_consumer:
  fixes v :: "('r, 'z) app_scheme"
  assumes "server E" and "snd (consumer_task E (post_event (env_lib E) u i x)) = Call f"
  shows "within (Suc (3 * length (sql_followers (env_planner E) u (slave v)))) (snd (f v))"
proof -
  obtain g :: "('r, 'z) app_scheme \<Rightarrow> ('r, 'z) app_scheme \<times> (('r, 'z) app_scheme, unit) prog"
    where g: "OnPostCreated_prog (env_lib E) (env_redis E) (env_planner E) u i x = Call g"
    by (simp add: OnPostCreated_prog_def atomic_pbind)
  have f: "snd (f v) = pbind (pbind (snd (g v)) (\<lambda>_. atomic (publish ''ws-fanout'' [] (post_event (env_lib E) u i x)))) (\<lambda>_. pret None)"
    using assms(2) by (auto simp: consumer_task_def PostFeedConsumer_Process_prog_def feed_env.event_round [OF server.axioms(1) [OF assms(1)]] g split_beta)
  have "within (3 * length (sql_followers (env_planner E) u (slave v)) + Suc 0) (snd (f v))"
    unfolding f by (intro within_then within_pbind [OF within_on_post_created [OF g]] within_atomic within_done)
  then show ?thesis by simp
qed

lemma consumer_calls:
  fixes E :: "('r, ('r, 'z) app_scheme) environment"
  assumes "server E"
  obtains a f where "consumer_task E (post_event (env_lib E) u i x) = (a :: actor, Call f)"
  by (simp add: consumer_task_def PostFeedConsumer_Process_prog_def OnPostCreated_prog_def atomic_pbind
      feed_env.event_round [OF server.axioms(1) [OF assms]])

text \<open>
  Requests run alone are the requests of the server: the two forms of a handler agree. Without interruption the calls of a request
  have the same answer and the same effect as the handler behind its check, whatever fails, and so
  have the calls of the consumer.
\<close>

lemma requests_run_alone:
  "run (snd (request_task E c q w)) w = map_prod (map_sum id Some) id (serve E c q w)
   \<and> run (snd (consumer_task E m)) w
     = map_prod (map_sum id (\<lambda>_. None)) id (PostFeedConsumer_Process (env_lib E) (env_redis E) (env_planner E) m w)"
proof
  show "run (snd (request_task E c q w)) w = map_prod (map_sum id Some) id (serve E c q w)"
  proof (cases "authorize (auth_cache w) (sr_handler q) (sr_authorization q)")
    case (Inl status)
    then show ?thesis by (simp add: request_task_def serve_def pret_def)
  next
    case (Inr user)
    then show ?thesis
      by (cases "call E c user q (sr_handler q) w" rule: prod.exhaust; cases "fst (call E c user q (sr_handler q) w)")
        (simp_all add: request_task_def serve_def run_call_prog bind_def del: pbind.simps)
  qed
  show "run (snd (consumer_task E m)) w
     = map_prod (map_sum id (\<lambda>_. None)) id (PostFeedConsumer_Process (env_lib E) (env_redis E) (env_planner E) m w)"
    by (cases "PostFeedConsumer_Process (env_lib E) (env_redis E) (env_planner E) m w" rule: prod.exhaust;
        cases "fst (PostFeedConsumer_Process (env_lib E) (env_redis E) (env_planner E) m w)")
      (simp_all add: consumer_task_def bind_def del: pbind.simps)
qed

section \<open>A concrete run\<close>

definition register_request :: server_request where
  "register_request = sample_request Handler_User_Register [] (sample_registration ''pw'')"

definition register_call :: "keyspace social \<Rightarrow> keyspace social \<times> (keyspace social, response option) prog" where
  "register_call w = (case serve sample_environment sample_chance register_request w of
     (x, w') \<Rightarrow> (w', Done (map_sum id Some x)))"

lemma pbind_done_some: "pbind (Done x) (\<lambda>r. pret (Some r)) = Done (map_sum id Some x)"
  by (cases x) (simp_all add: pret_def)

lemma register_task:
  "request_task sample_environment sample_chance register_request w = (Request register_request None, Call register_call)"
proof -
  have h: "sr_handler register_request = Handler_User_Register" by (simp add: register_request_def sample_request_def)
  have open_h: "open_handler Handler_User_Register" by (simp add: open_handler_def)
  have served: "serve sample_environment sample_chance register_request = call sample_environment sample_chance None register_request Handler_User_Register"
    using serve_open [of register_request sample_environment sample_chance] open_h by (simp add: h fun_eq_iff)
  show ?thesis
    by (simp add: pbind_done_some request_task_def authorize_open open_h h atomic_def register_call_def served fun_eq_iff split_beta
        del: pbind.simps(1) call.simps)
qed

definition register_run :: "nat \<Rightarrow> (keyspace, \<lparr>dialogs :: keyspace dialog_world\<rparr>) tasks" where
  "register_run n =
     (if n = 0 then (Map.empty, sample_social)
      else if n = 1 then ([0 \<mapsto> (Request register_request None, Call register_call)], sample_social)
      else ([0 \<mapsto> (Request register_request None, snd (register_call sample_social))], fst (register_call sample_social)))"

lemma register_run_steps: "conc_step sample_environment (register_run n) (register_run (Suc n))"
proof -
  consider "n = 0" | "n = 1" | "2 \<le> n" by linarith
  then show ?thesis
  proof cases
    case 1
    then show ?thesis
      using conc_step.arrive [of Map.empty 0 sample_environment sample_social sample_chance register_request]
      by (simp add: register_run_def register_task)
  next
    case 2
    then show ?thesis
      using conc_step.call [of "[0 \<mapsto> (Request register_request None, Call register_call)]" 0 _ register_call sample_social]
      by (simp add: register_run_def)
  next
    case 3
    then show ?thesis by (auto simp: register_run_def same_app_def intro!: conc_step.elsewhere)
  qed
qed

section \<open>Properties\<close>

text \<open>
  C12. Concurrent requests act for their users. Any number of requests and consumed events may
  overlap, call by call, with replication and updates of the token cache in between and whatever
  fails: every state keeps the invariant of the server, and every single call of a request only does
  what its registered user may do, or, of the consumer, leaves databases and tokens alone.
\<close>

theorem concurrent_requests_act_for_their_users:
  assumes "server E" and "conc_reach E (tasks, w)" and "tasks k = Some (a, Call f)" and "f w = (w', p)"
  shows "server_inv E w \<and> server_inv E w'
    \<and> (case a of
         Request q user \<Rightarrow> acts_for (env_lib E) user w w' \<and> (\<forall>u. user = Some u \<longrightarrow> u \<in> user_ids (master w))
       | Consumer m \<Rightarrow> master w' = master w \<and> slave w' = slave w \<and> auth_cache w' = auth_cache w)"
proof -
  note call = server.call_does [OF assms]
  note inv = conc_invD(1) [OF server.conc_reach_inv [OF assms(1,2)]]
  show ?thesis
  proof (cases a)
    case (Request q user)
    with call(2) server.acts_for_steps [OF assms(1)] have "acts_for (env_lib E) user w w'" by simp
    with call inv show ?thesis by (simp add: Request actor_ok_def)
  next
    case (Consumer m)
    with call inv show ?thesis by (simp add: consumer_keeps_def)
  qed
qed

theorem concurrent_requests_act_for_their_users_witness:
  "acts_for ref_lib None sample_social (fst (register_call sample_social))"
proof -
  have start: "conc_reach sample_environment (register_run 0)"
    using conc_reach.start [OF sample_social_start] by (simp add: register_run_def)
  from conc_reach.step [OF this register_run_steps]
  have reach: "conc_reach sample_environment ([0 \<mapsto> (Request register_request None, Call register_call)], sample_social)"
    by (simp add: register_run_def)
  have "[0 \<mapsto> (Request register_request None, Call register_call)] 0 = Some (Request register_request None, Call register_call)"
    by simp
  from concurrent_requests_act_for_their_users [OF ref_social_axioms reach this prod.collapse [symmetric]]
  show ?thesis by (simp add: sample_environment_def)
qed

text \<open>
  C21. Requests and events end after few calls. In every run in which a task that has a call left is
  some time allowed to make it, however many other tasks there are and whatever they and the faults
  do in between, every request ends, with an answer or an exception, after at most as many calls as
  its handler needs: one for registration, profile, search, a post, sending and counting messages;
  two for friendships, a new post and a dialog; three for a login and for changing a post, the feeds
  of all followers being dropped by one call; four for reading a feed. A consumed event ends after at
  most three calls for each follower that the author has when it asks for them, and two more.
\<close>

theorem requests_and_events_end:
  assumes "server E" and "\<forall>t. conc_step E (\<sigma> t) (\<sigma> (Suc t))"
    and "\<forall>m \<ge> n. \<forall>a f. fst (\<sigma> m) k = Some (a, Call f) \<longrightarrow> (\<exists>j \<ge> m. fst (\<sigma> (Suc j)) k \<noteq> fst (\<sigma> j) k)"
  shows "(fst (\<sigma> n) k = Some (request_task E c q w) \<longrightarrow>
      (\<exists>m \<ge> n. \<exists>a y. fst (\<sigma> m) k = Some (a, Done y) \<and> calls_made \<sigma> k n m \<le> max_calls (sr_handler q)))
    \<and> (fst (\<sigma> n) k = Some (consumer_task E (post_event (env_lib E) u i x)) \<longrightarrow>
      (\<exists>d \<ge> n. \<exists>m > d. \<exists>a y. fst (\<sigma> m) k = Some (a, Done y)
         \<and> calls_made \<sigma> k n m \<le> 2 + 3 * length (sql_followers (env_planner E) u (slave (snd (\<sigma> d))))))"
proof (intro conjI impI)
  assume start: "fst (\<sigma> n) k = Some (request_task E c q w)"
  obtain a p where task: "request_task E c q w = (a, p)" by fastforce
  from within_request [of q E c w] have p: "within (max_calls (sr_handler q)) p" by (simp add: task)
  have "\<exists>m \<ge> n. \<exists>y. fst (\<sigma> m) k = Some (a, Done y) \<and> calls_made \<sigma> k n m \<le> max_calls (sr_handler q)"
    by (rule task_ends [OF p]) (use assms(2,3) start task in auto)
  then show "\<exists>m \<ge> n. \<exists>a y. fst (\<sigma> m) k = Some (a, Done y) \<and> calls_made \<sigma> k n m \<le> max_calls (sr_handler q)" by blast
next
  assume start: "fst (\<sigma> n) k = Some (consumer_task E (post_event (env_lib E) u i x))"
  obtain a f where task: "consumer_task E (post_event (env_lib E) u i x) = (a, Call f)" by (rule consumer_calls [OF assms(1)])
  from start task assms(3) obtain j where "n \<le> j" "fst (\<sigma> (Suc j)) k \<noteq> fst (\<sigma> j) k" by fastforce
  from task_until [OF assms(2) [rule_format] start [unfolded task] this] obtain d where
    d: "n \<le> d" "fst (\<sigma> (Suc d)) k = Some (a, snd (f (snd (\<sigma> d))))"
    "\<forall>i. n \<le> i \<longrightarrow> i < d \<longrightarrow> fst (\<sigma> (Suc i)) k = fst (\<sigma> i) k" by blast
  let ?l = "Suc (3 * length (sql_followers (env_planner E) u (slave (snd (\<sigma> d)))))"
  have "within ?l (snd (f (snd (\<sigma> d))))" by (rule within_consumer [OF assms(1), where i = i and x = x]) (simp add: task)
  then have "\<exists>m \<ge> Suc d. \<exists>y. fst (\<sigma> m) k = Some (a, Done y) \<and> calls_made \<sigma> k (Suc d) m \<le> ?l"
    by (rule task_ends) (use assms(2,3) d(1,2) in auto)
  then obtain m y where
    m: "Suc d \<le> m" "fst (\<sigma> m) k = Some (a, Done y)" "calls_made \<sigma> k (Suc d) m \<le> ?l" by blast
  with calls_made_next [OF d(3), of m] d(1) show "\<exists>d \<ge> n. \<exists>m > d. \<exists>a y. fst (\<sigma> m) k = Some (a, Done y)
      \<and> calls_made \<sigma> k n m \<le> 2 + 3 * length (sql_followers (env_planner E) u (slave (snd (\<sigma> d))))"
    by (intro exI [of _ d] exI [of _ m] conjI exI [of _ a] exI [of _ y]) auto
qed

theorem requests_and_events_end_witness:
  "\<exists>m y. fst (register_run m) 0 = Some (Request register_request None, Done y) \<and> calls_made register_run 0 1 m \<le> 1"
proof -
  have finished: "\<exists>x. snd (register_call w) = Done x" for w by (simp add: register_call_def split: prod.split)
  have fair: "\<forall>m \<ge> 1. \<forall>a f. fst (register_run m) 0 = Some (a, Call f) \<longrightarrow>
      (\<exists>j \<ge> m. fst (register_run (Suc j)) 0 \<noteq> fst (register_run j) 0)"
  proof (intro allI impI)
    fix m a f assume m: "1 \<le> m" "fst (register_run m) 0 = Some (a, Call f)"
    obtain y where y: "snd (register_call sample_social) = Done y" using finished by blast
    with m have "m = 1" by (auto simp: register_run_def split: if_splits)
    with y show "\<exists>j \<ge> m. fst (register_run (Suc j)) 0 \<noteq> fst (register_run j) 0"
      by (intro exI [of _ 1]) (simp add: register_run_def)
  qed
  have start: "fst (register_run 1) 0 = Some (request_task sample_environment sample_chance register_request sample_social)"
    by (simp add: register_run_def register_task)
  have one: "max_calls (sr_handler register_request) = 1" by (simp add: register_request_def sample_request_def)
  from requests_and_events_end [OF ref_social_axioms allI [OF register_run_steps] fair, THEN conjunct1, rule_format, OF start]
  obtain m a y where m: "m \<ge> 1" "fst (register_run m) 0 = Some (a, Done y)" "calls_made register_run 0 1 m \<le> 1"
    unfolding one by blast
  then have "a = Request register_request None" by (auto simp: register_run_def split: if_splits)
  with m show ?thesis by blast
qed

end
