(* ===== verification/Greeting.thy ===== *)
theory Greeting
  imports Prelude
begin

text \<open>\<open>src/greeting.cpp\<close>: the greeting of the service template.\<close>

datatype user_type = kFirstTime | kKnown

definition newline :: string where
  "newline = [char_of (10 :: nat)]"

definition SayHelloTo :: "string \<Rightarrow> user_type \<Rightarrow> string" where
  "SayHelloTo name kind =
     (let name = (if name = [] then ''unknown user'' else name) in
      case kind of
        kFirstTime \<Rightarrow> ''Hello, '' @ name @ ''!'' @ newline
      | kKnown \<Rightarrow> ''Hi again, '' @ name @ ''!'' @ newline)"

text \<open>
  The greeting names its reader: two greetings are equal only for the same kind of user and the
  same name, where the empty name stands for \<open>unknown user\<close>.
\<close>

lemma greeting_inject:
  "SayHelloTo m k = SayHelloTo n l \<longleftrightarrow>
     k = l \<and> (if m = [] then ''unknown user'' else m) = (if n = [] then ''unknown user'' else n)"
  by (cases k; cases l) (simp_all add: SayHelloTo_def Let_def newline_def)

end
