(* ===== verification/Spec2Isabelle.thy ===== *)
theory Spec2Isabelle
  imports Reference_Services Password_Hasher Dialog_Utils Feed_System Feed_Concurrency Users Auth
    Web_Socket Notification_Liveness Lua Chat_Service Counter_Service Counter_Concurrency
    Delivery Consumers Notifications Message_Counting Counter_Recovery Monolith
    Dialog_Privacy
    Dialog_Handlers Server Messaging Wiring Objects Construction
    Server_Concurrency Greeting
begin

text \<open>
  A verification library for a social network backend in C++ (userver): a monolith with posts,
  friends, users, login and live notifications, a chat service and a counter service. This root
  theory holds no definitions; it imports the theories listed here.

  \<^bold>\<open>The program.\<close> The monolith (\<open>src/src\<close>) answers HTTP requests. It writes to the
  PostgreSQL master and reads lists from a replica. Feeds are cached in Redis, one list per user:
  a miss fills the list from the replica, a new post is published to RabbitMQ and a consumer
  pushes it to the front of the cached feeds of the author's followers, while updates, deletions
  and new friendships delete the feeds they may affect. A second consumer on every instance
  pushes the event to the WebSocket sessions of the followers connected there. Dialogs live
  in a separate service (\<open>src/chat-service\<close>) that stores messages through Redis functions
  written in Lua and publishes one event per message; the counter service
  (\<open>src/counter-service\<close>) consumes these events and keeps unread counts in a Redis hash per
  user, with a periodic reconciliation of the totals. The monolith reaches both through gRPC.

  \<^bold>\<open>The shared layer.\<close>
  \<^item> \<open>Prelude\<close>: exceptions, handlers as state transformers that may throw
    (\<open>('s, 'a) eff\<close>, with \<open>bind\<close>, \<open>try_catch\<close>, \<open>for_each\<close>), fixed-width
    integers, \<open>std::to_string\<close>, \<open>std::stoi\<close>, \<open>std::stoll\<close>. A call that leaves the
    process goes through \<open>ext\<close>, which consumes one entry of the fault sequence in the state:
    the call happens, fails before it has an effect, or fails after it (a lost reply). A theorem
    about an arbitrary fault sequence covers every failure of every call; one that assumes an
    empty sequence says so with \<open>faults w = []\<close> or a predicate that contains it.
  \<^item> \<open>Services\<close>: the code outside the repository, as records of functions with their
    documented laws as locales: UUID text and JSON (\<open>library\<close>), Redis lists and hashes
    (\<open>redis_lists\<close>, \<open>redis_server\<close>). \<open>Reference_Services\<close> implements each of them
    and interprets the locales, so the laws hold together; the concrete runs use it.
  \<^item> \<open>Database\<close>: the tables of \<open>src/postgresql/schemas/db_1.sql\<close> that the code uses, and
    each SQL statement of the handlers as a function on them. The order of rows that SQL leaves
    open is a parameter (\<open>planner\<close>, laws in the locale \<open>planning\<close>). \<open>World\<close> puts master,
    replica, feed Redis and published messages into one state and gives each call on it its
    contract under failures (\<open>robust\<close> of \<open>Delivery\<close>).
  \<^item> \<open>Lua\<close>: what the Redis functions use of Lua; its laws cover integers below
    \<open>2 ^ 53\<close>, where a Lua number is exact (locale \<open>lua_runtime\<close>).

  \<^bold>\<open>The components.\<close>
  \<^item> \<open>Feed_Cache\<close> (\<open>post/post_feed_cache.cpp\<close>): \<open>GetFeed\<close>, \<open>OnPostCreated\<close>,
    \<open>InvalidateFeed\<close>, \<open>InvalidateFeedsOfFollowersOf\<close>. Shown: the page a hit and a miss
    return and what a failed read leaves, the exact effect of a new post, that an invalidation is
    done as a whole or not at all, the size bound
    \<open>kMaxFeedSize\<close> (1000) and that every entry decodes in every state that is reachable with
    arbitrary failures.
  \<^item> \<open>Posts\<close> (post and friend handlers, \<open>post_feed_publisher.cpp\<close>,
    \<open>post_feed_consumer.cpp\<close>) and \<open>Feed_System\<close>, which runs them together: while every
    request settles (the replica catches up, the events are consumed) before the next one, the
    cache refines the feed query on the master in every reachable state (\<open>feed_inv\<close>,
    \<open>feed_reach\<close>). Its second half shows the interleavings and failures for which
    this does not hold.
  \<^item> \<open>Concurrency\<close> and \<open>Feed_Concurrency\<close>: the operations of the cache as programs that can be
    interrupted between their calls (\<open>prog\<close>; \<open>run\<close> gives back the uninterrupted operation) and the
    system in which any number of them run at once (\<open>feed_conc_step\<close>). What every interleaving
    guarantees is proved by one rule for single calls (\<open>ensures\<close>); three races show what none does:
    a feed cached twice, a feed of one post, and a feed that outlives its invalidation.
  \<^item> \<open>Web_Socket\<close> (\<open>post_feed_ws_manager.cpp\<close>, \<open>post_feed_ws_handler.cpp\<close>,
    \<open>ws_fanout_consumer.cpp\<close>): the session registry and the two tasks of a connection as the
    step relation \<open>ws_step\<close>; the invariant \<open>ws_inv\<close> gives consistency of the registry,
    exact delivery and the order of events. \<open>Notification_Liveness\<close>: a connection whose client is
    gone ends in every run that is fair to its handler (\<open>fair_to\<close>: while it is open, some later
    step changes it); the number of steps left is at most six and decreases (\<open>steps_left\<close>).
  \<^item> \<open>Delivery\<close> and \<open>Consumers\<close>: the broker's queues, which deliver a message again until its
    consumer has returned and its acknowledgement has arrived (\<open>delivers\<close>, any order, with the log
    of all deliveries and how each ended; an acknowledgement may be lost, as userver sends them
    without waiting). What a consumer owes such a queue is the contract \<open>robust\<close>: it returns with its effect, or it throws after a part
    of it and one of the calls that were to fail has failed. The locale \<open>at_least_once\<close> draws the
    conclusions once; it is interpreted for the three consumers. Post events are materialised at
    least once and at most once per delivery, an instance pushes a notification once for every
    delivery that returned, and the counters never fall below the messages.
  \<^item> \<open>Notifications\<close>: the whole way of a new post, from the request through both queues to the open
    sessions of the followers, composed from \<open>Server\<close>, \<open>Messaging\<close> and \<open>Consumers\<close>; and what is
    left of it for an instance whose auto-delete queue was lost with a connection.
    \<open>Message_Counting\<close>: the way of sent messages from the chat service through the queue of the
    counter service to the unread counts its users read.
  \<^item> \<open>Password_Hasher\<close>, \<open>Users\<close> and \<open>Auth\<close> (\<open>user/\<close>, \<open>auth/\<close>):
    salt, slow hash, hexadecimal text and comparison; registration, profile and search; tokens,
    login, the token cache with its full and incremental updates from the replica, and
    \<open>CheckAuth\<close>. The locale \<open>credential_scheme\<close> is the contract
    between registration and login. \<open>std::hash\<close> and the draws of the random engines are
    parameters.
  \<^item> \<open>Dialog_Utils\<close> (\<open>dialog_utils.hpp\<close>): FNV-1a on 64-bit words and virtual buckets.
  \<^item> \<open>Chat_Service\<close> (\<open>dialog_service.cpp\<close>, \<open>dialog_functions.lua\<close>): sending and listing;
    after any sequence of sends, whatever calls fail, both participants list the messages they
    exchanged, every accepted one and some of those that were answered with an error.
  \<^item> \<open>Counter_Service\<close> (\<open>counter_consumer.cpp\<close>, \<open>counter_service.cpp\<close>,
    \<open>counter_reconciler.cpp\<close>, \<open>counter_functions.lua\<close>): the hashes refine abstract counts
    per dialog (\<open>counters_refine\<close>); reset, reconciliation and their failures.
    \<open>Counter_Concurrency\<close>: the same when events, resets and reconciliations overlap call by call;
    the dialog counts are linearizable (an event takes effect with its task's last call), the
    totals only after an undisturbed reconciliation. \<open>Counter_Recovery\<close>: the same when calls
    fail; a failing call loses at most the operation that makes it, and the reconciler, which
    survives the failures of its entries, restores the totals.
  \<^item> \<open>Dialog_Handlers\<close> (\<open>src/src/dialog\<close>): the handlers are proved over the contract
    \<open>dialog_backend\<close>, and the locale \<open>chat_rpc\<close>, the two services behind a transport that
    may fail, is shown to satisfy it.
  \<^item> \<open>Server\<close> (\<open>configs/static_config.yaml\<close> with the handlers above): every request passes the
    check that its handler is configured with and then runs its handler (\<open>serve\<close>). The relation
    \<open>act\<close> says, one rule per effect, what a request may do for its user; every handler performs
    only such steps whatever calls fail (\<open>performs\<close>), so the limits on what a request changes and
    the invariant of the whole server (\<open>server_inv\<close>, \<open>server_reach\<close>) are proved on the
    relation and not handler by handler. The gRPC clients are parameters with the law that they
    leave the monolith's own data alone (\<open>rpc_clients\<close>); they are instantiated with the two
    services (\<open>social_environment\<close>). Tokens are never taken back (\<open>bearer_stays\<close>). What makes a
    request malformed is stated for each handler (\<open>malformed\<close>), and which of it the handler answers
    400 and which ends in an exception (\<open>caught_by_handler\<close>).
  \<^item> \<open>Server_Concurrency\<close>: every handler with more than one call in the form of \<open>Concurrency\<close>
    (\<open>call_prog\<close>; run alone it is the handler), and the system in which any number of requests and
    consumed events overlap call by call (\<open>conc_step\<close>). A rule for what every call does while the
    rest of the program relies on what it has read (\<open>guarantees\<close>) carries the invariant of the server
    and the limits of \<open>act\<close> over to every interleaving. In fair runs every request and event ends
    within a number of calls that is counted handler by handler (\<open>within\<close>, \<open>max_calls\<close>).
  \<^item> \<open>Monolith\<close>: a process as a whole, the server together with its live connections, which are opened
    behind the check of \<open>handler-post-feed-ws\<close> (\<open>authorize_ws\<close>, \<open>open_feed\<close>). Its invariant
    gives who is behind every connection and message, so who may see a live post.
  \<^item> \<open>Dialog_Privacy\<close>: the server together with the chat service (\<open>social_reach\<close>): what a request
    of any kind can do to the dialogs of any two users, and what a listing shows.
  \<^item> \<open>Messaging\<close>: the exchanges, queues and bindings each component declares when it starts,
    and which queues a message is routed to, for every order of starting. A queue keeps its flags:
    an auto-delete queue goes when its last consumer does (\<open>consumers_gone\<close>). How a topic pattern
    matches a routing key is a parameter (\<open>topic_broker\<close>).
  \<^item> \<open>Wiring\<close> (the \<open>main.cpp\<close> files and all constructors): the component list of each
    process, without those that \<open>load-enabled\<close> switches off (\<open>component_list\<close>), and every
    constructor as the sequence of its lookups, Redis clients and broker declarations. A start is
    the step relation \<open>startup_step\<close>, in which constructors run concurrently and a lookup waits for
    its component. A declaration may throw (the broker is away, or the ten seconds are over), a
    component of the framework may (those named \<open>fragile\<close>), and the first failure cancels the
    constructors that wait. No start blocks and none makes more than \<open>size_todo\<close> steps; at the end
    every component exists or has thrown, and if none has, all declarations are made. The
    framework's own components are a parameter (\<open>startup_framework\<close>: their lookups are closed and
    not circular, and their names are not those of the repository's components).
  \<^item> \<open>Objects\<close> and \<open>Construction\<close> (the class declarations in the \<open>.hpp\<close> files and the
    constructors): the members of every class as a record, each constructor as a function of the
    component context that may throw, and the classes that each \<open>main\<close> registers. A component
    refers to another by its name; \<open>FindComponent\<close> checks that it exists and has the class asked
    for, and a call of the broker has the result that the argument \<open>fails\<close> gives it. The relation
    \<open>build_step\<close> makes the objects along a start; a constructor throws exactly if one of its calls
    of the broker does, and what refers to the same class refers to the same object. This is why one state with one database, one
    feed cache and one session registry per process models what the handlers share.
  \<^item> \<open>Greeting\<close> (\<open>greeting.cpp\<close>).

  Definitions carry the names of the code; a handler's definition makes the calls of the source in
  their order, with each early return and exception as a branch. An exception that leaves a
  handler is the result \<open>Inl\<close> (the framework answers it). Identifiers and times the
  database generates, UUIDs and random draws are arguments.

  \<^bold>\<open>Bounds.\<close> C++ \<open>int\<close> arithmetic is checked (\<open>int32_result\<close>): an overflow is
  \<open>Undefined_Behaviour\<close>. Counters are 64-bit in Redis and exact in Lua below \<open>2 ^ 53\<close>, which
  \<open>exact_number\<close> states where it is needed. The keys a reconciliation run scans are the
  argument of \<open>RunReconciliation\<close>, in any order and with repetitions, as SCAN may return
  them. All loops are structural recursions; no fuel is used. A connection and the system of
  requests are step relations without a bound.

  \<^bold>\<open>Not modelled.\<close> The framework: matching of request paths, what it answers for a refusal or an
  exception (both are values of the model; it answers an exception 500), periodic scheduling and
  connection pools; a deadline is a failure of its call;
  bodies that are not JSON objects; logging, tracing and the configuration that does not decide
  authorization, Redis groups, lookups or what is loaded. Requests of the monolith run one after the other in
  \<open>server_reach\<close> and \<open>feed_reach\<close>, with replication, cache updates and consumed events between
  them, and call by call in \<open>conc_reach\<close>; the consistency of feeds with the database is shown for
  the former only, since races break it. What a class inherits from the framework is reduced to
  the checker of a handler and the started flag of a consumer. A dead-letter queue or a limit of
  redeliveries is not configured and not modelled. Deliveries of one queue are one after the other
  in \<open>delivers\<close>; overlapping deliveries, which the prefetch counts allow, are those of
  \<open>feed_conc_step\<close>, \<open>conc_step\<close> and \<open>Counter_Concurrency\<close>. The broker itself does not lose a durable
  queue. A statement is atomic and SQL isolation between concurrent statements is not modelled. Texts
  are taken to hold no NUL character, which PostgreSQL refuses. The replica that the token cache reads
  does not go back.
  Expiry of Redis keys (the code sets none) and floating-point numbers outside the exact range are
  left out, as is \<open>TimePointToString\<close>, which is never called.
\<close>

end
